(* ===== verification/Prelude.thy ===== *)
theory Prelude
  imports Main "HOL-Library.AList" "HOL-Library.Word" "HOL-Library.Signed_Division"
begin

text \<open>
  What the components share: the part of Go's language and standard library that the modelled
  packages use (errors and their chains, \<^verbatim>\<open>time.Time\<close> and \<^verbatim>\<open>time.Duration\<close>, 64-bit wrap-around,
  maps, \<^verbatim>\<open>strings.TrimSpace\<close>), and the generic lemmas about them.

  \<^item> A \<^verbatim>\<open>time.Time\<close> is the number of nanoseconds since Go's zero time (January 1 of year 1), so
    that \<^verbatim>\<open>IsZero\<close> is equality with 0 and \<^verbatim>\<open>Truncate\<close> rounds down to a multiple of its argument.
  \<^item> A \<^verbatim>\<open>time.Duration\<close> is an \<^verbatim>\<open>int64\<close>: \<open>wrap64\<close> is its wrap-around, and \<^verbatim>\<open>Time.Sub\<close>
    saturates as the library's does.
  \<^item> A Go map is an association list without duplicate keys (\<open>gomap_wf\<close>): the list is one order in
    which a \<^verbatim>\<open>range\<close> loop may visit it. Every lemma is about all lists, hence about every order.
  \<^item> Counters of type \<^verbatim>\<open>int\<close> and \<^verbatim>\<open>int64\<close> that only ever count events one by one are \<open>int\<close>.
\<close>

section \<open>Errors\<close>

text \<open>
  An error made by \<^verbatim>\<open>errors.New\<close> is \<open>Err\<close> with its text (the package sentinels have distinct
  texts); \<^verbatim>\<open>fmt.Errorf("...: %w", err)\<close> is \<open>Wrap\<close>, \<^verbatim>\<open>fmt.Errorf("%w: ...", err)\<close> is \<open>WrapText\<close> and
  \<^verbatim>\<open>errors.Join\<close> is \<open>Joined\<close>; \<open>Coded\<close> is the repository's \<^verbatim>\<open>*errors.Error\<close> with its code, text and base.
  \<open>errors_Is\<close> follows the tree of causes.
  A Go result \<^verbatim>\<open>error\<close> is \<open>goerror option\<close>, with \<open>None\<close> for \<^verbatim>\<open>nil\<close>.
\<close>

datatype goerror =
    Err string
  | Wrap string goerror
  | WrapText goerror string
  | Joined "goerror list"
  | Coded string string "goerror option"

fun errors_Is :: "goerror \<Rightarrow> goerror \<Rightarrow> bool" where
  "errors_Is (Err m) t = (Err m = t)"
| "errors_Is (Wrap m e) t = (Wrap m e = t \<or> errors_Is e t)"
| "errors_Is (WrapText e m) t = (WrapText e m = t \<or> errors_Is e t)"
| "errors_Is (Joined es) t = (Joined es = t \<or> (\<exists>e \<in> set es. errors_Is e t))"
| "errors_Is (Coded c m b) t = (Coded c m b = t \<or> (case b of None \<Rightarrow> False | Some e \<Rightarrow> errors_Is e t))"

fun error_text :: "goerror \<Rightarrow> string" where
  "error_text (Err m) = m"
| "error_text (Wrap m e) = m @ '': '' @ error_text e"
| "error_text (WrapText e m) = error_text e @ '': '' @ m"
| "error_text (Coded c m b) = (if m = '''' then c else c @ '': '' @ m)"
| "error_text (Joined []) = ''''"
| "error_text (Joined [e]) = error_text e"
| "error_text (Joined (e # e' # es)) = error_text e @ [CHR 0x0A] @ error_text (Joined (e' # es))"

definition errors_Join :: "goerror option list \<Rightarrow> goerror option" where
  "errors_Join errs = (let es = List.map_filter (\<lambda>e. e) errs in if es = [] then None else Some (Joined es))"

lemma errors_Is_refl [simp]: "errors_Is e e"
  by (cases e) auto

section \<open>Integers of 64 bits\<close>

definition wrap64 :: "int \<Rightarrow> int" where
  "wrap64 x = (x + 2 ^ 63) mod 2 ^ 64 - 2 ^ 63"

definition int64_range :: "int \<Rightarrow> bool" where
  "int64_range x \<longleftrightarrow> - (2 ^ 63) \<le> x \<and> x < 2 ^ 63"

lemma wrap64_range: "int64_range (wrap64 x)"
  by (simp add: int64_range_def wrap64_def)

lemma wrap64_id: "int64_range x \<Longrightarrow> wrap64 x = x"
  by (simp add: int64_range_def wrap64_def)

lemma wrap64_add: "wrap64 (wrap64 a + b) = wrap64 (a + b)"
proof -
  have "(wrap64 a + b + 2 ^ 63) mod 2 ^ 64 = ((a + 2 ^ 63) mod 2 ^ 64 + b) mod 2 ^ 64"
    by (simp add: wrap64_def)
  also have "\<dots> = (a + b + 2 ^ 63) mod 2 ^ 64" unfolding mod_add_left_eq by (simp add: ac_simps)
  finally show ?thesis by (simp only: wrap64_def [of "wrap64 a + b"] wrap64_def [of "a + b"])
qed

text \<open>Decimal text of an integer (\<^verbatim>\<open>strconv.Itoa\<close>, \<^verbatim>\<open>strconv.FormatInt\<close> in base ten).\<close>

fun nat_digits :: "nat \<Rightarrow> string" where
  "nat_digits n = (if n < 10 then [char_of (48 + n)] else nat_digits (n div 10) @ [char_of (48 + n mod 10)])"

declare nat_digits.simps [simp del]

definition strconv_Itoa :: "int \<Rightarrow> string" where
  "strconv_Itoa i = (if i < 0 then ''-'' @ nat_digits (nat (- i)) else nat_digits (nat i))"

section \<open>Time\<close>

type_synonym time = int
type_synonym duration = int

abbreviation (input) Nanosecond :: duration where "Nanosecond \<equiv> 1"
abbreviation (input) Millisecond :: duration where "Millisecond \<equiv> 1000000"
abbreviation (input) Second :: duration where "Second \<equiv> 1000000000"
abbreviation (input) Minute :: duration where "Minute \<equiv> 60000000000"

definition maxDuration :: duration where "maxDuration = 2 ^ 63 - 1"
definition minDuration :: duration where "minDuration = - (2 ^ 63)"

definition time_Sub :: "time \<Rightarrow> time \<Rightarrow> duration" where
  "time_Sub t u = max minDuration (min maxDuration (t - u))"

definition time_Truncate :: "time \<Rightarrow> duration \<Rightarrow> time" where
  "time_Truncate t d = (if d \<le> 0 then t else t - t mod d)"

text \<open>Nanoseconds between the zero time and the Unix epoch.\<close>

definition unixEpoch :: time where "unixEpoch = 62135596800 * 1000000000"

definition time_UnixMilli :: "time \<Rightarrow> int" where
  "time_UnixMilli t = (t - unixEpoch) div Millisecond"

definition time_UnixNano :: "time \<Rightarrow> int" where
  "time_UnixNano t = wrap64 (t - unixEpoch)"

named_theorems time_simps

lemma time_Sub_ge [time_simps]: "0 < d \<Longrightarrow> d \<le> maxDuration \<Longrightarrow> d \<le> time_Sub t u \<longleftrightarrow> d \<le> t - u"
  by (auto simp: time_Sub_def minDuration_def maxDuration_def)

lemma time_Sub_less [time_simps]: "0 < d \<Longrightarrow> d \<le> maxDuration \<Longrightarrow> time_Sub t u < d \<longleftrightarrow> t - u < d"
  by (auto simp: time_Sub_def minDuration_def maxDuration_def)

lemma time_Sub_exact: "int64_range (t - u) \<Longrightarrow> time_Sub t u = t - u"
  by (auto simp: time_Sub_def minDuration_def maxDuration_def int64_range_def)

lemma time_Sub_self [simp]: "time_Sub t t = 0"
  by (simp add: time_Sub_def minDuration_def maxDuration_def)

lemma Truncate_le: "0 < d \<Longrightarrow> time_Truncate t d \<le> t"
  by (simp add: time_Truncate_def)

lemma Truncate_gt: "0 < d \<Longrightarrow> t < time_Truncate t d + d"
  using pos_mod_bound [of d t] by (simp add: time_Truncate_def)

lemma Truncate_mult: "0 < d \<Longrightarrow> d dvd time_Truncate t d"
  by (simp add: time_Truncate_def minus_mod_eq_mult_div)

lemma Truncate_mono: "0 < d \<Longrightarrow> t \<le> u \<Longrightarrow> time_Truncate t d \<le> time_Truncate u d"
  by (simp add: time_Truncate_def minus_mod_eq_mult_div zdiv_mono1)

section \<open>Maps\<close>

type_synonym ('k, 'v) gomap = "('k \<times> 'v) list"

abbreviation m_get :: "('k, 'v) gomap \<Rightarrow> 'k \<Rightarrow> 'v option" where
  "m_get \<equiv> map_of"

abbreviation m_put :: "'k \<Rightarrow> 'v \<Rightarrow> ('k, 'v) gomap \<Rightarrow> ('k, 'v) gomap" where
  "m_put \<equiv> AList.update"

abbreviation m_del :: "'k \<Rightarrow> ('k, 'v) gomap \<Rightarrow> ('k, 'v) gomap" where
  "m_del \<equiv> AList.delete"

definition gomap_wf :: "('k, 'v) gomap \<Rightarrow> bool" where
  "gomap_wf m \<longleftrightarrow> distinct (map fst m)"

lemma m_get_put [simp]: "m_get (m_put k v m) = (m_get m)(k \<mapsto> v)"
  by (rule AList.update_conv')

lemma m_get_del [simp]: "m_get (m_del k m) = (m_get m)(k := None)"
  by (rule AList.delete_conv')

lemma m_put_new: "m_get m k = None \<Longrightarrow> m_put k v m = m @ [(k, v)]"
  by (induction m) (auto split: if_splits)

lemma gomap_wf_Nil [simp]: "gomap_wf []"
  by (simp add: gomap_wf_def)

lemma gomap_wf_put [simp, intro]: "gomap_wf m \<Longrightarrow> gomap_wf (m_put k v m)"
  by (simp add: gomap_wf_def AList.distinct_update)

lemma gomap_wf_del [simp, intro]: "gomap_wf m \<Longrightarrow> gomap_wf (m_del k m)"
  by (simp add: gomap_wf_def AList.distinct_delete)

text \<open>Copying a map entry by entry.\<close>

lemma fold_put_wf: "gomap_wf h \<Longrightarrow> gomap_wf (fold (\<lambda>(k, v). m_put k v) xs h)"
  by (induction xs arbitrary: h) auto

lemma fold_put_id: "gomap_wf (h @ xs) \<Longrightarrow> fold (\<lambda>(k, v). m_put k v) xs h = h @ xs"
proof (induction xs arbitrary: h)
  case (Cons p xs)
  obtain k v where p: "p = (k, v)" by (cases p)
  have "m_get h k = None" using Cons.prems p by (auto simp: gomap_wf_def map_of_eq_None_iff)
  then show ?case using Cons.prems Cons.IH [of "h @ [p]"] p by (simp add: m_put_new)
qed simp

lemma gomap_wf_filter [simp, intro]: "gomap_wf m \<Longrightarrow> gomap_wf (filter P m)"
  by (simp add: gomap_wf_def distinct_map_filter)

lemma m_get_filter:
  "gomap_wf m \<Longrightarrow> m_get (filter P m) k =
     (case m_get m k of None \<Rightarrow> None | Some v \<Rightarrow> if P (k, v) then Some v else None)"
proof (induction m)
  case (Cons p m)
  have "m_get m k = None" if "fst p = k"
    using Cons.prems that by (auto simp: gomap_wf_def map_of_eq_None_iff)
  then show ?case
    using Cons by (cases p) (auto simp: gomap_wf_def split: option.splits)
qed simp

lemma m_get_iff: "gomap_wf m \<Longrightarrow> m_get m k = Some v \<longleftrightarrow> (k, v) \<in> set m"
  by (simp add: gomap_wf_def)

lemma length_del:
  "gomap_wf m \<Longrightarrow> m_get m k = Some v \<Longrightarrow> length m = Suc (length (m_del k m))"
proof (induction m)
  case (Cons p m)
  show ?case
  proof (cases "fst p = k")
    case True
    then have "k \<notin> fst ` set m" using Cons.prems(1) by (auto simp: gomap_wf_def)
    then have "m_del k m = m" by (rule AList.delete_id)
    with True show ?thesis by (cases p) simp
  next
    case False
    with Cons show ?thesis by (cases p) (auto simp: gomap_wf_def)
  qed
qed simp

text \<open>
  Deleting entries while ranging over a map, and counting them: \<open>for k, v := range m { if P(k, v) {
  delete(m, k); n++ } }\<close>.
\<close>

definition m_sweep :: "('k \<times> 'v \<Rightarrow> bool) \<Rightarrow> ('k, 'v) gomap \<Rightarrow> ('k, 'v) gomap \<times> int" where
  "m_sweep P m = fold (\<lambda>(k, v) (m', n). if P (k, v) then (m_del k m', n + 1) else (m', n)) m (m, 0)"

lemma m_sweep_eq:
  fixes m :: "('k, 'v) gomap"
  assumes "gomap_wf m"
  shows "m_sweep P m = (filter (\<lambda>p. \<not> P p) m, int (length (filter P m)))"
proof -
  have "fold (\<lambda>(k, v) (m', n). if P (k, v) then (m_del k m', n + 1) else (m', n)) xs (m', n) =
      (filter (\<lambda>p. fst p \<notin> fst ` set (filter P xs)) m', n + int (length (filter P xs)))"
    for xs and m' :: "('k, 'v) gomap" and n :: int
    by (induction xs arbitrary: m' n) (auto simp: AList.delete_eq intro!: filter_cong)
  then have "m_sweep P m = (filter (\<lambda>p. fst p \<notin> fst ` set (filter P m)) m, int (length (filter P m)))"
    by (simp add: m_sweep_def)
  moreover have "fst p \<in> fst ` set (filter P m) \<longleftrightarrow> P p" if "p \<in> set m" for p
    using assms that by (auto simp: gomap_wf_def distinct_map inj_on_def)
  then have "filter (\<lambda>p. fst p \<notin> fst ` set (filter P m)) m = filter (\<lambda>p. \<not> P p) m"
    by (intro filter_cong) auto
  ultimately show ?thesis by simp
qed

section \<open>Lists\<close>

lemma map_filter_cong:
  "(\<And>x. x \<in> set xs \<Longrightarrow> f x = g x) \<Longrightarrow> List.map_filter f xs = List.map_filter g xs"
  by (induction xs) (simp_all add: List.map_filter_simps split: option.split)

lemma map_filter_append [simp]: "List.map_filter f (xs @ ys) = List.map_filter f xs @ List.map_filter f ys"
  by (simp add: List.map_filter_def)

end
