(* ===== verification/Float64.thy ===== *)
theory Float64
  imports Complex_Main "HOL-Library.Log_Nat" Prelude
begin

text \<open>
  Go's \<^verbatim>\<open>float64\<close> as the source uses it (ratios, rates, weights): a value is the rational number
  it denotes, and every operation rounds its exact result to 53 significant bits, to nearest and
  ties to even (\<open>fl\<close>). The exponent is unbounded here: the modelled packages only divide,
  multiply and compare counts and configuration factors, far from overflow and from subnormals.
  The lemmas say what the components rely on: rounding is monotone, keeps the sign, and is exact
  on integers up to \<open>2 ^ 53\<close>.
\<close>

section \<open>Rounding to nearest, ties to even\<close>

definition round_even :: "rat \<Rightarrow> int" where
  "round_even r =
     (let f = \<lfloor>r\<rfloor>; d = r - of_int f
      in if d < 1/2 then f else if d > 1/2 then f + 1 else if even f then f else f + 1)"

definition binade :: "rat \<Rightarrow> int" where
  "binade x =
     (let (a, b) = quotient_of x; e = bitlen a - bitlen b
      in if x < 2 powi e then e - 1 else e)"

definition fl :: "rat \<Rightarrow> rat" where
  "fl x = (if x = 0 then 0
           else let u = 2 powi (binade \<bar>x\<bar> - 52) in of_int (round_even (x / u)) * u)"

type_synonym float64 = rat

definition float64_of_int :: "int \<Rightarrow> float64" where "float64_of_int n = fl (of_int n)"
definition fadd :: "float64 \<Rightarrow> float64 \<Rightarrow> float64" where "fadd x y = fl (x + y)"
definition fsub :: "float64 \<Rightarrow> float64 \<Rightarrow> float64" where "fsub x y = fl (x - y)"
definition fmul :: "float64 \<Rightarrow> float64 \<Rightarrow> float64" where "fmul x y = fl (x * y)"
definition fdiv :: "float64 \<Rightarrow> float64 \<Rightarrow> float64" where "fdiv x y = fl (x / y)"

section \<open>Rounding to an integer\<close>

lemma round_even_of_int [simp]: "round_even (of_int n) = n"
  by (simp add: round_even_def)

lemma round_even_bounds: "\<lfloor>r\<rfloor> \<le> round_even r" "round_even r \<le> \<lfloor>r\<rfloor> + 1"
  by (auto simp: round_even_def Let_def)

lemma round_even_mono:
  assumes "r \<le> s"
  shows "round_even r \<le> round_even s"
proof (cases "\<lfloor>r\<rfloor> = \<lfloor>s\<rfloor>")
  case True
  then show ?thesis using assms by (auto simp: round_even_def Let_def)
next
  case False
  then have "\<lfloor>r\<rfloor> + 1 \<le> \<lfloor>s\<rfloor>" using floor_mono [OF assms] by linarith
  then show ?thesis using round_even_bounds(2) [of r] round_even_bounds(1) [of s] by linarith
qed

lemma round_even_minus: "round_even (- r) = - round_even r"
proof (cases "r = of_int \<lfloor>r\<rfloor>")
  case True
  then obtain n where "r = of_int n" by blast
  then show ?thesis by (simp flip: of_int_minus)
next
  case False
  then have lt: "of_int \<lfloor>r\<rfloor> < r" using of_int_floor_le [of r] by linarith
  have "\<lfloor>- r\<rfloor> = - \<lfloor>r\<rfloor> - 1"
    using lt floor_correct [of r] by (intro floor_unique) auto
  then show ?thesis by (auto simp: round_even_def Let_def)
qed

section \<open>The binade of a positive number\<close>

lemma binade_bounds:
  assumes "0 < x"
  shows "2 powi binade x \<le> x" "x < 2 powi (binade x + 1)"
proof -
  obtain a b where ab: "quotient_of x = (a, b)" by (cases "quotient_of x")
  then have b: "0 < b" and x: "x = of_int a / of_int b"
    by (auto dest: quotient_of_denom_pos quotient_of_div)
  with assms have a: "0 < a" by (simp add: zero_less_divide_iff)
  let ?e = "bitlen a - bitlen b"
  have la: "2 ^ nat (bitlen a - 1) \<le> a" "a < 2 ^ nat (bitlen a)"
    and lb: "2 ^ nat (bitlen b - 1) \<le> b" "b < 2 ^ nat (bitlen b)"
    using bitlen_bounds [OF a] bitlen_bounds [OF b] by auto
  have pa: "0 < bitlen a" and pb: "0 < bitlen b"
    using a b bitlen_nonneg bitlen_eq_zero_iff by (metis not_le order_le_less)+
  have conv: "(of_int (2 ^ nat k) :: rat) = 2 powi k" if "0 \<le> k" for k
    using that by (simp add: power_int_def)
  have ra: "2 powi (bitlen a - 1) \<le> (of_int a :: rat)" "(of_int a :: rat) < 2 powi bitlen a"
    using la pa conv [of "bitlen a - 1"] conv [of "bitlen a"]
    by (metis (no_types) of_int_le_iff of_int_less_iff int_one_le_iff_zero_less diff_ge_0_iff_ge
        order_less_imp_le)+
  have rb: "2 powi (bitlen b - 1) \<le> (of_int b :: rat)" "(of_int b :: rat) < 2 powi bitlen b"
    using lb pb conv [of "bitlen b - 1"] conv [of "bitlen b"]
    by (metis (no_types) of_int_le_iff of_int_less_iff int_one_le_iff_zero_less diff_ge_0_iff_ge
        order_less_imp_le)+
  have "2 powi (?e - 1) * of_int b < (2 powi (?e - 1) * 2 powi bitlen b :: rat)"
    using rb(2) by simp
  also have "\<dots> = 2 powi (bitlen a - 1)" by (simp flip: power_int_add)
  also note ra(1)
  finally have lo: "2 powi (?e - 1) \<le> x" using b x by (simp add: pos_le_divide_eq)
  have "(of_int a :: rat) < 2 powi (?e + 1) * 2 powi (bitlen b - 1)"
    using ra(2) by (simp flip: power_int_add)
  also have "\<dots> \<le> 2 powi (?e + 1) * of_int b" using rb(1) by simp
  finally have hi: "x < 2 powi (?e + 1)" using b x by (simp add: pos_divide_less_eq)
  show "2 powi binade x \<le> x" "x < 2 powi (binade x + 1)"
    using lo hi ab by (auto simp: binade_def Let_def)
qed

lemma powi2_less_iff: "(2 :: rat) powi m < 2 powi n \<longleftrightarrow> m < n"
  using power_int_strict_increasing [of m n "2 :: rat"] power_int_increasing [of n m "2 :: rat"]
  by (cases "m < n") auto

lemma powi2_le_iff: "(2 :: rat) powi m \<le> 2 powi n \<longleftrightarrow> m \<le> n"
  by (simp add: powi2_less_iff flip: not_less)

lemma binade_unique:
  assumes "2 powi e \<le> x" "x < 2 powi (e + 1)"
  shows "binade x = e"
proof -
  have "0 < x" using assms(1) by (rule order_less_le_trans [rotated]) simp
  note b = binade_bounds [OF this]
  have "binade x < e + 1" using b(1) assms(2) by (simp flip: powi2_less_iff)
  moreover have "e < binade x + 1" using b(2) assms(1) by (simp flip: powi2_less_iff)
  ultimately show ?thesis by simp
qed

lemma binade_mono:
  assumes "0 < x" "x \<le> y"
  shows "binade x \<le> binade y"
proof -
  have "0 < y" using assms by simp
  then have "(2 :: rat) powi binade x < 2 powi (binade y + 1)"
    using binade_bounds [OF assms(1)] binade_bounds [of y] assms(2) by linarith
  then show ?thesis by (simp add: powi2_less_iff)
qed

section \<open>Rounding to a float64\<close>

lemma fl_0 [simp]: "fl 0 = 0"
  by (simp add: fl_def)

lemma fl_minus: "fl (- x) = - fl x"
  by (simp add: fl_def Let_def round_even_minus)

lemma fl_pos_bounds:
  assumes "0 < x"
  shows "2 powi binade x \<le> fl x" "fl x \<le> 2 powi (binade x + 1)"
proof -
  let ?u = "2 powi (binade x - 52) :: rat"
  have u: "0 < ?u" by simp
  note b = binade_bounds [OF assms]
  have lo: "2 powi binade x = of_int (2 ^ 52) * ?u"
    by (simp add: power_int_diff)
  have hi: "2 powi (binade x + 1) = of_int (2 ^ 53) * ?u"
    by (simp add: power_int_diff power_int_add)
  have "of_int (2 ^ 52) \<le> x / ?u" using b(1) u lo by (simp add: field_simps)
  then have "2 ^ 52 \<le> round_even (x / ?u)"
    using round_even_mono round_even_of_int by metis
  moreover have "x / ?u \<le> of_int (2 ^ 53)" using b(2) u hi by (simp add: field_simps)
  then have "round_even (x / ?u) \<le> 2 ^ 53"
    using round_even_mono round_even_of_int by metis
  moreover have "fl x = of_int (round_even (x / ?u)) * ?u"
    using assms by (simp add: fl_def Let_def)
  ultimately show "2 powi binade x \<le> fl x" "fl x \<le> 2 powi (binade x + 1)"
    unfolding lo hi using u by (simp_all only: mult_le_cancel_right_pos of_int_le_iff)
qed

lemma fl_pos: "0 < x \<Longrightarrow> 0 < fl x"
  using fl_pos_bounds(1) [of x] by (rule order_less_le_trans [rotated]) simp_all

lemma fl_mono_pos:
  assumes "0 < x" "x \<le> y"
  shows "fl x \<le> fl y"
proof (cases "binade x = binade y")
  case True
  let ?u = "2 powi (binade y - 52) :: rat"
  have "x / ?u \<le> y / ?u" using assms(2) by (simp add: divide_right_mono)
  then have "of_int (round_even (x / ?u)) * ?u \<le> of_int (round_even (y / ?u)) * ?u"
    using round_even_mono by (simp add: mult_right_mono)
  with True assms show ?thesis by (simp add: fl_def Let_def)
next
  case False
  then have "binade x + 1 \<le> binade y" using binade_mono [OF assms] by simp
  then have "(2 :: rat) powi (binade x + 1) \<le> 2 powi binade y" by (simp add: powi2_le_iff)
  then show ?thesis
    using fl_pos_bounds(2) [OF assms(1)] fl_pos_bounds(1) [of y] assms by linarith
qed

lemma fl_nonneg_iff [simp]: "0 \<le> fl x \<longleftrightarrow> 0 \<le> x"
proof (cases "0 \<le> x")
  case True
  then show ?thesis using fl_pos [of x] by (cases "x = 0") auto
next
  case False
  then have "0 < fl (- x)" by (intro fl_pos) simp
  with False show ?thesis by (simp add: fl_minus)
qed

lemma fl_pos_iff [simp]: "0 < fl x \<longleftrightarrow> 0 < x"
  using fl_nonneg_iff [of "- x"] by (simp add: fl_minus not_le [symmetric])

lemma fl_mono: assumes "x \<le> y" shows "fl x \<le> fl y"
proof -
  consider "0 < x" | "x \<le> 0" "0 \<le> y" | "y < 0" by linarith
  then show ?thesis
  proof cases
    case 1
    then show ?thesis using assms by (rule fl_mono_pos)
  next
    case 2
    then have "fl x \<le> 0" using fl_pos_iff [of x] by linarith
    moreover have "0 \<le> fl y" using 2 by simp
    ultimately show ?thesis by linarith
  next
    case 3
    then have "fl (- y) \<le> fl (- x)" using assms by (intro fl_mono_pos) auto
    then show ?thesis by (simp add: fl_minus)
  qed
qed

lemma fl_scaled_int:
  assumes "\<bar>n\<bar> \<le> 2 ^ 53"
  shows "fl (of_int n * 2 powi e) = of_int n * 2 powi e"
proof -
  have pos: "fl (of_int m * 2 powi e) = of_int m * 2 powi e"
    if m: "0 < m" "m \<le> 2 ^ 53" for m :: int
  proof (cases "m = 2 ^ 53")
    case True
    let ?x = "of_int m * 2 powi e :: rat"
    have x: "?x = 2 powi (e + 53)" using True by (simp add: power_int_add)
    have "binade ?x = e + 53" unfolding x by (rule binade_unique) (simp_all add: powi2_less_iff)
    then have u: "2 powi (binade \<bar>?x\<bar> - 52) = (2 powi (e + 1) :: rat)"
      by (simp add: x add.commute)
    have "?x / 2 powi (e + 1) = of_int (2 ^ 52)" by (simp add: x power_int_add)
    then have "round_even (?x / 2 powi (e + 1)) = 2 ^ 52" by (metis round_even_of_int)
    then show ?thesis using m u by (simp add: fl_def Let_def x power_int_add)
  next
    case False
    let ?x = "of_int m * 2 powi e :: rat"
    have xp: "0 < ?x" using m by simp
    have "?x < 2 powi (e + 53)"
    proof -
      have "(of_int m :: rat) < of_int (2 ^ 53)" using m False by (simp only: of_int_less_iff)
      then have "?x < of_int (2 ^ 53) * 2 powi e" by simp
      also have "\<dots> = 2 powi (e + 53)" by (simp add: power_int_add)
      finally show ?thesis .
    qed
    then have "(2 :: rat) powi binade ?x < 2 powi (e + 53)"
      using binade_bounds(1) [OF xp] by linarith
    then have le: "binade ?x \<le> e + 52" by (simp add: powi2_less_iff)
    define k where "k = nat (e + 52 - binade ?x)"
    have k: "int k = e + 52 - binade ?x" using le by (simp add: k_def)
    then have e: "e = int k + (binade ?x - 52)" by simp
    have pe: "(2 :: rat) powi e = 2 ^ k * 2 powi (binade ?x - 52)"
    proof -
      have "(2 :: rat) powi e = 2 powi (int k + (binade ?x - 52))" using e by simp
      also have "\<dots> = 2 ^ k * 2 powi (binade ?x - 52)" by (subst power_int_add) simp_all
      finally show ?thesis .
    qed
    then have "?x / 2 powi (binade ?x - 52) = of_int (m * 2 ^ k)"
      by (simp add: divide_simps)
    then have "round_even (?x / 2 powi (binade ?x - 52)) = m * 2 ^ k" by (metis round_even_of_int)
    then have "fl ?x = of_int (m * 2 ^ k) * 2 powi (binade ?x - 52)"
      using xp by (simp add: fl_def Let_def)
    also have "\<dots> = of_int m * 2 powi e"
      using pe by simp
    finally show ?thesis .
  qed
  consider "n = 0" | "0 < n" | "n < 0" by linarith
  then show ?thesis
  proof cases
    case 2
    then show ?thesis using assms pos by auto
  next
    case 3
    then have "fl (of_int (- n) * 2 powi e) = of_int (- n) * 2 powi e"
      using assms by (intro pos) auto
    then show ?thesis using fl_minus [of "of_int n * 2 powi e"] by simp
  qed simp
qed

lemma fl_of_int: "\<bar>n\<bar> \<le> 2 ^ 53 \<Longrightarrow> fl (of_int n) = of_int n"
  using fl_scaled_int [of n 0] by simp

lemma float64_of_int_exact: "\<bar>n\<bar> \<le> 2 ^ 53 \<Longrightarrow> float64_of_int n = of_int n"
  by (simp add: float64_of_int_def fl_of_int)

lemma fl_le_int: "x \<le> of_int n \<Longrightarrow> \<bar>n\<bar> \<le> 2 ^ 53 \<Longrightarrow> fl x \<le> of_int n"
  using fl_mono [of x "of_int n"] by (simp add: fl_of_int)

lemma fl_ge_int: "of_int n \<le> x \<Longrightarrow> \<bar>n\<bar> \<le> 2 ^ 53 \<Longrightarrow> of_int n \<le> fl x"
  using fl_mono [of "of_int n" x] by (simp add: fl_of_int)

text \<open>Every result of rounding is a float64 value, which rounds to itself.\<close>

lemma fl_idem [simp]: "fl (fl x) = fl x"
proof -
  have pos: "fl (fl y) = fl y" if y: "0 < y" for y
  proof -
    let ?u = "2 powi (binade y - 52) :: rat" and ?m = "round_even (y / 2 powi (binade y - 52))"
    have fl: "fl y = of_int ?m * ?u" using y by (simp add: fl_def Let_def)
    have "of_int ?m * ?u \<le> of_int (2 ^ 53) * ?u"
      using fl_pos_bounds(2) [OF y] by (simp add: fl power_int_diff power_int_add)
    then have "?m \<le> 2 ^ 53" by (simp only: mult_le_cancel_right_pos zero_less_power_int zero_less_numeral of_int_le_iff)
    moreover have "0 \<le> ?m"
      using round_even_mono [of 0 "y / ?u"] round_even_of_int [of 0] y by simp
    ultimately show ?thesis unfolding fl by (intro fl_scaled_int) simp
  qed
  consider "x = 0" | "0 < x" | "0 < - x" by linarith
  then show ?thesis
  proof cases
    case 3
    then show ?thesis using pos [OF 3] by (simp add: fl_minus)
  qed (simp_all add: pos)
qed

section \<open>Relative error\<close>

lemma round_even_error: "\<bar>of_int (round_even r) - r\<bar> \<le> 1 / 2"
proof -
  have "of_int \<lfloor>r\<rfloor> \<le> r" "r < of_int \<lfloor>r\<rfloor> + 1" by linarith+
  then show ?thesis unfolding round_even_def Let_def by (auto simp del: of_int_floor_le)
qed

lemma fl_error:
  assumes "0 \<le> x"
  shows "\<bar>fl x - x\<bar> \<le> x / 2 ^ 53"
proof (cases "x = 0")
  case False
  then have x: "0 < x" using assms by simp
  let ?u = "2 powi (binade x - 52) :: rat"
  have u: "0 < ?u" by simp
  have "fl x - x = (of_int (round_even (x / ?u)) - x / ?u) * ?u"
    using x u by (simp add: fl_def Let_def left_diff_distrib)
  then have "\<bar>fl x - x\<bar> \<le> 1 / 2 * ?u"
    using round_even_error [of "x / ?u"] u by (simp add: abs_mult mult_right_mono del: mult_le_cancel_right)
  also have "1 / 2 * ?u = 2 powi binade x / 2 ^ 53"
    by (simp add: power_int_diff)
  also have "\<dots> \<le> x / 2 ^ 53"
    using binade_bounds(1) [OF x] by (simp add: divide_right_mono)
  finally show ?thesis .
qed simp

text \<open>The factor by which one rounding may exceed the exact result.\<close>

definition one_ulp :: rat where "one_ulp = 1 + 1 / 2 ^ 53"

lemma one_ulp_ge [simp]: "1 \<le> one_ulp" "0 < one_ulp" "0 \<le> one_ulp"
  by (simp_all add: one_ulp_def)

lemma fl_upper: "0 \<le> x \<Longrightarrow> fl x \<le> x * one_ulp"
  using fl_error [of x] unfolding one_ulp_def ring_distribs abs_le_iff by simp

end
