(* ===== verification/Breaker.thy ===== *)
theory Breaker
  imports Prelude
begin

text \<open>
  The threshold circuit breaker of \<^verbatim>\<open>core/breaker/breaker.go\<close> (\<^verbatim>\<open>Breaker\<close>). Every method runs under
  the breaker's mutex, so each is one atomic function on the record; a \<^verbatim>\<open>time.Now()\<close> inside it is
  the argument \<open>now\<close>. A call that goes through the breaker (\<^verbatim>\<open>Do\<close>) is atomic at its two ends only:
  \<open>env\<close> is what other goroutines did to the breaker while \<^verbatim>\<open>fn\<close> ran.

  Interface: \<open>probe_gate\<close> is the contract both breakers of the package give their callers (an open
  breaker rejects, a recovered one lets exactly one caller probe); the adaptive breaker interprets
  it as well.
\<close>

section \<open>The state machine\<close>

datatype State = Closed | Open | HalfOpen

fun State_String :: "State \<Rightarrow> string" where
  "State_String Closed = ''closed''"
| "State_String Open = ''open''"
| "State_String HalfOpen = ''half_open''"

definition ErrOpen :: goerror where "ErrOpen = Err ''breaker is open''"

record Breaker =
  b_state :: State
  b_failures :: int
  b_failureThreshold :: int
  b_openTimeout :: duration
  b_openedAt :: time
  b_halfOpenProbe :: bool

datatype BreakerOption = WithFailureThreshold int | WithOpenTimeout duration

fun apply_BreakerOption :: "BreakerOption \<Rightarrow> Breaker \<Rightarrow> Breaker" where
  "apply_BreakerOption (WithFailureThreshold n) b =
     (if n > 0 then b\<lparr>b_failureThreshold := n\<rparr> else b)"
| "apply_BreakerOption (WithOpenTimeout d) b =
     (if d > 0 then b\<lparr>b_openTimeout := d\<rparr> else b)"

definition Breaker_New :: "BreakerOption list \<Rightarrow> Breaker" where
  "Breaker_New opts = fold apply_BreakerOption opts
     \<lparr>b_state = Closed, b_failures = 0, b_failureThreshold = 3, b_openTimeout = Second,
      b_openedAt = 0, b_halfOpenProbe = False\<rparr>"

definition Breaker_refreshLocked :: "time \<Rightarrow> Breaker \<Rightarrow> Breaker" where
  "Breaker_refreshLocked now b =
     (if b_state b = Open \<and> time_Sub now (b_openedAt b) \<ge> b_openTimeout b
      then b\<lparr>b_state := HalfOpen\<rparr> else b)"

definition Breaker_openLocked :: "time \<Rightarrow> Breaker \<Rightarrow> Breaker" where
  "Breaker_openLocked now b = b\<lparr>b_state := Open, b_openedAt := now, b_halfOpenProbe := False\<rparr>"

definition Breaker_State :: "time \<Rightarrow> Breaker \<Rightarrow> State \<times> Breaker" where
  "Breaker_State now b = (let b' = Breaker_refreshLocked now b in (b_state b', b'))"

definition Breaker_Allow :: "time \<Rightarrow> Breaker \<Rightarrow> goerror option \<times> Breaker" where
  "Breaker_Allow now b =
     (let b' = Breaker_refreshLocked now b
      in if b_state b' = Open then (Some ErrOpen, b') else (None, b'))"

definition Breaker_allowProbe :: "time \<Rightarrow> Breaker \<Rightarrow> goerror option \<times> Breaker" where
  "Breaker_allowProbe now b =
     (let b' = Breaker_refreshLocked now b
      in if b_state b' = Open then (Some ErrOpen, b')
         else if b_state b' = HalfOpen then
           (if b_halfOpenProbe b' then (Some ErrOpen, b') else (None, b'\<lparr>b_halfOpenProbe := True\<rparr>))
         else (None, b'))"

definition Breaker_releaseProbe :: "Breaker \<Rightarrow> Breaker" where
  "Breaker_releaseProbe b =
     (if b_state b = HalfOpen then b\<lparr>b_halfOpenProbe := False\<rparr> else b)"

definition Breaker_accept :: "Breaker \<Rightarrow> Breaker" where
  "Breaker_accept b = b\<lparr>b_failures := 0, b_state := Closed, b_halfOpenProbe := False\<rparr>"

definition Breaker_reject :: "time \<Rightarrow> Breaker \<Rightarrow> Breaker" where
  "Breaker_reject now b =
     (if b_state b = HalfOpen then Breaker_openLocked now (b\<lparr>b_halfOpenProbe := False\<rparr>)
      else let b' = b\<lparr>b_failures := b_failures b + 1\<rparr>
           in if b_failures b' \<ge> b_failureThreshold b' then Breaker_openLocked now b' else b')"

definition Breaker_MarkSuccess :: "Breaker \<Rightarrow> Breaker" where
  "Breaker_MarkSuccess b = Breaker_accept b"

definition Breaker_MarkFailure :: "time \<Rightarrow> Breaker \<Rightarrow> Breaker" where
  "Breaker_MarkFailure now b = Breaker_reject now b"

text \<open>How the protected function ends: it returns an error value, or it panics.\<close>

datatype fn_outcome = Returns "goerror option" | Panics
datatype call_result = Returned "goerror option" | Panicked

text \<open>
  The caller's \<open>acceptable\<close> is nil (\<open>None\<close>) or a function that answers or panics (\<open>None\<close>), and so does the condition
  that consults it.
\<close>

type_synonym acceptance = "(goerror \<Rightarrow> bool option) option"

definition acceptable_outcome :: "acceptance \<Rightarrow> goerror option \<Rightarrow> bool option" where
  "acceptable_outcome acceptable err =
     (case err of None \<Rightarrow> Some True
      | Some e \<Rightarrow> (case acceptable of None \<Rightarrow> Some False | Some f \<Rightarrow> f e))"

text \<open>The call is settled before the condition is evaluated: a panic of \<open>acceptable\<close> releases nothing.\<close>

definition Breaker_DoWithAcceptable ::
  "goerror option \<Rightarrow> time \<Rightarrow> (Breaker \<Rightarrow> Breaker) \<Rightarrow> fn_outcome \<Rightarrow> acceptance \<Rightarrow>
   time \<Rightarrow> Breaker \<Rightarrow> call_result \<times> Breaker" where
  "Breaker_DoWithAcceptable ctxErr now env fn acceptable now' b =
     (case ctxErr of Some e \<Rightarrow> (Returned (Some e), b)
      | None \<Rightarrow>
        (case Breaker_allowProbe now b of
           (Some e, b1) \<Rightarrow> (Returned (Some e), b1)
         | (None, b1) \<Rightarrow>
             (let b2 = env b1 in
              case fn of
                Panics \<Rightarrow> (Panicked, Breaker_releaseProbe b2)
              | Returns err \<Rightarrow>
                  (case acceptable_outcome acceptable err of
                     None \<Rightarrow> (Panicked, b2)
                   | Some ok \<Rightarrow>
                       if ok then (Returned err, Breaker_accept b2)
                       else (Returned err, Breaker_reject now' b2)))))"

definition Breaker_Do ::
  "goerror option \<Rightarrow> time \<Rightarrow> (Breaker \<Rightarrow> Breaker) \<Rightarrow> fn_outcome \<Rightarrow> time \<Rightarrow> Breaker \<Rightarrow>
   call_result \<times> Breaker" where
  "Breaker_Do ctxErr now env fn now' b = Breaker_DoWithAcceptable ctxErr now env fn None now' b"

definition Breaker_Begin :: "goerror option \<Rightarrow> time \<Rightarrow> Breaker \<Rightarrow> goerror option \<times> Breaker" where
  "Breaker_Begin ctxErr now b =
     (case ctxErr of Some e \<Rightarrow> (Some e, b) | None \<Rightarrow> Breaker_allowProbe now b)"

text \<open>The completion function \<^verbatim>\<open>Begin\<close> returns: \<open>done\<close> is the state of its \<^verbatim>\<open>sync.Once\<close>.\<close>

definition Breaker_complete :: "time \<Rightarrow> bool \<Rightarrow> bool \<times> Breaker \<Rightarrow> bool \<times> Breaker" where
  "Breaker_complete now success = (\<lambda>(finished, b).
     if finished then (True, b)
     else (True, if success then Breaker_accept b else Breaker_reject now b))"

record BreakerSnapshot =
  bs_State :: string
  bs_Failures :: int
  bs_FailureThreshold :: int
  bs_OpenTimeout :: duration
  bs_OpenedAt :: time

definition Breaker_Snapshot :: "time \<Rightarrow> Breaker option \<Rightarrow> BreakerSnapshot \<times> Breaker option" where
  "Breaker_Snapshot now ob =
     (case ob of
        None \<Rightarrow> (\<lparr>bs_State = '''', bs_Failures = 0, bs_FailureThreshold = 0, bs_OpenTimeout = 0,
                  bs_OpenedAt = 0\<rparr>, None)
      | Some b \<Rightarrow>
          (let b' = Breaker_refreshLocked now b
           in (\<lparr>bs_State = State_String (b_state b'), bs_Failures = b_failures b',
                bs_FailureThreshold = b_failureThreshold b', bs_OpenTimeout = b_openTimeout b',
                bs_OpenedAt = b_openedAt b'\<rparr>, Some b')))"

section \<open>The contract of a probing breaker\<close>

text \<open>Several callers ask one after the other: their answers and the breaker they leave.\<close>

fun allow_run :: "(time \<Rightarrow> 'b \<Rightarrow> goerror option \<times> 'b) \<Rightarrow> time list \<Rightarrow> 'b \<Rightarrow>
    goerror option list \<times> 'b" where
  "allow_run allow [] b = ([], b)"
| "allow_run allow (t # ts) b =
     (let (r, b1) = allow t b; (rs, b2) = allow_run allow ts b1 in (r # rs, b2))"

locale probe_gate =
  fixes allow :: "time \<Rightarrow> 'b \<Rightarrow> goerror option \<times> 'b"
    and blocked :: "time \<Rightarrow> 'b \<Rightarrow> bool"
    and ready :: "time \<Rightarrow> 'b \<Rightarrow> bool"
    and taken :: "'b \<Rightarrow> bool"
  assumes blocked_allow: "blocked t b \<Longrightarrow> allow t b = (Some ErrOpen, b)"
    and ready_allow: "ready t b \<Longrightarrow> \<exists>b'. allow t b = (None, b') \<and> taken b'"
    and taken_allow: "taken b \<Longrightarrow> allow t b = (Some ErrOpen, b)"
begin

lemma blocked_run:
  "\<forall>t \<in> set ts. blocked t b \<Longrightarrow>
   allow_run allow ts b = (replicate (length ts) (Some ErrOpen), b)"
  by (induction ts) (simp_all add: blocked_allow)

lemma taken_run:
  "taken b \<Longrightarrow> allow_run allow ts b = (replicate (length ts) (Some ErrOpen), b)"
  by (induction ts) (simp_all add: taken_allow)

lemma ready_run:
  assumes "ready t b"
  shows "fst (allow_run allow (t # ts) b) = None # replicate (length ts) (Some ErrOpen)"
proof -
  obtain b' where "allow t b = (None, b')" "taken b'"
    using ready_allow [OF assms] by blast
  then show ?thesis by (simp add: taken_run)
qed

end

section \<open>Invariant\<close>

definition Breaker_inv :: "Breaker \<Rightarrow> bool" where
  "Breaker_inv b \<longleftrightarrow>
     0 < b_failureThreshold b \<and> 0 < b_openTimeout b \<and> b_openTimeout b \<le> maxDuration \<and>
     0 \<le> b_failures b \<and>
     (b_state b = Closed \<longleftrightarrow> b_failures b < b_failureThreshold b) \<and>
     (b_halfOpenProbe b \<longrightarrow> b_state b = HalfOpen)"

fun BreakerOption_ok :: "BreakerOption \<Rightarrow> bool" where
  "BreakerOption_ok (WithFailureThreshold n) = int64_range n"
| "BreakerOption_ok (WithOpenTimeout d) = int64_range d"

text \<open>
  The breaker's life: created by \<^verbatim>\<open>New\<close>, then any interleaving of the atomic operations its
  methods are made of.
\<close>

inductive Breaker_step :: "Breaker \<Rightarrow> Breaker \<Rightarrow> bool" where
  step_State: "Breaker_step b (snd (Breaker_State t b))"
| step_Allow: "Breaker_step b (snd (Breaker_Allow t b))"
| step_allowProbe: "Breaker_step b (snd (Breaker_allowProbe t b))"
| step_releaseProbe: "Breaker_step b (Breaker_releaseProbe b)"
| step_accept: "Breaker_step b (Breaker_accept b)"
| step_reject: "Breaker_step b (Breaker_reject t b)"

inductive Breaker_reachable :: "Breaker \<Rightarrow> bool" where
  reach_New: "\<forall>opt \<in> set opts. BreakerOption_ok opt \<Longrightarrow> Breaker_reachable (Breaker_New opts)"
| reach_step: "Breaker_reachable b \<Longrightarrow> Breaker_step b b' \<Longrightarrow> Breaker_reachable b'"

named_theorems breaker_defs
lemmas breaker_op_defs [breaker_defs] =
  Breaker_State_def Breaker_Allow_def Breaker_allowProbe_def Breaker_releaseProbe_def
  Breaker_accept_def Breaker_reject_def Breaker_refreshLocked_def Breaker_openLocked_def

lemma apply_options_inv:
  assumes "\<forall>opt \<in> set opts. BreakerOption_ok opt"
    and "Breaker_inv b" "b_state b = Closed" "b_failures b = 0"
  shows "Breaker_inv (fold apply_BreakerOption opts b) \<and>
      b_state (fold apply_BreakerOption opts b) = Closed \<and>
      b_failures (fold apply_BreakerOption opts b) = 0"
  using assms
proof (induction opts arbitrary: b)
  case (Cons opt opts)
  have "Breaker_inv (apply_BreakerOption opt b)" "b_state (apply_BreakerOption opt b) = Closed"
    "b_failures (apply_BreakerOption opt b) = 0"
    using Cons.prems
    by (cases opt; simp add: Breaker_inv_def int64_range_def maxDuration_def)+
  with Cons show ?case by simp
qed simp

lemma Breaker_New_fields:
  assumes "\<forall>opt \<in> set opts. BreakerOption_ok opt"
  shows "Breaker_inv (Breaker_New opts)"
    and "b_state (Breaker_New opts) = Closed" and "b_failures (Breaker_New opts) = 0"
proof -
  define b0 where "b0 = \<lparr>b_state = Closed, b_failures = 0, b_failureThreshold = 3,
      b_openTimeout = Second, b_openedAt = 0, b_halfOpenProbe = False\<rparr>"
  have "Breaker_inv b0" "b_state b0 = Closed" "b_failures b0 = 0"
    by (simp_all add: b0_def Breaker_inv_def maxDuration_def)
  note apply_options_inv [OF assms this]
  then show "Breaker_inv (Breaker_New opts)" "b_state (Breaker_New opts) = Closed"
    "b_failures (Breaker_New opts) = 0"
    unfolding Breaker_New_def b0_def by blast+
qed

lemma Breaker_inv_step: "Breaker_step b b' \<Longrightarrow> Breaker_inv b \<Longrightarrow> Breaker_inv b'"
  by (induction rule: Breaker_step.induct) (auto simp: breaker_defs Breaker_inv_def Let_def)

text \<open>
  C1. In every reachable state of the breaker, whatever the interleaving of callers, the circuit is
  closed exactly when fewer consecutive failures than the threshold have been counted, and the
  half-open probe is reserved only while the breaker is half-open.
\<close>

theorem Breaker_reachable_inv: "Breaker_reachable b \<Longrightarrow> Breaker_inv b"
  by (induction rule: Breaker_reachable.induct) (auto intro: Breaker_New_fields Breaker_inv_step)

theorem Breaker_reachable_inv_witness:
  "Breaker_inv (Breaker_reject 7 (Breaker_New [WithFailureThreshold 1]))"
  by (rule Breaker_reachable_inv, rule reach_step [OF reach_New step_reject])
     (simp add: int64_range_def)

section \<open>Admission\<close>

definition Breaker_blocked :: "time \<Rightarrow> Breaker \<Rightarrow> bool" where
  "Breaker_blocked t b \<longleftrightarrow> Breaker_inv b \<and> b_state b = Open \<and> t - b_openedAt b < b_openTimeout b"

definition Breaker_ready :: "time \<Rightarrow> Breaker \<Rightarrow> bool" where
  "Breaker_ready t b \<longleftrightarrow> Breaker_inv b \<and>
     (b_state b = Open \<and> b_openTimeout b \<le> t - b_openedAt b \<or>
      b_state b = HalfOpen \<and> \<not> b_halfOpenProbe b)"

definition Breaker_taken :: "Breaker \<Rightarrow> bool" where
  "Breaker_taken b \<longleftrightarrow> b_state b = HalfOpen \<and> b_halfOpenProbe b"

interpretation brk: probe_gate Breaker_allowProbe Breaker_blocked Breaker_ready Breaker_taken
proof unfold_locales
  fix t b
  assume "Breaker_blocked t b"
  then show "Breaker_allowProbe t b = (Some ErrOpen, b)"
    by (auto simp: Breaker_blocked_def Breaker_inv_def breaker_defs time_simps Let_def)
next
  fix t b
  assume "Breaker_ready t b"
  then show "\<exists>b'. Breaker_allowProbe t b = (None, b') \<and> Breaker_taken b'"
    by (auto simp: Breaker_ready_def Breaker_inv_def Breaker_taken_def breaker_defs time_simps
        Let_def)
next
  fix t b
  assume "Breaker_taken b"
  then show "Breaker_allowProbe t b = (Some ErrOpen, b)"
    by (auto simp: Breaker_taken_def breaker_defs Let_def)
qed

text \<open>
  C2. Until the open timeout has passed, every one of any number of callers is rejected and the
  breaker does not change; from then on, however many callers arrive before an outcome is
  reported, exactly the first of them is admitted as the probe.
\<close>

theorem Breaker_open_then_single_probe:
  assumes "Breaker_inv b" and "b_state b = Open"
    and "\<forall>t \<in> set early. t - b_openedAt b < b_openTimeout b"
    and "b_openTimeout b \<le> t - b_openedAt b"
  shows "allow_run Breaker_allowProbe early b = (replicate (length early) (Some ErrOpen), b) \<and>
     fst (allow_run Breaker_allowProbe (t # later) b) =
       None # replicate (length later) (Some ErrOpen)"
proof
  show "allow_run Breaker_allowProbe early b = (replicate (length early) (Some ErrOpen), b)"
    using assms by (intro brk.blocked_run) (auto simp: Breaker_blocked_def)
  show "fst (allow_run Breaker_allowProbe (t # later) b) =
      None # replicate (length later) (Some ErrOpen)"
    using assms by (intro brk.ready_run) (auto simp: Breaker_ready_def)
qed

theorem Breaker_open_then_single_probe_witness:
  "let b = Breaker_reject 5 (Breaker_New [WithFailureThreshold 1])
   in allow_run Breaker_allowProbe [6, 7] b = ([Some ErrOpen, Some ErrOpen], b) \<and>
      fst (allow_run Breaker_allowProbe [5 + Second, 3 * Second] b) = [None, Some ErrOpen]"
proof -
  let ?b = "Breaker_reject 5 (Breaker_New [WithFailureThreshold 1])"
  have b: "Breaker_inv ?b" "b_state ?b = Open" "\<forall>t \<in> set [6, 7]. t - b_openedAt ?b < b_openTimeout ?b"
    "b_openTimeout ?b \<le> (5 + Second) - b_openedAt ?b"
    by (simp_all add: Breaker_inv_def Breaker_New_def breaker_defs maxDuration_def)
  show ?thesis
    using Breaker_open_then_single_probe [OF b, of "[3 * Second]"]
    by (simp add: Let_def numeral_2_eq_2)
qed

section \<open>Counting consecutive failures\<close>

definition Breaker_report :: "time \<times> bool \<Rightarrow> Breaker \<Rightarrow> Breaker" where
  "Breaker_report = (\<lambda>(now, success) b.
     if success then Breaker_MarkSuccess b else Breaker_MarkFailure now b)"

definition trailing_failures :: "(time \<times> bool) list \<Rightarrow> int" where
  "trailing_failures os = int (length (takeWhile (\<lambda>(t, ok). \<not> ok) (rev os)))"

lemma trailing_failures_snoc:
  "trailing_failures (os @ [(t, ok)]) = (if ok then 0 else trailing_failures os + 1)"
  by (simp add: trailing_failures_def)

lemmas report_defs = Breaker_report_def Breaker_MarkSuccess_def Breaker_MarkFailure_def

text \<open>
  C3. Whatever sequence of outcomes is reported to a new breaker, it is open exactly when the
  outcomes end in at least as many failures in a row as the threshold, it counts exactly that run
  of failures, and it was opened at the time of the last report.
\<close>

theorem Breaker_trips_on_consecutive_failures:
  assumes "\<forall>opt \<in> set opts. BreakerOption_ok opt"
  shows "let b = fold Breaker_report os (Breaker_New opts)
     in b_failures b = trailing_failures os \<and>
        b_state b = (if b_failureThreshold (Breaker_New opts) \<le> trailing_failures os
                     then Open else Closed) \<and>
        (b_state b = Open \<longrightarrow> b_openedAt b = fst (last os))"
proof -
  let ?b = "\<lambda>os. fold Breaker_report os (Breaker_New opts)"
  have pos: "0 < b_failureThreshold (Breaker_New opts)"
    using Breaker_New_fields(1) [OF assms] by (simp add: Breaker_inv_def)
  have "b_failures (?b os) = trailing_failures os \<and>
      b_failureThreshold (?b os) = b_failureThreshold (Breaker_New opts) \<and>
      b_state (?b os) = (if b_failureThreshold (Breaker_New opts) \<le> trailing_failures os
                         then Open else Closed) \<and>
      (b_state (?b os) = Open \<longrightarrow> b_openedAt (?b os) = fst (last os))"
  proof (induction os rule: rev_induct)
    case Nil
    then show ?case
      using Breaker_New_fields [OF assms] pos by (simp add: trailing_failures_def)
  next
    case (snoc p os)
    obtain t ok where p: "p = (t, ok)" by (cases p)
    with snoc pos show ?case
      by (simp add: trailing_failures_snoc report_defs breaker_defs Let_def split: if_splits)
  qed
  then show ?thesis by (simp add: Let_def)
qed

theorem Breaker_trips_on_consecutive_failures_witness:
  "b_state (fold Breaker_report [(1, False), (2, True), (3, False), (4, False)]
     (Breaker_New [WithFailureThreshold 2])) = Open"
proof -
  have ok: "\<forall>opt \<in> set [WithFailureThreshold 2]. BreakerOption_ok opt"
    by (simp add: int64_range_def)
  show ?thesis
    using Breaker_trips_on_consecutive_failures [OF ok, of "[(1, False), (2, True), (3, False), (4, False)]"]
    by (simp add: Let_def trailing_failures_def Breaker_New_def)
qed

section \<open>Calls that panic, and late completions\<close>

text \<open>
  C4. A protected function that panics never wedges the breaker: whatever the other callers did to it
  while the call ran, once the open timeout has passed since it last opened, the next caller is
  admitted.
\<close>

theorem Breaker_panic_releases_probe:
  assumes "\<And>b. Breaker_inv b \<Longrightarrow> Breaker_inv (env b)" and "Breaker_inv b"
    and "Breaker_DoWithAcceptable ctxErr now env Panics acceptable now' b = (Panicked, b')"
    and "b_openTimeout b' \<le> t - b_openedAt b'"
  shows "fst (Breaker_allowProbe t b') = None"
proof -
  obtain b1 where b1: "Breaker_allowProbe now b = (None, b1)" "b' = Breaker_releaseProbe (env b1)"
    using assms(3)
    by (auto simp: Breaker_DoWithAcceptable_def Let_def split: option.splits prod.splits)
  have "Breaker_inv (env b1)"
    using assms(1,2) b1(1) Breaker_inv_step [OF step_allowProbe, of b now] by simp
  then have "Breaker_inv b'"
    unfolding b1(2) by (rule Breaker_inv_step [OF step_releaseProbe])
  moreover have "\<not> Breaker_taken b'"
    by (simp add: b1(2) Breaker_taken_def Breaker_releaseProbe_def)
  ultimately show ?thesis
    using assms(4)
    by (auto simp: Breaker_inv_def Breaker_taken_def breaker_defs time_simps Let_def)
qed

theorem Breaker_panic_releases_probe_witness:
  "let b = Breaker_reject 5 (Breaker_New [WithFailureThreshold 1]);
       b' = snd (Breaker_DoWithAcceptable None (2 * Second) id Panics None 0 b)
   in fst (Breaker_DoWithAcceptable None (2 * Second) id Panics None 0 b) = Panicked \<and>
      fst (Breaker_allowProbe (2 * Second) b') = None"
proof -
  define b where "b = Breaker_reject 5 (Breaker_New [WithFailureThreshold 1])"
  define b' where "b' = snd (Breaker_DoWithAcceptable None (2 * Second) id Panics None 0 b)"
  have b: "b = \<lparr>b_state = Open, b_failures = 1, b_failureThreshold = 1, b_openTimeout = Second,
      b_openedAt = 5, b_halfOpenProbe = False\<rparr>"
    by (simp add: b_def Breaker_New_def breaker_defs)
  have inv: "Breaker_inv b" by (simp add: b Breaker_inv_def maxDuration_def)
  have do: "Breaker_DoWithAcceptable None (2 * Second) id Panics None 0 b = (Panicked, b')"
    by (simp add: b'_def b Breaker_DoWithAcceptable_def breaker_defs time_simps maxDuration_def)
  have "b_openTimeout b' \<le> 2 * Second - b_openedAt b'"
    by (simp add: b'_def b Breaker_DoWithAcceptable_def breaker_defs time_simps maxDuration_def)
  then have "fst (Breaker_allowProbe (2 * Second) b') = None"
    by (rule Breaker_panic_releases_probe [rotated 3]) (use inv do in auto)
  with do show ?thesis unfolding Let_def b_def [symmetric] b'_def [symmetric] by simp
qed

text \<open>
  A panic of \<open>acceptable\<close> does wedge it: the probe of a half-open breaker stays reserved, and every later caller is
  turned away, however long it waits.
\<close>

lemma Breaker_panicking_acceptable_wedges:
  "let b = Breaker_reject 5 (Breaker_New [WithFailureThreshold 1]);
       (r, b') = Breaker_DoWithAcceptable None (2 * Second) id (Returns (Some (Err ''x''))) (Some (\<lambda>e. None)) 0 b
   in r = Panicked \<and> (\<forall>t. Breaker_allowProbe t b' = (Some ErrOpen, b'))"
  by (simp add: Breaker_DoWithAcceptable_def acceptable_outcome_def Breaker_New_def breaker_defs time_simps maxDuration_def
      Let_def)

text \<open>The completion function of \<^verbatim>\<open>Begin\<close> takes effect once, however often it is called.\<close>

lemma Breaker_complete_once:
  "fold (\<lambda>(t, ok). Breaker_complete t ok) ((t, ok) # cs) (False, b) =
   (True, if ok then Breaker_accept b else Breaker_reject t b)"
proof -
  have "fold (\<lambda>(t, ok). Breaker_complete t ok) cs (True, b') = (True, b')" for b'
    by (induction cs) (auto simp: Breaker_complete_def)
  then show ?thesis by (simp add: Breaker_complete_def)
qed

text \<open>\<^verbatim>\<open>Begin\<close> with a completion is \<^verbatim>\<open>Do\<close> split in two: the same breaker at the end.\<close>

lemma Breaker_Begin_complete_eq_Do:
  assumes "Breaker_Begin ctxErr now b = (None, b1)"
  shows "Breaker_Do ctxErr now env (Returns err) now' b =
     (Returned err, snd (Breaker_complete now' (err = None) (False, env b1)))"
  using assms
  by (auto simp: Breaker_Begin_def Breaker_Do_def Breaker_DoWithAcceptable_def Breaker_complete_def
      acceptable_outcome_def Let_def split: option.splits)

lemma Breaker_rejected_call_keeps_state:
  "Breaker_blocked now b \<Longrightarrow>
   Breaker_Do None now env fn now' b = (Returned (Some ErrOpen), b)"
  using brk.blocked_allow by (simp add: Breaker_Do_def Breaker_DoWithAcceptable_def)

lemma Breaker_Snapshot_refreshes:
  "Breaker_Snapshot now (Some b) = (s, ob) \<Longrightarrow>
     ob = Some (snd (Breaker_State now b)) \<and> bs_State s = State_String (fst (Breaker_State now b))"
  by (auto simp: Breaker_Snapshot_def Breaker_State_def Let_def)

end
