(* ===== verification/Rolling.thy ===== *)
theory Rolling
  imports Prelude
begin

text \<open>
  The rolling window of buckets that the adaptive breaker, the Google breaker and the sliding-window
  limiter each keep (\<^verbatim>\<open>currentBucketLocked\<close>, \<^verbatim>\<open>bucketAt\<close>, \<^verbatim>\<open>snapshotLocked\<close>, \<^verbatim>\<open>countLocked\<close>): a ring of
  \<open>n\<close> buckets of \<open>bs\<close> nanoseconds, the bucket of a time found by its index in the ring and reset
  when it still holds an older slice.

  The locale \<open>counter_ring\<close> is what the three kinds of bucket have in common; its lemmas say what
  the ring knows about the events recorded in it. A bucket's counter is exactly the weight of the
  events of its slice, and no event of the last \<open>n\<close> slices is forgotten, so that a window of at most
  \<open>n * bs\<close> nanoseconds is counted exactly, slice by slice.
\<close>

section \<open>The ring\<close>

definition bucketIndex :: "time \<Rightarrow> duration \<Rightarrow> nat \<Rightarrow> nat" where
  "bucketIndex now bs n =
     (let start = time_Truncate now bs;
          idx = (time_UnixNano start sdiv bs) smod int n
      in nat (if idx < 0 then - idx else idx))"

definition roll :: "('b \<Rightarrow> time) \<Rightarrow> (time \<Rightarrow> 'b) \<Rightarrow> duration \<Rightarrow> time \<Rightarrow> 'b list \<Rightarrow> 'b list" where
  "roll start_of fresh bs now xs =
     (let i = bucketIndex now bs (length xs); start = time_Truncate now bs
      in if start_of (xs ! i) = start then xs else xs[i := fresh start])"

definition window_sum ::
  "('b \<Rightarrow> time) \<Rightarrow> ('b \<Rightarrow> int) \<Rightarrow> duration \<Rightarrow> time \<Rightarrow> 'b list \<Rightarrow> int" where
  "window_sum start_of count window now xs =
     (\<Sum>b\<leftarrow>xs. if start_of b = 0 \<or> time_Sub now (start_of b) \<ge> window then 0 else count b)"

lemma bucketIndex_less: assumes "0 < n" shows "bucketIndex now bs n < n"
proof -
  have "\<bar>x smod int n\<bar> < int n" for x
    using assms smod_int_compares [of "int n" x]
    by (smt (verit) of_nat_0_less_iff smod_int_compares)
  then show ?thesis using assms by (auto simp: bucketIndex_def Let_def nat_less_iff abs_if)
qed

lemma length_roll [simp]: "length (roll start_of fresh bs now xs) = length xs"
  by (simp add: roll_def Let_def)

text \<open>A time whose slice starts between the Unix epoch and the year 2262.\<close>

definition in_epoch :: "duration \<Rightarrow> time \<Rightarrow> bool" where
  "in_epoch bs t \<longleftrightarrow> unixEpoch \<le> time_Truncate t bs \<and> t < unixEpoch + 2 ^ 63"

lemma bucketIndex_in_epoch:
  assumes "in_epoch bs t" and "0 < bs" and "0 < n"
  shows "int (bucketIndex t bs n) = (time_Truncate t bs - unixEpoch) div bs mod int n"
proof -
  let ?u = "time_Truncate t bs - unixEpoch"
  have u: "0 \<le> ?u" "?u < 2 ^ 63"
    using assms Truncate_le [of bs t] by (auto simp: in_epoch_def)
  then have w: "time_UnixNano (time_Truncate t bs) = ?u"
    unfolding time_UnixNano_def by (intro wrap64_id) (simp add: int64_range_def)
  have d: "?u sdiv bs = ?u div bs"
    using u assms by (simp add: signed_divide_int_def sgn_if)
  have "0 \<le> ?u div bs" using u assms by (simp add: pos_imp_zdiv_nonneg_iff)
  then have "(?u div bs) smod int n = ?u div bs mod int n"
    using assms by (simp add: smod_int_alt_def sgn_if abs_if)
  moreover have "0 \<le> ?u div bs mod int n" using assms by simp
  ultimately show ?thesis by (simp add: bucketIndex_def Let_def w d)
qed

text \<open>Two slices share a bucket only if a whole turn of the ring lies between them.\<close>

lemma same_bucket_dvd:
  assumes "in_epoch bs t" "in_epoch bs u" and bs: "0 < bs" and n: "0 < n"
    and "bucketIndex t bs n = bucketIndex u bs n"
  shows "int n * bs dvd time_Truncate u bs - time_Truncate t bs"
proof -
  obtain a b where a: "time_Truncate t bs = bs * a" and b: "time_Truncate u bs = bs * b"
    using Truncate_mult [OF bs] by (meson dvdE)
  let ?q = "(- unixEpoch) div bs"
  have shift: "(bs * c - unixEpoch) div bs = c + ?q" for c
    using bs div_mult_self1 [of bs "- unixEpoch" c] by (simp add: mult.commute)
  have "(a + ?q) mod int n = (b + ?q) mod int n"
    using assms bucketIndex_in_epoch [of bs t n] bucketIndex_in_epoch [of bs u n]
    by (simp add: a b shift)
  then have "int n dvd (b + ?q) - (a + ?q)" by (metis mod_eq_dvd_iff)
  then obtain k where "b - a = int n * k" by auto
  then have "time_Truncate u bs - time_Truncate t bs = int n * bs * k"
    by (simp add: a b mult.assoc mult.left_commute flip: right_diff_distrib)
  then show ?thesis by simp
qed

lemma same_bucket_same_slice:
  assumes "in_epoch bs t" "in_epoch bs u" "0 < bs" "0 < n"
    and "bucketIndex t bs n = bucketIndex u bs n"
    and "time_Truncate t bs \<le> time_Truncate u bs"
    and "time_Truncate u bs - time_Truncate t bs < int n * bs"
  shows "time_Truncate u bs = time_Truncate t bs"
  using same_bucket_dvd [OF assms(1-5)] assms(6,7) zdvd_imp_le by fastforce

lemma bucketIndex_cong:
  "time_Truncate t bs = time_Truncate u bs \<Longrightarrow> bucketIndex t bs n = bucketIndex u bs n"
  by (simp add: bucketIndex_def)

section \<open>Counting events in the ring\<close>

text \<open>The weight of the recorded events whose slice satisfies a predicate.\<close>

definition slice_weight ::
  "('e \<Rightarrow> int) \<Rightarrow> duration \<Rightarrow> (time \<Rightarrow> bool) \<Rightarrow> (time \<times> 'e) list \<Rightarrow> int" where
  "slice_weight weight bs P hist =
     (\<Sum>(t, e)\<leftarrow>hist. if P (time_Truncate t bs) then weight e else 0)"

lemma slice_weight_Nil [simp]: "slice_weight weight bs P [] = 0"
  by (simp add: slice_weight_def)

lemma slice_weight_snoc [simp]:
  "slice_weight weight bs P (hist @ [(t, e)]) =
   slice_weight weight bs P hist + (if P (time_Truncate t bs) then weight e else 0)"
  by (simp add: slice_weight_def)

lemma slice_weight_none:
  "(\<And>t e. (t, e) \<in> set hist \<Longrightarrow> \<not> P (time_Truncate t bs)) \<Longrightarrow> slice_weight weight bs P hist = 0"
  by (induction hist) (fastforce simp: slice_weight_def)+

lemma sum_list_index: "(\<Sum>x\<leftarrow>xs. f x) = (\<Sum>i<length xs. f (xs ! i))" for f :: "'a \<Rightarrow> int"
  by (simp add: sum_list_sum_nth atLeast0LessThan)

definition record_event ::
  "('b \<Rightarrow> time) \<Rightarrow> (time \<Rightarrow> 'b) \<Rightarrow> ('e \<Rightarrow> 'b \<Rightarrow> 'b) \<Rightarrow> duration \<Rightarrow> time \<Rightarrow> 'e \<Rightarrow> 'b list \<Rightarrow> 'b list"
  where
  "record_event start_of fresh bump bs now e xs =
     (let ys = roll start_of fresh bs now xs; i = bucketIndex now bs (length xs)
      in ys[i := bump e (ys ! i)])"

locale counter_ring =
  fixes start_of :: "'b \<Rightarrow> time"
    and fresh :: "time \<Rightarrow> 'b"
    and bump :: "'e \<Rightarrow> 'b \<Rightarrow> 'b"
    and count :: "'b \<Rightarrow> int"
    and weight :: "'e \<Rightarrow> int"
  assumes start_fresh: "start_of (fresh s) = s"
    and count_fresh: "count (fresh s) = 0"
    and start_bump: "start_of (bump e b) = start_of b"
    and count_bump: "count (bump e b) = count b + weight e"
begin

text \<open>
  What the ring knows of a history of events up to the time \<open>latest\<close>: a live bucket sits at the index
  of its slice and counts that slice, and every slice of the last turn that has an event is live.
\<close>

definition ring_inv :: "duration \<Rightarrow> time \<Rightarrow> (time \<times> 'e) list \<Rightarrow> 'b list \<Rightarrow> bool" where
  "ring_inv bs latest hist xs \<longleftrightarrow>
     0 < bs \<and> xs \<noteq> [] \<and> (\<forall>(t, e) \<in> set hist. in_epoch bs t \<and> t \<le> latest) \<and>
     (\<forall>i < length xs. start_of (xs ! i) = 0 \<or>
        (\<exists>t. in_epoch bs t \<and> start_of (xs ! i) = time_Truncate t bs \<and>
             i = bucketIndex t bs (length xs) \<and>
             count (xs ! i) = slice_weight weight bs (\<lambda>s. s = time_Truncate t bs) hist)) \<and>
     (\<forall>(t, e) \<in> set hist. time_Truncate latest bs - time_Truncate t bs < int (length xs) * bs \<longrightarrow>
        start_of (xs ! bucketIndex t bs (length xs)) = time_Truncate t bs)"

lemma ring_inv_empty:
  "0 < bs \<Longrightarrow> xs \<noteq> [] \<Longrightarrow> \<forall>b \<in> set xs. start_of b = 0 \<Longrightarrow> ring_inv bs latest [] xs"
  by (simp add: ring_inv_def)

lemma ring_inv_liveE:
  assumes "ring_inv bs latest hist xs" "i < length xs" "start_of (xs ! i) \<noteq> 0"
  obtains t where "in_epoch bs t" "start_of (xs ! i) = time_Truncate t bs"
    "i = bucketIndex t bs (length xs)"
    "count (xs ! i) = slice_weight weight bs (\<lambda>s. s = time_Truncate t bs) hist"
  using assms unfolding ring_inv_def by blast

lemma ring_inv_later: "ring_inv bs latest hist xs \<Longrightarrow> latest \<le> now \<Longrightarrow> ring_inv bs now hist xs"
  unfolding ring_inv_def using Truncate_mono [of bs latest now] by fastforce

lemma epoch_pos: "in_epoch bs t \<Longrightarrow> time_Truncate t bs \<noteq> 0"
  by (auto simp: in_epoch_def unixEpoch_def)

lemma record_event_nth:
  assumes "i < length xs"
  shows "record_event start_of fresh bump bs now e xs ! i =
     (if i = bucketIndex now bs (length xs)
      then bump e (if start_of (xs ! i) = time_Truncate now bs then xs ! i
                   else fresh (time_Truncate now bs))
      else xs ! i)"
  using assms by (auto simp: record_event_def roll_def Let_def nth_list_update)

lemma length_record [simp]: "length (record_event start_of fresh bump bs now e xs) = length xs"
  by (simp add: record_event_def Let_def)

text \<open>A slice that the ring does not hold has had no event in the last turn.\<close>

lemma not_live_no_events:
  assumes "ring_inv bs now hist xs" "in_epoch bs now"
    and "start_of (xs ! bucketIndex now bs (length xs)) \<noteq> time_Truncate now bs"
  shows "slice_weight weight bs (\<lambda>s. s = time_Truncate now bs) hist = 0"
proof (rule slice_weight_none)
  fix t e
  assume te: "(t, e) \<in> set hist"
  show "time_Truncate t bs \<noteq> time_Truncate now bs"
  proof
    assume eq: "time_Truncate t bs = time_Truncate now bs"
    moreover have "0 < int (length xs) * bs" using assms(1) by (simp add: ring_inv_def)
    ultimately have "start_of (xs ! bucketIndex t bs (length xs)) = time_Truncate t bs"
      using assms(1) te unfolding ring_inv_def by fastforce
    with assms(3) eq show False by (simp add: bucketIndex_cong [OF eq])
  qed
qed

lemma ring_inv_record:
  assumes inv: "ring_inv bs now hist xs" and now: "in_epoch bs now"
  shows "ring_inv bs now (hist @ [(now, e)]) (record_event start_of fresh bump bs now e xs)"
    (is "ring_inv bs now ?hist ?ys")
proof -
  have bs: "0 < bs" and n: "0 < length xs" using inv by (auto simp: ring_inv_def)
  let ?j = "bucketIndex now bs (length xs)" and ?s = "time_Truncate now bs"
  have j: "?j < length xs" using n by (rule bucketIndex_less)
  note nth = record_event_nth [of _ xs bs now e]
  have live: "start_of (?ys ! i) = 0 \<or>
      (\<exists>t. in_epoch bs t \<and> start_of (?ys ! i) = time_Truncate t bs \<and>
         i = bucketIndex t bs (length xs) \<and>
         count (?ys ! i) = slice_weight weight bs (\<lambda>s. s = time_Truncate t bs) ?hist)"
    if i: "i < length xs" for i
  proof (cases "i = ?j")
    case True
    have "count (?ys ! i) = slice_weight weight bs (\<lambda>s. s = ?s) ?hist"
    proof (cases "start_of (xs ! ?j) = ?s")
      case same: True
      then have "count (xs ! ?j) = slice_weight weight bs (\<lambda>s. s = ?s) hist"
        using inv j epoch_pos [OF now] unfolding ring_inv_def by fastforce
      then show ?thesis using True same nth [OF i] by (simp add: count_bump)
    next
      case False
      then show ?thesis
        using True not_live_no_events [OF inv now] nth [OF i] by (simp add: count_bump count_fresh)
    qed
    moreover have "start_of (?ys ! i) = ?s"
      using True nth [OF i] by (simp add: start_bump start_fresh)
    ultimately show ?thesis using now True by blast
  next
    case False
    then have y: "?ys ! i = xs ! i" using nth [OF i] by simp
    show ?thesis
    proof (cases "start_of (xs ! i) = 0")
      case False
      then obtain t where t: "in_epoch bs t" "start_of (xs ! i) = time_Truncate t bs"
        "i = bucketIndex t bs (length xs)"
        "count (xs ! i) = slice_weight weight bs (\<lambda>s. s = time_Truncate t bs) hist"
        using inv i unfolding ring_inv_def by blast
      moreover have "time_Truncate t bs \<noteq> ?s"
        using \<open>i \<noteq> ?j\<close> t(3) bucketIndex_cong by metis
      ultimately show ?thesis using y by (intro disjI2 exI [of _ t]) auto
    qed (simp add: y)
  qed
  have kept: "start_of (?ys ! bucketIndex t bs (length xs)) = time_Truncate t bs"
    if te: "(t, f) \<in> set ?hist" and recent: "?s - time_Truncate t bs < int (length xs) * bs" for t f
  proof (cases "bucketIndex t bs (length xs) = ?j")
    case True
    have t: "in_epoch bs t" "t \<le> now" using te inv now by (auto simp: ring_inv_def)
    have "?s = time_Truncate t bs"
      using same_bucket_same_slice [OF t(1) now bs n True Truncate_mono [OF bs t(2)] recent] .
    then show ?thesis using True nth [OF j] by (simp add: start_bump start_fresh)
  next
    case False
    then have "t \<noteq> now" by auto
    then have "(t, f) \<in> set hist" using te by auto
    then have "start_of (xs ! bucketIndex t bs (length xs)) = time_Truncate t bs"
      using inv recent unfolding ring_inv_def by blast
    then show ?thesis using False nth [OF bucketIndex_less [OF n]] by simp
  qed
  have times: "in_epoch bs t \<and> t \<le> now" if "(t, f) \<in> set ?hist" for t f
    using that inv now by (auto simp: ring_inv_def)
  have ne: "?ys \<noteq> []" using n by (metis length_record length_greater_0_conv)
  show ?thesis
    unfolding ring_inv_def length_record
  proof (intro conjI)
    show "\<forall>(t, f)\<in>set ?hist. in_epoch bs t \<and> t \<le> now" using times by blast
    show "\<forall>i<length xs. start_of (?ys ! i) = 0 \<or>
      (\<exists>t. in_epoch bs t \<and> start_of (?ys ! i) = time_Truncate t bs \<and>
         i = bucketIndex t bs (length xs) \<and>
         count (?ys ! i) = slice_weight weight bs (\<lambda>s. s = time_Truncate t bs) ?hist)"
      by (intro allI impI live)
    show "\<forall>(t, f)\<in>set ?hist. ?s - time_Truncate t bs < int (length xs) * bs \<longrightarrow>
        start_of (?ys ! bucketIndex t bs (length xs)) = time_Truncate t bs"
      using kept by blast
  qed (fact bs ne)+
qed

text \<open>
  The window sum is the weight of the events of the slices inside the window, provided the window is
  no longer than a turn of the ring.
\<close>

lemma window_sum_eq:
  assumes inv: "ring_inv bs now hist xs" and w: "0 < window" "window \<le> maxDuration"
    and turn: "window \<le> int (length xs) * bs"
  shows "window_sum start_of count window now xs =
     slice_weight weight bs (\<lambda>s. now - s < window) hist"
proof -
  let ?n = "length xs" and ?h = "length hist"
  define inside where "inside i \<longleftrightarrow> start_of (xs ! i) \<noteq> 0 \<and> now - start_of (xs ! i) < window" for i
  define sl where "sl k = time_Truncate (fst (hist ! k)) bs" for k
  define wt where "wt k = weight (snd (hist ! k))" for k
  have bs: "0 < bs" and n: "0 < ?n" using inv by (auto simp: ring_inv_def)
  have sw: "slice_weight weight bs P hist = (\<Sum>k<?h. if P (sl k) then wt k else 0)" for P
    unfolding slice_weight_def sl_def wt_def sum_list_index by (simp add: split_beta)
  have one: "(\<Sum>i<?n. if inside i \<and> sl k = start_of (xs ! i) then wt k else 0) =
      (if now - sl k < window then wt k else 0)" if k: "k < ?h" for k
  proof -
    let ?t = "fst (hist ! k)"
    let ?j = "bucketIndex ?t bs ?n"
    have mem: "(?t, snd (hist ! k)) \<in> set hist" using k by simp
    have ep: "in_epoch bs ?t" using mem inv by (auto simp: ring_inv_def)
    have only: "i = ?j" if "i < ?n" "start_of (xs ! i) = sl k" for i
    proof -
      have "start_of (xs ! i) \<noteq> 0" using that epoch_pos [OF ep] by (simp add: sl_def)
      from inv that(1) this obtain u where u: "start_of (xs ! i) = time_Truncate u bs"
        and i: "i = bucketIndex u bs ?n" by (rule ring_inv_liveE)
      have "time_Truncate u bs = time_Truncate ?t bs" using that(2) u unfolding sl_def by simp
      then show ?thesis using i bucketIndex_cong [of u bs ?t ?n] by (simp only:)
    qed
    show ?thesis
    proof (cases "now - sl k < window")
      case True
      then have "time_Truncate now bs - time_Truncate ?t bs < int ?n * bs"
        using turn Truncate_le [OF bs, of now] by (simp add: sl_def)
      then have j: "start_of (xs ! ?j) = sl k"
        using inv mem unfolding ring_inv_def sl_def by blast
      have "inside i \<and> sl k = start_of (xs ! i) \<longleftrightarrow> i = ?j" if "i < ?n" for i
      proof
        assume "inside i \<and> sl k = start_of (xs ! i)"
        with that show "i = ?j" by (intro only) simp_all
      next
        assume "i = ?j"
        with j True epoch_pos [OF ep] show "inside i \<and> sl k = start_of (xs ! i)"
          by (simp add: inside_def) (simp add: sl_def)
      qed
      then have "(\<Sum>i<?n. if inside i \<and> sl k = start_of (xs ! i) then wt k else 0) =
          (\<Sum>i<?n. if i = ?j then wt k else 0)"
        by (intro sum.cong refl) simp
      with True bucketIndex_less [OF n] show ?thesis by simp
    qed (auto simp: inside_def intro!: sum.neutral)
  qed
  have live: "count (xs ! i) = (\<Sum>k<?h. if sl k = start_of (xs ! i) then wt k else 0)"
    if "i < ?n" "inside i" for i
  proof -
    have "start_of (xs ! i) \<noteq> 0" using that by (simp add: inside_def)
    from inv that(1) this obtain t where "start_of (xs ! i) = time_Truncate t bs"
      "count (xs ! i) = slice_weight weight bs (\<lambda>s. s = time_Truncate t bs) hist"
      by (rule ring_inv_liveE)
    then show ?thesis by (simp add: sw)
  qed
  have "window_sum start_of count window now xs = (\<Sum>i<?n. if inside i then count (xs ! i) else 0)"
    unfolding window_sum_def sum_list_index
    by (intro sum.cong refl) (simp add: inside_def time_Sub_ge [OF w] not_le)
  also have "\<dots> = (\<Sum>i<?n. \<Sum>k<?h. if inside i \<and> sl k = start_of (xs ! i) then wt k else 0)"
  proof (rule sum.cong [OF refl])
    fix i assume "i \<in> {..<?n}"
    then show "(if inside i then count (xs ! i) else 0) =
        (\<Sum>k<?h. if inside i \<and> sl k = start_of (xs ! i) then wt k else 0)"
      by (cases "inside i") (simp_all add: live)
  qed
  also have "\<dots> = (\<Sum>k<?h. \<Sum>i<?n. if inside i \<and> sl k = start_of (xs ! i) then wt k else 0)"
    by (rule sum.swap)
  also have "\<dots> = (\<Sum>k<?h. if now - sl k < window then wt k else 0)"
    by (rule sum.cong) (auto simp: one)
  finally show ?thesis by (simp add: sw)
qed

end

end
