(* ===== verification/AdaptiveBreaker.thy ===== *)
theory AdaptiveBreaker
  imports Float64 Breaker Rolling
begin

text \<open>
  The adaptive circuit breaker of \<^verbatim>\<open>core/breaker/breaker.go\<close> (\<^verbatim>\<open>AdaptiveBreaker\<close>): it opens on the
  failure ratio of a rolling window of buckets. The pointer \<^verbatim>\<open>currentBucketLocked\<close> returns is the
  index of the bucket in the ring.

  The theory states what the breaker means, without buckets, as \<open>AdaptiveSpec\<close>: the list of outcomes
  since the last reset, counted slice by slice; the breaker implements it operation by operation.
\<close>

section \<open>The breaker\<close>

record bucket =
  bk_start :: time
  bk_requests :: int
  bk_success :: int

record AdaptiveBreaker =
  ab_state :: State
  ab_openedAt :: time
  ab_openTimeout :: duration
  ab_window :: duration
  ab_bucketSize :: duration
  ab_buckets :: "bucket list"
  ab_minRequests :: int
  ab_failureRatio :: float64
  ab_k :: float64
  ab_halfOpenProbe :: bool

definition zero_bucket :: bucket where
  "zero_bucket = \<lparr>bk_start = 0, bk_requests = 0, bk_success = 0\<rparr>"

definition bucket_at :: "time \<Rightarrow> bucket" where
  "bucket_at s = zero_bucket\<lparr>bk_start := s\<rparr>"

datatype AdaptiveOption =
    WithAdaptiveOpenTimeout duration
  | WithAdaptiveWindow duration
  | WithAdaptiveBuckets int
  | WithAdaptiveMinRequests int
  | WithAdaptiveFailureRatio float64
  | WithAdaptiveK float64

fun apply_AdaptiveOption :: "AdaptiveOption \<Rightarrow> AdaptiveBreaker \<Rightarrow> AdaptiveBreaker" where
  "apply_AdaptiveOption (WithAdaptiveOpenTimeout d) b =
     (if d > 0 then b\<lparr>ab_openTimeout := d\<rparr> else b)"
| "apply_AdaptiveOption (WithAdaptiveWindow d) b = (if d > 0 then b\<lparr>ab_window := d\<rparr> else b)"
| "apply_AdaptiveOption (WithAdaptiveBuckets n) b =
     (if n > 0 then b\<lparr>ab_buckets := replicate (nat n) zero_bucket\<rparr> else b)"
| "apply_AdaptiveOption (WithAdaptiveMinRequests n) b =
     (if n > 0 then b\<lparr>ab_minRequests := n\<rparr> else b)"
| "apply_AdaptiveOption (WithAdaptiveFailureRatio ratio) b =
     (if ratio > 0 \<and> ratio \<le> 1 then b\<lparr>ab_failureRatio := ratio\<rparr> else b)"
| "apply_AdaptiveOption (WithAdaptiveK k) b = (if k > 0 then b\<lparr>ab_k := k\<rparr> else b)"

definition NewAdaptive :: "AdaptiveOption list \<Rightarrow> AdaptiveBreaker" where
  "NewAdaptive opts =
     (let b = fold apply_AdaptiveOption opts
        \<lparr>ab_state = Closed, ab_openedAt = 0, ab_openTimeout = 5 * Second, ab_window = 10 * Second,
         ab_bucketSize = 0, ab_buckets = replicate 10 zero_bucket, ab_minRequests = 20,
         ab_failureRatio = 1 / 2, ab_k = 3 / 2, ab_halfOpenProbe = False\<rparr>;
        b = (if length (ab_buckets b) = 0 then b\<lparr>ab_buckets := replicate 10 zero_bucket\<rparr> else b);
        b = (if ab_window b \<le> 0 then b\<lparr>ab_window := 10 * Second\<rparr> else b);
        b = b\<lparr>ab_bucketSize := ab_window b sdiv int (length (ab_buckets b))\<rparr>
      in if ab_bucketSize b \<le> 0 then b\<lparr>ab_bucketSize := Second\<rparr> else b)"

definition AdaptiveBreaker_refreshLocked :: "time \<Rightarrow> AdaptiveBreaker \<Rightarrow> AdaptiveBreaker" where
  "AdaptiveBreaker_refreshLocked now b =
     (if ab_state b = Open \<and> time_Sub now (ab_openedAt b) \<ge> ab_openTimeout b
      then b\<lparr>ab_state := HalfOpen\<rparr> else b)"

definition AdaptiveBreaker_snapshotLocked :: "time \<Rightarrow> AdaptiveBreaker \<Rightarrow> int \<times> int" where
  "AdaptiveBreaker_snapshotLocked now b =
     fold (\<lambda>bk (requests, success).
        if bk_start bk = 0 \<or> time_Sub now (bk_start bk) \<ge> ab_window b then (requests, success)
        else (requests + bk_requests bk, success + bk_success bk)) (ab_buckets b) (0, 0)"

definition AdaptiveBreaker_shouldOpenLocked :: "time \<Rightarrow> AdaptiveBreaker \<Rightarrow> bool" where
  "AdaptiveBreaker_shouldOpenLocked now b =
     (let (requests, success) = AdaptiveBreaker_snapshotLocked now b in
      if requests < ab_minRequests b then False
      else let failures = requests - success in
        if fdiv (float64_of_int failures) (float64_of_int requests) < ab_failureRatio b then False
        else float64_of_int requests \<ge> fmul (ab_k b) (float64_of_int (success + 1)))"

definition AdaptiveBreaker_currentBucketLocked ::
  "time \<Rightarrow> AdaptiveBreaker \<Rightarrow> nat \<times> AdaptiveBreaker" where
  "AdaptiveBreaker_currentBucketLocked now b =
     (let start = time_Truncate now (ab_bucketSize b);
          idx = (time_UnixNano start sdiv ab_bucketSize b) smod int (length (ab_buckets b));
          idx = nat (if idx < 0 then - idx else idx)
      in if bk_start (ab_buckets b ! idx) \<noteq> start
         then (idx, b\<lparr>ab_buckets := (ab_buckets b)[idx := bucket_at start]\<rparr>)
         else (idx, b))"

definition AdaptiveBreaker_openLocked :: "time \<Rightarrow> AdaptiveBreaker \<Rightarrow> AdaptiveBreaker" where
  "AdaptiveBreaker_openLocked now b =
     b\<lparr>ab_state := Open, ab_openedAt := now, ab_halfOpenProbe := False\<rparr>"

definition AdaptiveBreaker_resetLocked :: "AdaptiveBreaker \<Rightarrow> AdaptiveBreaker" where
  "AdaptiveBreaker_resetLocked b = b\<lparr>ab_buckets := map (\<lambda>_. zero_bucket) (ab_buckets b)\<rparr>"

definition AdaptiveBreaker_State :: "time \<Rightarrow> AdaptiveBreaker \<Rightarrow> State \<times> AdaptiveBreaker" where
  "AdaptiveBreaker_State now b =
     (let b' = AdaptiveBreaker_refreshLocked now b in (ab_state b', b'))"

definition AdaptiveBreaker_Allow ::
  "time \<Rightarrow> AdaptiveBreaker \<Rightarrow> goerror option \<times> AdaptiveBreaker" where
  "AdaptiveBreaker_Allow now b =
     (let b' = AdaptiveBreaker_refreshLocked now b in
      if ab_state b' = Open then (Some ErrOpen, b')
      else if ab_state b' = Closed \<and> AdaptiveBreaker_shouldOpenLocked now b'
        then (Some ErrOpen, AdaptiveBreaker_openLocked now b')
      else (None, b'))"

definition AdaptiveBreaker_allowProbe ::
  "time \<Rightarrow> AdaptiveBreaker \<Rightarrow> goerror option \<times> AdaptiveBreaker" where
  "AdaptiveBreaker_allowProbe now b =
     (let b' = AdaptiveBreaker_refreshLocked now b in
      if ab_state b' = Open then (Some ErrOpen, b')
      else if ab_state b' = Closed \<and> AdaptiveBreaker_shouldOpenLocked now b'
        then (Some ErrOpen, AdaptiveBreaker_openLocked now b')
      else if ab_state b' = HalfOpen then
        (if ab_halfOpenProbe b' then (Some ErrOpen, b') else (None, b'\<lparr>ab_halfOpenProbe := True\<rparr>))
      else (None, b'))"

definition AdaptiveBreaker_releaseProbe :: "AdaptiveBreaker \<Rightarrow> AdaptiveBreaker" where
  "AdaptiveBreaker_releaseProbe b =
     (if ab_state b = HalfOpen then b\<lparr>ab_halfOpenProbe := False\<rparr> else b)"

definition AdaptiveBreaker_MarkSuccess :: "time \<Rightarrow> AdaptiveBreaker \<Rightarrow> AdaptiveBreaker" where
  "AdaptiveBreaker_MarkSuccess now b =
     (let b1 = AdaptiveBreaker_refreshLocked now b;
          (i, b2) = AdaptiveBreaker_currentBucketLocked now b1;
          current = ab_buckets b2 ! i;
          current = current\<lparr>bk_requests := bk_requests current + 1\<rparr>;
          current = current\<lparr>bk_success := bk_success current + 1\<rparr>;
          b3 = b2\<lparr>ab_buckets := (ab_buckets b2)[i := current]\<rparr>
      in if ab_state b3 = HalfOpen
         then AdaptiveBreaker_resetLocked (b3\<lparr>ab_state := Closed, ab_halfOpenProbe := False\<rparr>)
         else b3)"

definition AdaptiveBreaker_MarkFailure :: "time \<Rightarrow> AdaptiveBreaker \<Rightarrow> AdaptiveBreaker" where
  "AdaptiveBreaker_MarkFailure now b =
     (let b1 = AdaptiveBreaker_refreshLocked now b;
          (i, b2) = AdaptiveBreaker_currentBucketLocked now b1;
          current = ab_buckets b2 ! i;
          b3 = b2\<lparr>ab_buckets := (ab_buckets b2)[i := current\<lparr>bk_requests := bk_requests current + 1\<rparr>]\<rparr>
      in if ab_state b3 = HalfOpen \<or> AdaptiveBreaker_shouldOpenLocked now b3
         then AdaptiveBreaker_openLocked now b3 else b3)"

definition AdaptiveBreaker_Do ::
  "goerror option \<Rightarrow> time \<Rightarrow> (AdaptiveBreaker \<Rightarrow> AdaptiveBreaker) \<Rightarrow> fn_outcome \<Rightarrow> time \<Rightarrow>
   AdaptiveBreaker \<Rightarrow> call_result \<times> AdaptiveBreaker" where
  "AdaptiveBreaker_Do ctxErr now env fn now' b =
     (case ctxErr of Some e \<Rightarrow> (Returned (Some e), b)
      | None \<Rightarrow>
        (case AdaptiveBreaker_allowProbe now b of
           (Some e, b1) \<Rightarrow> (Returned (Some e), b1)
         | (None, b1) \<Rightarrow>
             (let b2 = env b1 in
              case fn of
                Panics \<Rightarrow> (Panicked, AdaptiveBreaker_releaseProbe b2)
              | Returns (Some err) \<Rightarrow> (Returned (Some err), AdaptiveBreaker_MarkFailure now' b2)
              | Returns None \<Rightarrow> (Returned None, AdaptiveBreaker_MarkSuccess now' b2))))"

definition AdaptiveBreaker_Begin ::
  "goerror option \<Rightarrow> time \<Rightarrow> AdaptiveBreaker \<Rightarrow> goerror option \<times> AdaptiveBreaker" where
  "AdaptiveBreaker_Begin ctxErr now b =
     (case ctxErr of Some e \<Rightarrow> (Some e, b) | None \<Rightarrow> AdaptiveBreaker_allowProbe now b)"

definition AdaptiveBreaker_complete ::
  "time \<Rightarrow> bool \<Rightarrow> bool \<times> AdaptiveBreaker \<Rightarrow> bool \<times> AdaptiveBreaker" where
  "AdaptiveBreaker_complete now success = (\<lambda>(finished, b).
     if finished then (True, b)
     else (True, if success then AdaptiveBreaker_MarkSuccess now b
                 else AdaptiveBreaker_MarkFailure now b))"

record AdaptiveSnapshot =
  as_State :: string
  as_OpenTimeout :: duration
  as_OpenedAt :: time
  as_Window :: duration
  as_BucketSize :: duration
  as_Buckets :: int
  as_MinRequests :: int
  as_FailureRatio :: float64
  as_K :: float64
  as_Requests :: int
  as_Success :: int
  as_Failures :: int
  as_ErrorRatio :: float64

definition AdaptiveBreaker_Snapshot ::
  "time \<Rightarrow> AdaptiveBreaker option \<Rightarrow> AdaptiveSnapshot \<times> AdaptiveBreaker option" where
  "AdaptiveBreaker_Snapshot now ob =
     (case ob of
        None \<Rightarrow> (\<lparr>as_State = '''', as_OpenTimeout = 0, as_OpenedAt = 0, as_Window = 0,
           as_BucketSize = 0, as_Buckets = 0, as_MinRequests = 0, as_FailureRatio = 0, as_K = 0,
           as_Requests = 0, as_Success = 0, as_Failures = 0, as_ErrorRatio = 0\<rparr>, None)
      | Some b \<Rightarrow>
          (let b' = AdaptiveBreaker_refreshLocked now b;
               (requests, success) = AdaptiveBreaker_snapshotLocked now b';
               failures = requests - success
           in (\<lparr>as_State = State_String (ab_state b'), as_OpenTimeout = ab_openTimeout b',
                as_OpenedAt = ab_openedAt b', as_Window = ab_window b',
                as_BucketSize = ab_bucketSize b', as_Buckets = int (length (ab_buckets b')),
                as_MinRequests = ab_minRequests b', as_FailureRatio = ab_failureRatio b',
                as_K = ab_k b', as_Requests = requests, as_Success = success,
                as_Failures = failures,
                as_ErrorRatio = (if requests > 0
                   then fdiv (float64_of_int failures) (float64_of_int requests) else 0)\<rparr>,
               Some b')))"

section \<open>The buckets count the outcomes\<close>

definition bump_bucket :: "bool \<Rightarrow> bucket \<Rightarrow> bucket" where
  "bump_bucket ok bk =
     bk\<lparr>bk_requests := bk_requests bk + 1, bk_success := bk_success bk + (if ok then 1 else 0)\<rparr>"

interpretation adaptive_requests: counter_ring bk_start bucket_at bump_bucket bk_requests "\<lambda>_. 1"
  by unfold_locales (simp_all add: bucket_at_def zero_bucket_def bump_bucket_def)

interpretation adaptive_success: counter_ring bk_start bucket_at bump_bucket bk_success
  "\<lambda>ok. if ok then 1 else 0"
  by unfold_locales (simp_all add: bucket_at_def zero_bucket_def bump_bucket_def)

abbreviation adaptive_record :: "time \<Rightarrow> bool \<Rightarrow> AdaptiveBreaker \<Rightarrow> AdaptiveBreaker" where
  "adaptive_record now ok b \<equiv> b\<lparr>ab_buckets :=
     record_event bk_start bucket_at bump_bucket (ab_bucketSize b) now ok (ab_buckets b)\<rparr>"

lemma currentBucketLocked_roll:
  "AdaptiveBreaker_currentBucketLocked now b =
     (bucketIndex now (ab_bucketSize b) (length (ab_buckets b)),
      b\<lparr>ab_buckets := roll bk_start bucket_at (ab_bucketSize b) now (ab_buckets b)\<rparr>)"
  by (simp add: AdaptiveBreaker_currentBucketLocked_def bucketIndex_def roll_def Let_def)

lemma refreshLocked_config [simp]:
  "ab_buckets (AdaptiveBreaker_refreshLocked now b) = ab_buckets b"
  "ab_bucketSize (AdaptiveBreaker_refreshLocked now b) = ab_bucketSize b"
  "ab_window (AdaptiveBreaker_refreshLocked now b) = ab_window b"
  "ab_minRequests (AdaptiveBreaker_refreshLocked now b) = ab_minRequests b"
  "ab_failureRatio (AdaptiveBreaker_refreshLocked now b) = ab_failureRatio b"
  "ab_k (AdaptiveBreaker_refreshLocked now b) = ab_k b"
  "ab_openTimeout (AdaptiveBreaker_refreshLocked now b) = ab_openTimeout b"
  "ab_openedAt (AdaptiveBreaker_refreshLocked now b) = ab_openedAt b"
  "ab_halfOpenProbe (AdaptiveBreaker_refreshLocked now b) = ab_halfOpenProbe b"
  by (simp_all add: AdaptiveBreaker_refreshLocked_def)

lemma MarkSuccess_records:
  "AdaptiveBreaker_MarkSuccess now b =
     (let b' = adaptive_record now True (AdaptiveBreaker_refreshLocked now b)
      in if ab_state b' = HalfOpen
         then AdaptiveBreaker_resetLocked (b'\<lparr>ab_state := Closed, ab_halfOpenProbe := False\<rparr>)
         else b')"
  by (simp add: AdaptiveBreaker_MarkSuccess_def currentBucketLocked_roll record_event_def
      bump_bucket_def Let_def)

lemma MarkFailure_records:
  "AdaptiveBreaker_MarkFailure now b =
     (let b' = adaptive_record now False (AdaptiveBreaker_refreshLocked now b)
      in if ab_state b' = HalfOpen \<or> AdaptiveBreaker_shouldOpenLocked now b'
         then AdaptiveBreaker_openLocked now b' else b')"
  by (simp add: AdaptiveBreaker_MarkFailure_def currentBucketLocked_roll record_event_def
      bump_bucket_def Let_def)

lemma snapshotLocked_sums:
  "AdaptiveBreaker_snapshotLocked now b =
     (window_sum bk_start bk_requests (ab_window b) now (ab_buckets b),
      window_sum bk_start bk_success (ab_window b) now (ab_buckets b))"
proof -
  have "fold (\<lambda>bk (requests, success).
        if bk_start bk = 0 \<or> time_Sub now (bk_start bk) \<ge> w then (requests, success)
        else (requests + bk_requests bk, success + bk_success bk)) bks (r, s) =
      (r + window_sum bk_start bk_requests w now bks, s + window_sum bk_start bk_success w now bks)"
    for w r s and bks :: "bucket list"
    by (induction bks arbitrary: r s) (auto simp: window_sum_def)
  then show ?thesis by (simp add: AdaptiveBreaker_snapshotLocked_def)
qed

section \<open>What the breaker promises\<close>

text \<open>
  The specification keeps the outcomes reported since the last reset instead of buckets. An outcome
  counts while the slice it fell in started less than a window ago.
\<close>

record AdaptiveSpec =
  sp_state :: State
  sp_openedAt :: time
  sp_probe :: bool
  sp_events :: "(time \<times> bool) list"

definition AdaptiveSpec_init :: AdaptiveSpec where
  "AdaptiveSpec_init = \<lparr>sp_state = Closed, sp_openedAt = 0, sp_probe = False, sp_events = []\<rparr>"

definition spec_counts :: "AdaptiveBreaker \<Rightarrow> time \<Rightarrow> (time \<times> bool) list \<Rightarrow> int \<times> int" where
  "spec_counts cfg now evs =
     (let recent = filter (\<lambda>(t, ok). now - time_Truncate t (ab_bucketSize cfg) < ab_window cfg) evs
      in (int (length recent), int (length (filter snd recent))))"

definition trip_rule :: "AdaptiveBreaker \<Rightarrow> int \<Rightarrow> int \<Rightarrow> bool" where
  "trip_rule cfg requests success \<longleftrightarrow>
     ab_minRequests cfg \<le> requests \<and>
     ab_failureRatio cfg \<le> fdiv (float64_of_int (requests - success)) (float64_of_int requests) \<and>
     fmul (ab_k cfg) (float64_of_int (success + 1)) \<le> float64_of_int requests"

definition spec_refresh :: "AdaptiveBreaker \<Rightarrow> time \<Rightarrow> AdaptiveSpec \<Rightarrow> AdaptiveSpec" where
  "spec_refresh cfg now s =
     (if sp_state s = Open \<and> ab_openTimeout cfg \<le> now - sp_openedAt s
      then s\<lparr>sp_state := HalfOpen\<rparr> else s)"

definition spec_open :: "time \<Rightarrow> AdaptiveSpec \<Rightarrow> AdaptiveSpec" where
  "spec_open now s = s\<lparr>sp_state := Open, sp_openedAt := now, sp_probe := False\<rparr>"

datatype AdaptiveOp = OpState | OpAllow | OpProbe | OpRelease | OpSuccess | OpFailure

fun AdaptiveSpec_exec ::
  "AdaptiveBreaker \<Rightarrow> AdaptiveOp \<Rightarrow> time \<Rightarrow> AdaptiveSpec \<Rightarrow> goerror option \<times> AdaptiveSpec" where
  "AdaptiveSpec_exec cfg OpState now s = (None, spec_refresh cfg now s)"
| "AdaptiveSpec_exec cfg OpAllow now s =
     (let s = spec_refresh cfg now s; (r, ok) = spec_counts cfg now (sp_events s) in
      case sp_state s of
        Open \<Rightarrow> (Some ErrOpen, s)
      | Closed \<Rightarrow> if trip_rule cfg r ok then (Some ErrOpen, spec_open now s) else (None, s)
      | HalfOpen \<Rightarrow> (None, s))"
| "AdaptiveSpec_exec cfg OpProbe now s =
     (let s = spec_refresh cfg now s; (r, ok) = spec_counts cfg now (sp_events s) in
      case sp_state s of
        Open \<Rightarrow> (Some ErrOpen, s)
      | Closed \<Rightarrow> if trip_rule cfg r ok then (Some ErrOpen, spec_open now s) else (None, s)
      | HalfOpen \<Rightarrow> if sp_probe s then (Some ErrOpen, s) else (None, s\<lparr>sp_probe := True\<rparr>))"
| "AdaptiveSpec_exec cfg OpRelease now s =
     (None, if sp_state s = HalfOpen then s\<lparr>sp_probe := False\<rparr> else s)"
| "AdaptiveSpec_exec cfg OpSuccess now s =
     (let s = spec_refresh cfg now s in
      (None, if sp_state s = HalfOpen then s\<lparr>sp_state := Closed, sp_probe := False, sp_events := []\<rparr>
             else s\<lparr>sp_events := sp_events s @ [(now, True)]\<rparr>))"
| "AdaptiveSpec_exec cfg OpFailure now s =
     (let s = spec_refresh cfg now s; s = s\<lparr>sp_events := sp_events s @ [(now, False)]\<rparr>;
          (r, ok) = spec_counts cfg now (sp_events s) in
      (None, if sp_state s = HalfOpen \<or> trip_rule cfg r ok then spec_open now s else s))"

fun AdaptiveBreaker_exec ::
  "AdaptiveOp \<Rightarrow> time \<Rightarrow> AdaptiveBreaker \<Rightarrow> goerror option \<times> AdaptiveBreaker" where
  "AdaptiveBreaker_exec OpState now b = (None, snd (AdaptiveBreaker_State now b))"
| "AdaptiveBreaker_exec OpAllow now b = AdaptiveBreaker_Allow now b"
| "AdaptiveBreaker_exec OpProbe now b = AdaptiveBreaker_allowProbe now b"
| "AdaptiveBreaker_exec OpRelease now b = (None, AdaptiveBreaker_releaseProbe b)"
| "AdaptiveBreaker_exec OpSuccess now b = (None, AdaptiveBreaker_MarkSuccess now b)"
| "AdaptiveBreaker_exec OpFailure now b = (None, AdaptiveBreaker_MarkFailure now b)"

fun exec_run :: "('op \<Rightarrow> time \<Rightarrow> 'b \<Rightarrow> goerror option \<times> 'b) \<Rightarrow> ('op \<times> time) list \<Rightarrow> 'b \<Rightarrow>
    goerror option list \<times> 'b" where
  "exec_run exec [] b = ([], b)"
| "exec_run exec ((op, t) # ops) b =
     (let (r, b1) = exec op t b; (rs, b2) = exec_run exec ops b1 in (r # rs, b2))"

section \<open>The breaker implements the specification\<close>

definition AdaptiveBreaker_config :: "AdaptiveBreaker \<Rightarrow> bool" where
  "AdaptiveBreaker_config b \<longleftrightarrow>
     0 < ab_openTimeout b \<and> ab_openTimeout b \<le> maxDuration \<and>
     0 < ab_window b \<and> ab_window b \<le> maxDuration \<and> 0 < ab_bucketSize b \<and> ab_buckets b \<noteq> [] \<and>
     0 < ab_minRequests b \<and> 0 < ab_failureRatio b \<and> ab_failureRatio b \<le> 1 \<and> 0 < ab_k b"

definition whole_window :: "AdaptiveBreaker \<Rightarrow> bool" where
  "whole_window b \<longleftrightarrow> ab_window b \<le> int (length (ab_buckets b)) * ab_bucketSize b"

definition same_config :: "AdaptiveBreaker \<Rightarrow> AdaptiveBreaker \<Rightarrow> bool" where
  "same_config c b \<longleftrightarrow>
     ab_openTimeout b = ab_openTimeout c \<and> ab_window b = ab_window c \<and>
     ab_bucketSize b = ab_bucketSize c \<and> length (ab_buckets b) = length (ab_buckets c) \<and>
     ab_minRequests b = ab_minRequests c \<and> ab_failureRatio b = ab_failureRatio c \<and> ab_k b = ab_k c"

definition adaptive_sim :: "AdaptiveBreaker \<Rightarrow> time \<Rightarrow> AdaptiveBreaker \<Rightarrow> AdaptiveSpec \<Rightarrow> bool" where
  "adaptive_sim cfg latest b s \<longleftrightarrow>
     same_config cfg b \<and> ab_state b = sp_state s \<and> ab_openedAt b = sp_openedAt s \<and>
     ab_halfOpenProbe b = sp_probe s \<and>
     adaptive_requests.ring_inv (ab_bucketSize cfg) latest (sp_events s) (ab_buckets b) \<and>
     adaptive_success.ring_inv (ab_bucketSize cfg) latest (sp_events s) (ab_buckets b)"

lemma spec_counts_slice_weight:
  "spec_counts cfg now evs =
     (slice_weight (\<lambda>_. 1) (ab_bucketSize cfg) (\<lambda>s. now - s < ab_window cfg) evs,
      slice_weight (\<lambda>ok. if ok then 1 else 0) (ab_bucketSize cfg) (\<lambda>s. now - s < ab_window cfg) evs)"
  by (induction evs) (auto simp: spec_counts_def slice_weight_def Let_def)

lemma sim_counts:
  assumes "AdaptiveBreaker_config cfg" "whole_window cfg" "adaptive_sim cfg now b s"
  shows "AdaptiveBreaker_snapshotLocked now b = spec_counts cfg now (sp_events s)"
  using assms adaptive_requests.window_sum_eq [of "ab_bucketSize cfg" now "sp_events s" "ab_buckets b" "ab_window cfg"]
    adaptive_success.window_sum_eq [of "ab_bucketSize cfg" now "sp_events s" "ab_buckets b" "ab_window cfg"]
  by (simp add: snapshotLocked_sums spec_counts_slice_weight AdaptiveBreaker_config_def
      whole_window_def adaptive_sim_def same_config_def)

lemma shouldOpen_trip_rule:
  "AdaptiveBreaker_shouldOpenLocked now b =
     (case AdaptiveBreaker_snapshotLocked now b of (r, ok) \<Rightarrow> trip_rule b r ok)"
  by (auto simp: AdaptiveBreaker_shouldOpenLocked_def trip_rule_def Let_def split: prod.splits)

lemma trip_rule_config: "same_config cfg b \<Longrightarrow> trip_rule b = trip_rule cfg"
  by (auto simp: same_config_def trip_rule_def fun_eq_iff)

lemma sim_shouldOpen:
  assumes "AdaptiveBreaker_config cfg" "whole_window cfg" "adaptive_sim cfg now b s"
  shows "AdaptiveBreaker_shouldOpenLocked now b =
     (case spec_counts cfg now (sp_events s) of (r, ok) \<Rightarrow> trip_rule cfg r ok)"
  using assms(3) trip_rule_config [of cfg b]
  by (simp add: shouldOpen_trip_rule sim_counts [OF assms]) (simp add: adaptive_sim_def)

lemma sim_later: "adaptive_sim cfg latest b s \<Longrightarrow> latest \<le> now \<Longrightarrow> adaptive_sim cfg now b s"
  by (auto simp: adaptive_sim_def intro: adaptive_requests.ring_inv_later adaptive_success.ring_inv_later)

lemma sim_refresh:
  assumes "AdaptiveBreaker_config cfg" "adaptive_sim cfg now b s"
  shows "adaptive_sim cfg now (AdaptiveBreaker_refreshLocked now b) (spec_refresh cfg now s)"
  using assms
  by (auto simp: AdaptiveBreaker_config_def adaptive_sim_def same_config_def spec_refresh_def
      AdaptiveBreaker_refreshLocked_def time_simps)

lemma sim_open: "adaptive_sim cfg now b s \<Longrightarrow>
   adaptive_sim cfg now (AdaptiveBreaker_openLocked t b) (spec_open t s)"
  by (simp add: adaptive_sim_def same_config_def AdaptiveBreaker_openLocked_def spec_open_def)

lemma sim_record:
  assumes "adaptive_sim cfg now b s" "in_epoch (ab_bucketSize cfg) now"
  shows "adaptive_sim cfg now (adaptive_record now ok b) (s\<lparr>sp_events := sp_events s @ [(now, ok)]\<rparr>)"
  using assms adaptive_requests.ring_inv_record [of "ab_bucketSize cfg" now "sp_events s" "ab_buckets b" ok]
    adaptive_success.ring_inv_record [of "ab_bucketSize cfg" now "sp_events s" "ab_buckets b" ok]
  by (simp add: adaptive_sim_def same_config_def)

lemma sim_reset:
  assumes "adaptive_sim cfg now b s"
  shows "adaptive_sim cfg now (AdaptiveBreaker_resetLocked b) (s\<lparr>sp_events := []\<rparr>)"
proof -
  have "0 < ab_bucketSize cfg" "map (\<lambda>_. zero_bucket) (ab_buckets b) \<noteq> []"
    "\<forall>bk \<in> set (map (\<lambda>_. zero_bucket) (ab_buckets b)). bk_start bk = 0"
    using assms by (auto simp: adaptive_sim_def adaptive_requests.ring_inv_def zero_bucket_def)
  with assms adaptive_requests.ring_inv_empty [OF this] adaptive_success.ring_inv_empty [OF this]
  show ?thesis by (simp add: adaptive_sim_def same_config_def AdaptiveBreaker_resetLocked_def)
qed

lemma sim_exec:
  assumes "AdaptiveBreaker_config cfg" "whole_window cfg" "adaptive_sim cfg latest b s"
    and "latest \<le> now" "in_epoch (ab_bucketSize cfg) now"
  shows "fst (AdaptiveBreaker_exec op now b) = fst (AdaptiveSpec_exec cfg op now s) \<and>
     adaptive_sim cfg now (snd (AdaptiveBreaker_exec op now b)) (snd (AdaptiveSpec_exec cfg op now s))"
proof -
  define b1 where "b1 = AdaptiveBreaker_refreshLocked now b"
  define s1 where "s1 = spec_refresh cfg now s"
  have sim: "adaptive_sim cfg now b s" by (rule sim_later [OF assms(3,4)])
  have sim1: "adaptive_sim cfg now b1 s1"
    unfolding b1_def s1_def by (rule sim_refresh [OF assms(1) sim])
  have st: "ab_state b1 = sp_state s1" "ab_halfOpenProbe b1 = sp_probe s1"
    "ab_state b = sp_state s"
    using sim sim1 by (simp_all add: adaptive_sim_def)
  have fields: "adaptive_sim cfg now (b'\<lparr>ab_halfOpenProbe := v\<rparr>) (s'\<lparr>sp_probe := v\<rparr>)"
    "adaptive_sim cfg now (b'\<lparr>ab_state := st, ab_halfOpenProbe := v\<rparr>) (s'\<lparr>sp_state := st, sp_probe := v\<rparr>)"
    if "adaptive_sim cfg now b' s'" for b' s' v st
    using that by (simp_all add: adaptive_sim_def same_config_def)
  note trip = sim_shouldOpen [OF assms(1,2)]
  note rec = sim_record [OF sim1 assms(5)]
  show ?thesis
  proof (cases op)
    case OpState
    with sim1 show ?thesis by (simp add: AdaptiveBreaker_State_def Let_def b1_def s1_def)
  next
    case OpAllow
    with sim1 st trip [OF sim1] sim_open [OF sim1] show ?thesis
      by (auto simp: AdaptiveBreaker_Allow_def Let_def simp flip: b1_def s1_def split: State.splits prod.splits)
  next
    case OpProbe
    with sim1 st trip [OF sim1] sim_open [OF sim1] fields(1) [OF sim1] show ?thesis
      by (auto simp: AdaptiveBreaker_allowProbe_def Let_def simp flip: b1_def s1_def
          split: State.splits prod.splits)
  next
    case OpRelease
    with sim st fields(1) [OF sim] show ?thesis by (simp add: AdaptiveBreaker_releaseProbe_def)
  next
    case OpSuccess
    with st rec [of True] sim_reset [OF fields(2) [OF rec [of True], of False Closed]] show ?thesis
      by (simp add: MarkSuccess_records Let_def flip: b1_def s1_def)
  next
    case OpFailure
    with st rec [of False] trip [OF rec [of False]] sim_open [OF rec [of False]] show ?thesis
      by (auto simp: MarkFailure_records Let_def simp flip: b1_def s1_def split: prod.splits)
  qed
qed

lemma sim_run:
  assumes "AdaptiveBreaker_config cfg" "whole_window cfg" "adaptive_sim cfg latest b s"
    and "sorted (latest # map snd ops)" "\<forall>(op, t) \<in> set ops. in_epoch (ab_bucketSize cfg) t"
  shows "fst (exec_run AdaptiveBreaker_exec ops b) = fst (exec_run (AdaptiveSpec_exec cfg) ops s) \<and>
     adaptive_sim cfg (last (latest # map snd ops)) (snd (exec_run AdaptiveBreaker_exec ops b))
       (snd (exec_run (AdaptiveSpec_exec cfg) ops s))"
  using assms(3-5)
proof (induction ops arbitrary: latest b s)
  case (Cons p ops)
  obtain op t where p: "p = (op, t)" by (cases p)
  have step: "fst (AdaptiveBreaker_exec op t b) = fst (AdaptiveSpec_exec cfg op t s)"
    "adaptive_sim cfg t (snd (AdaptiveBreaker_exec op t b)) (snd (AdaptiveSpec_exec cfg op t s))"
    using sim_exec [OF assms(1,2) Cons.prems(1), of t op] Cons.prems(2,3) p by auto
  from Cons.IH [OF step(2)] Cons.prems(2,3) p step(1) show ?case
    by (auto simp: split_beta Let_def)
qed simp

text \<open>Construction.\<close>

fun AdaptiveOption_ok :: "AdaptiveOption \<Rightarrow> bool" where
  "AdaptiveOption_ok (WithAdaptiveOpenTimeout d) = int64_range d"
| "AdaptiveOption_ok (WithAdaptiveWindow d) = int64_range d"
| "AdaptiveOption_ok (WithAdaptiveBuckets n) = int64_range n"
| "AdaptiveOption_ok (WithAdaptiveMinRequests n) = int64_range n"
| "AdaptiveOption_ok (WithAdaptiveFailureRatio ratio) = True"
| "AdaptiveOption_ok (WithAdaptiveK k) = True"

definition adaptive_fresh :: "AdaptiveBreaker \<Rightarrow> bool" where
  "adaptive_fresh b \<longleftrightarrow> AdaptiveBreaker_config (b\<lparr>ab_bucketSize := 1\<rparr>) \<and>
     ab_state b = Closed \<and> ab_openedAt b = 0 \<and> \<not> ab_halfOpenProbe b \<and>
     (\<forall>bk \<in> set (ab_buckets b). bk = zero_bucket)"

lemma apply_AdaptiveOption_fresh:
  "AdaptiveOption_ok opt \<Longrightarrow> adaptive_fresh b \<Longrightarrow> adaptive_fresh (apply_AdaptiveOption opt b)"
  by (cases opt)
    (auto simp: adaptive_fresh_def AdaptiveBreaker_config_def int64_range_def maxDuration_def)

lemma fold_AdaptiveOption_fresh:
  "\<forall>opt \<in> set opts. AdaptiveOption_ok opt \<Longrightarrow> adaptive_fresh b \<Longrightarrow>
   adaptive_fresh (fold apply_AdaptiveOption opts b)"
  by (induction opts arbitrary: b) (simp_all add: apply_AdaptiveOption_fresh)

lemma NewAdaptive_fresh:
  assumes "\<forall>opt \<in> set opts. AdaptiveOption_ok opt"
  shows "adaptive_fresh (NewAdaptive opts)" "AdaptiveBreaker_config (NewAdaptive opts)"
proof -
  define b0 where "b0 = \<lparr>ab_state = Closed, ab_openedAt = 0, ab_openTimeout = 5 * Second,
     ab_window = 10 * Second, ab_bucketSize = 0, ab_buckets = replicate 10 zero_bucket,
     ab_minRequests = 20, ab_failureRatio = 1 / 2, ab_k = 3 / 2, ab_halfOpenProbe = False\<rparr>"
  define b where "b = fold apply_AdaptiveOption opts b0"
  have "adaptive_fresh b0"
    by (simp add: b0_def adaptive_fresh_def AdaptiveBreaker_config_def maxDuration_def)
  then have "adaptive_fresh b"
    unfolding b_def by (rule fold_AdaptiveOption_fresh [OF assms])
  then show "adaptive_fresh (NewAdaptive opts)" "AdaptiveBreaker_config (NewAdaptive opts)"
    unfolding NewAdaptive_def b0_def [symmetric] b_def [symmetric] Let_def
    by (auto simp: adaptive_fresh_def AdaptiveBreaker_config_def)
qed

lemma fresh_sim:
  assumes "adaptive_fresh b" "AdaptiveBreaker_config b"
  shows "adaptive_sim b latest b AdaptiveSpec_init"
proof -
  have "0 < ab_bucketSize b" "ab_buckets b \<noteq> []" "\<forall>bk \<in> set (ab_buckets b). bk_start bk = 0"
    using assms by (auto simp: AdaptiveBreaker_config_def adaptive_fresh_def zero_bucket_def)
  with assms adaptive_requests.ring_inv_empty [OF this] adaptive_success.ring_inv_empty [OF this]
  show ?thesis by (simp add: adaptive_sim_def same_config_def AdaptiveSpec_init_def adaptive_fresh_def)
qed

text \<open>
  C5. The ring of buckets is invisible: whenever the buckets cover the window, any sequence of calls
  at non-decreasing times gets exactly the answers of the specification that keeps the full list of
  outcomes, ends in the same state, and from then on reports exactly the specification's counts.
\<close>

theorem AdaptiveBreaker_refines_spec:
  assumes "\<forall>opt \<in> set opts. AdaptiveOption_ok opt" and "whole_window (NewAdaptive opts)"
    and "sorted (map snd ops)"
    and "\<forall>(op, t) \<in> set ops. in_epoch (ab_bucketSize (NewAdaptive opts)) t"
    and "ops \<noteq> []" and "snd (last ops) \<le> now"
  shows "let b = NewAdaptive opts;
         (answers, b') = exec_run AdaptiveBreaker_exec ops b;
         (answers', s') = exec_run (AdaptiveSpec_exec b) ops AdaptiveSpec_init
     in answers = answers' \<and> ab_state b' = sp_state s' \<and> ab_openedAt b' = sp_openedAt s' \<and>
        ab_halfOpenProbe b' = sp_probe s' \<and>
        AdaptiveBreaker_snapshotLocked now b' = spec_counts b now (sp_events s')"
proof -
  let ?b = "NewAdaptive opts"
  let ?b' = "snd (exec_run AdaptiveBreaker_exec ops ?b)"
  let ?s' = "snd (exec_run (AdaptiveSpec_exec ?b) ops AdaptiveSpec_init)"
  note new = NewAdaptive_fresh [OF assms(1)]
  have sorted: "sorted (snd (hd ops) # map snd ops)"
    using assms(3,5) by (cases ops) auto
  have run: "fst (exec_run AdaptiveBreaker_exec ops ?b) =
      fst (exec_run (AdaptiveSpec_exec ?b) ops AdaptiveSpec_init)"
    "adaptive_sim ?b (snd (last ops)) ?b' ?s'"
    using sim_run [OF new(2) assms(2) fresh_sim [OF new] sorted assms(4)] assms(5)
    by (simp_all add: last_map)
  have "AdaptiveBreaker_snapshotLocked now ?b' = spec_counts ?b now (sp_events ?s')"
    by (rule sim_counts [OF new(2) assms(2) sim_later [OF run(2) assms(6)]])
  with run show ?thesis by (simp add: adaptive_sim_def split_beta Let_def)
qed

theorem AdaptiveBreaker_refines_spec_witness:
  "let b = NewAdaptive [WithAdaptiveMinRequests 1]; t = unixEpoch + Second;
       ops = [(OpSuccess, t), (OpFailure, t + Second), (OpProbe, t + 2 * Second)];
       (answers, b') = exec_run AdaptiveBreaker_exec ops b;
       (answers', s') = exec_run (AdaptiveSpec_exec b) ops AdaptiveSpec_init
   in answers = answers' \<and> ab_state b' = sp_state s' \<and> ab_openedAt b' = sp_openedAt s' \<and>
      ab_halfOpenProbe b' = sp_probe s' \<and>
      AdaptiveBreaker_snapshotLocked (t + 5 * Second) b' = spec_counts b (t + 5 * Second) (sp_events s')"
proof -
  let ?opts = "[WithAdaptiveMinRequests 1]" and ?t = "unixEpoch + Second"
  let ?ops = "[(OpSuccess, ?t), (OpFailure, ?t + Second), (OpProbe, ?t + 2 * Second)]"
  have 1: "\<forall>opt \<in> set ?opts. AdaptiveOption_ok opt" "whole_window (NewAdaptive ?opts)"
    by (simp_all add: int64_range_def whole_window_def NewAdaptive_def signed_divide_int_def)
  have 2: "sorted (map snd ?ops)" "?ops \<noteq> []" "snd (last ?ops) \<le> ?t + 5 * Second"
    by simp_all
  have 3: "\<forall>(op, t) \<in> set ?ops. in_epoch (ab_bucketSize (NewAdaptive ?opts)) t"
    by (simp add: in_epoch_def NewAdaptive_def unixEpoch_def time_Truncate_def signed_divide_int_def
        int64_range_def)
  show ?thesis
    using AdaptiveBreaker_refines_spec [OF 1 2(1) 3 2(2,3)] unfolding Let_def .
qed

section \<open>Tripping\<close>

lemma exec_run_append:
  "snd (exec_run exec (xs @ ys) b) = snd (exec_run exec ys (snd (exec_run exec xs b)))"
  by (induction xs arbitrary: b) (auto simp: split_beta Let_def)

lemma exec_failures:
  "snd (exec_run AdaptiveBreaker_exec (map (Pair OpFailure) ts) b) = fold AdaptiveBreaker_MarkFailure ts b"
  by (induction ts arbitrary: b) (auto simp: split_beta Let_def)

lemma spec_failures:
  "sp_events (snd (exec_run (AdaptiveSpec_exec cfg) (map (Pair OpFailure) ts) s)) =
     sp_events s @ map (\<lambda>t. (t, False)) ts"
proof (induction ts arbitrary: s)
  case (Cons t ts)
  have "sp_events (snd (AdaptiveSpec_exec cfg OpFailure t s)) = sp_events s @ [(t, False)]"
    by (auto simp: spec_refresh_def spec_open_def Let_def split_beta)
  with Cons show ?case by (simp add: split_beta Let_def)
qed simp

lemma trip_rule_all_failed:
  assumes "AdaptiveBreaker_config cfg" "ab_minRequests cfg \<le> n" "ab_k cfg \<le> of_int n" "n \<le> 2 ^ 53"
  shows "trip_rule cfg n 0"
proof -
  have n: "0 < n" "\<bar>n\<bar> \<le> 2 ^ 53" using assms by (auto simp: AdaptiveBreaker_config_def)
  have one: "fl 1 = 1" "float64_of_int 1 = 1"
    using fl_of_int [of 1] float64_of_int_exact [of 1] by simp_all
  show ?thesis
    using assms n one fl_le_int [OF assms(3) n(2)] float64_of_int_exact [OF n(2)]
    by (simp add: trip_rule_def fdiv_def fmul_def AdaptiveBreaker_config_def)
qed

text \<open>
  A backend that only fails trips the breaker: once at least \<^verbatim>\<open>minRequests\<close> failures and at least
  \<^verbatim>\<open>k\<close> of them have been reported within one window, the breaker is open, and it was opened at the
  last of them.
\<close>

theorem AdaptiveBreaker_trips:
  assumes "\<forall>opt \<in> set opts. AdaptiveOption_ok opt" and "whole_window (NewAdaptive opts)"
    and "sorted ts" and "\<forall>t \<in> set ts. in_epoch (ab_bucketSize (NewAdaptive opts)) t"
    and "ab_minRequests (NewAdaptive opts) \<le> int (length ts)"
    and "ab_k (NewAdaptive opts) \<le> of_nat (length ts)" and "int (length ts) \<le> 2 ^ 53"
    and "last ts - time_Truncate (hd ts) (ab_bucketSize (NewAdaptive opts)) < ab_window (NewAdaptive opts)"
  shows "ab_state (fold AdaptiveBreaker_MarkFailure ts (NewAdaptive opts)) = Open \<and>
     ab_openedAt (fold AdaptiveBreaker_MarkFailure ts (NewAdaptive opts)) = last ts"
proof -
  let ?b = "NewAdaptive opts" and ?f = "\<lambda>t. (t, False)"
  note new = NewAdaptive_fresh [OF assms(1)]
  have "ts \<noteq> []" using assms(5) new(2) by (auto simp: AdaptiveBreaker_config_def)
  then obtain us t where ts: "ts = us @ [t]" by (cases ts rule: rev_cases) auto
  have bs: "0 < ab_bucketSize ?b" using new(2) by (simp add: AdaptiveBreaker_config_def)
  have recent: "t - time_Truncate u (ab_bucketSize ?b) < ab_window ?b" if "u \<in> set ts" for u
  proof -
    have "hd ts \<le> u" using assms(3) that by (cases ts) auto
    then show ?thesis using Truncate_mono [OF bs] assms(8) ts by (smt (verit) last_snoc)
  qed
  let ?s = "snd (exec_run (AdaptiveSpec_exec ?b) (map (Pair OpFailure) us) AdaptiveSpec_init)"
  have "sorted (hd ts # map snd (map (Pair OpFailure) us))"
    using assms(3) ts by (cases us) (auto simp: sorted_append comp_def)
  then have sim: "adaptive_sim ?b t (fold AdaptiveBreaker_MarkFailure us ?b) ?s"
  proof -
    assume "sorted (hd ts # map snd (map (Pair OpFailure) us))"
    from sim_run [OF new(2) assms(2) fresh_sim [OF new] this] assms(4) ts
    have "adaptive_sim ?b (last (hd ts # us)) (fold AdaptiveBreaker_MarkFailure us ?b) ?s"
      by (simp add: exec_failures comp_def)
    moreover have "last (hd ts # us) \<le> t"
      using assms(3) ts by (cases us) (auto simp: sorted_append)
    ultimately show ?thesis by (rule sim_later)
  qed
  have ev: "sp_events ?s = map ?f us" by (simp add: spec_failures AdaptiveSpec_init_def)
  have "spec_counts ?b t (map ?f ts) = (int (length ts), 0)"
    using recent by (simp add: spec_counts_def filter_map comp_def filter_id_conv)
  then have "spec_counts ?b t (sp_events (spec_refresh ?b t ?s) @ [(t, False)]) = (int (length ts), 0)"
    by (simp add: spec_refresh_def ev ts)
  moreover have "trip_rule ?b (int (length ts)) 0"
    using trip_rule_all_failed [OF new(2) assms(5) _ assms(7)] assms(6) by simp
  ultimately have "sp_state (snd (AdaptiveSpec_exec ?b OpFailure t ?s)) = Open"
    "sp_openedAt (snd (AdaptiveSpec_exec ?b OpFailure t ?s)) = t"
    by (simp_all add: Let_def spec_open_def)
  moreover have "adaptive_sim ?b t (snd (AdaptiveBreaker_exec OpFailure t (fold AdaptiveBreaker_MarkFailure us ?b)))
      (snd (AdaptiveSpec_exec ?b OpFailure t ?s))"
    using sim_exec [OF new(2) assms(2) sim, of t OpFailure] assms(4) ts by simp
  ultimately show ?thesis by (simp add: adaptive_sim_def ts)
qed

theorem AdaptiveBreaker_trips_witness:
  "ab_state (fold AdaptiveBreaker_MarkFailure [unixEpoch + Second, unixEpoch + 2 * Second]
     (NewAdaptive [WithAdaptiveMinRequests 2])) = Open"
proof -
  let ?opts = "[WithAdaptiveMinRequests 2]" and ?ts = "[unixEpoch + Second, unixEpoch + 2 * Second]"
  have 1: "\<forall>opt \<in> set ?opts. AdaptiveOption_ok opt" "whole_window (NewAdaptive ?opts)" "sorted ?ts"
    by (simp_all add: int64_range_def whole_window_def NewAdaptive_def signed_divide_int_def)
  have 2: "\<forall>t \<in> set ?ts. in_epoch (ab_bucketSize (NewAdaptive ?opts)) t"
    "ab_minRequests (NewAdaptive ?opts) \<le> int (length ?ts)"
    "ab_k (NewAdaptive ?opts) \<le> of_nat (length ?ts)" "int (length ?ts) \<le> 2 ^ 53"
    "last ?ts - time_Truncate (hd ?ts) (ab_bucketSize (NewAdaptive ?opts)) < ab_window (NewAdaptive ?opts)"
    by (simp_all add: in_epoch_def NewAdaptive_def unixEpoch_def time_Truncate_def signed_divide_int_def
        int64_range_def)
  from AdaptiveBreaker_trips [OF 1 2] show ?thesis by blast
qed

section \<open>Probing and recovery\<close>

definition AdaptiveBreaker_blocked :: "time \<Rightarrow> AdaptiveBreaker \<Rightarrow> bool" where
  "AdaptiveBreaker_blocked t b \<longleftrightarrow> AdaptiveBreaker_config b \<and> ab_state b = Open \<and>
     t - ab_openedAt b < ab_openTimeout b"

definition AdaptiveBreaker_ready :: "time \<Rightarrow> AdaptiveBreaker \<Rightarrow> bool" where
  "AdaptiveBreaker_ready t b \<longleftrightarrow> AdaptiveBreaker_config b \<and> \<not> ab_halfOpenProbe b \<and>
     (ab_state b = Open \<and> ab_openTimeout b \<le> t - ab_openedAt b \<or> ab_state b = HalfOpen)"

definition AdaptiveBreaker_taken :: "AdaptiveBreaker \<Rightarrow> bool" where
  "AdaptiveBreaker_taken b \<longleftrightarrow> ab_state b = HalfOpen \<and> ab_halfOpenProbe b"

interpretation adaptive_gate: probe_gate AdaptiveBreaker_allowProbe AdaptiveBreaker_blocked
  AdaptiveBreaker_ready AdaptiveBreaker_taken
  by unfold_locales
    (auto simp: AdaptiveBreaker_blocked_def AdaptiveBreaker_ready_def AdaptiveBreaker_taken_def
      AdaptiveBreaker_config_def AdaptiveBreaker_allowProbe_def AdaptiveBreaker_refreshLocked_def
      Let_def time_simps)

lemma AdaptiveBreaker_single_probe:
  "AdaptiveBreaker_ready t b \<Longrightarrow>
   fst (allow_run AdaptiveBreaker_allowProbe (t # later) b) =
     None # replicate (length later) (Some ErrOpen)"
  by (rule adaptive_gate.ready_run)

text \<open>All the requests the ring holds, whatever their age, bound what a snapshot can count.\<close>

definition held :: "AdaptiveBreaker \<Rightarrow> int" where
  "held b = (\<Sum>bk\<leftarrow>ab_buckets b. bk_requests bk)"

definition calm :: "nat \<Rightarrow> AdaptiveBreaker \<Rightarrow> bool" where
  "calm n b \<longleftrightarrow> ab_state b = Closed \<and> ab_bucketSize b > 0 \<and> ab_buckets b \<noteq> [] \<and>
     (\<forall>bk \<in> set (ab_buckets b). 0 \<le> bk_requests bk) \<and> held b + int n < ab_minRequests b"

lemma snapshot_le_held:
  assumes "\<forall>bk \<in> set (ab_buckets b). 0 \<le> bk_requests bk"
  shows "fst (AdaptiveBreaker_snapshotLocked now b) \<le> held b"
proof -
  have "window_sum bk_start bk_requests w now bks \<le> (\<Sum>bk\<leftarrow>bks. bk_requests bk)"
    if "\<forall>bk \<in> set bks. 0 \<le> bk_requests bk" for w and bks :: "bucket list"
    using that by (induction bks) (auto simp: window_sum_def)
  then show ?thesis using assms by (simp add: snapshotLocked_sums held_def)
qed

lemma calm_closed_gate:
  assumes "calm n b"
  shows "\<not> AdaptiveBreaker_shouldOpenLocked now b" "AdaptiveBreaker_refreshLocked now b = b"
proof -
  have "fst (AdaptiveBreaker_snapshotLocked now b) < ab_minRequests b"
    using snapshot_le_held [of b now] assms by (auto simp: calm_def)
  then show "\<not> AdaptiveBreaker_shouldOpenLocked now b"
    by (auto simp: AdaptiveBreaker_shouldOpenLocked_def Let_def split: prod.splits)
  show "AdaptiveBreaker_refreshLocked now b = b"
    using assms by (simp add: calm_def AdaptiveBreaker_refreshLocked_def)
qed

lemma sum_list_update_int:
  "i < length xs \<Longrightarrow> sum_list (xs[i := v]) = sum_list xs - xs ! i + (v :: int)"
  by (induction xs arbitrary: i) (auto split: nat.splits)

lemma calm_record:
  assumes "calm (Suc n) b"
  shows "calm n (adaptive_record now ok b)"
proof -
  let ?bks = "ab_buckets b" and ?i = "bucketIndex now (ab_bucketSize b) (length (ab_buckets b))"
  let ?old = "if bk_start (?bks ! ?i) = time_Truncate now (ab_bucketSize b) then ?bks ! ?i
     else bucket_at (time_Truncate now (ab_bucketSize b))"
  have i: "?i < length ?bks" using assms by (intro bucketIndex_less) (simp add: calm_def)
  have nn: "\<forall>bk \<in> set ?bks. 0 \<le> bk_requests bk" using assms by (simp add: calm_def)
  have rec: "record_event bk_start bucket_at bump_bucket (ab_bucketSize b) now ok ?bks =
      ?bks[?i := bump_bucket ok ?old]"
    using i by (auto simp: record_event_def roll_def Let_def)
  have old: "0 \<le> bk_requests ?old" "bk_requests ?old \<le> bk_requests (?bks ! ?i)"
    using nn i by (auto simp: bucket_at_def zero_bucket_def)
  have "held (adaptive_record now ok b) = held b - bk_requests (?bks ! ?i) + (bk_requests ?old + 1)"
    unfolding held_def using i
    by (simp add: rec map_update sum_list_update_int bump_bucket_def)
  moreover have "\<forall>bk \<in> set (?bks[?i := bump_bucket ok ?old]). 0 \<le> bk_requests bk"
    using nn old(1) by (auto dest!: set_update_subset_insert [THEN subsetD] simp: bump_bucket_def)
  ultimately show ?thesis
    using assms old(2) by (simp add: calm_def rec)
qed

fun is_report :: "AdaptiveOp \<Rightarrow> bool" where
  "is_report OpSuccess = True"
| "is_report OpFailure = True"
| "is_report _ = False"

lemma calm_exec:
  assumes "calm (if is_report op then Suc n else n) b"
  shows "fst (AdaptiveBreaker_exec op t b) = None \<and> calm n (snd (AdaptiveBreaker_exec op t b))"
proof (cases "is_report op")
  case True
  then have c: "calm (Suc n) b" using assms by simp
  note r = calm_record [OF c, of t] and g = calm_closed_gate
  have "ab_state b = Closed" using c by (simp add: calm_def)
  with True show ?thesis
    using g(1) [OF r] g(2) [OF c] r
    by (cases op) (simp_all add: MarkSuccess_records MarkFailure_records)
next
  case False
  then have c: "calm n b" and "ab_state b = Closed" using assms by (simp_all add: calm_def)
  with False show ?thesis
    using calm_closed_gate [OF c]
    by (cases op) (simp_all add: AdaptiveBreaker_State_def AdaptiveBreaker_Allow_def
        AdaptiveBreaker_allowProbe_def AdaptiveBreaker_releaseProbe_def Let_def)
qed

lemma calm_run:
  "calm (length (filter (is_report \<circ> fst) ops)) b \<Longrightarrow>
   fst (exec_run AdaptiveBreaker_exec ops b) = replicate (length ops) None \<and>
   calm 0 (snd (exec_run AdaptiveBreaker_exec ops b))"
proof (induction ops arbitrary: b)
  case (Cons p ops)
  obtain op t where p: "p = (op, t)" by (cases p)
  have "calm (if is_report op then Suc (length (filter (is_report \<circ> fst) ops))
      else length (filter (is_report \<circ> fst) ops)) b"
    using Cons.prems p by (simp add: comp_def split: if_splits)
  from calm_exec [OF this, of t] Cons.IH [of "snd (AdaptiveBreaker_exec op t b)"] p
  show ?case by (simp add: split_beta Let_def comp_def)
qed (simp add: calm_def)

text \<open>
  C6. A successful probe closes the breaker for good measure: every bucket is cleared, so whatever
  was recorded before, no sequence of fewer than \<^verbatim>\<open>minRequests\<close> further outcomes (at any times, with
  any calls in between) can open it again, and every caller is admitted meanwhile.
\<close>

theorem AdaptiveBreaker_recovers:
  assumes "AdaptiveBreaker_config b" and "fst (AdaptiveBreaker_State now b) = HalfOpen"
    and "int (length (filter (is_report \<circ> fst) ops)) < ab_minRequests b"
  shows "let (answers, b') = exec_run AdaptiveBreaker_exec ops (AdaptiveBreaker_MarkSuccess now b)
     in answers = replicate (length ops) None \<and> ab_state b' = Closed"
proof -
  let ?b = "AdaptiveBreaker_MarkSuccess now b"
  have "ab_state (AdaptiveBreaker_refreshLocked now b) = HalfOpen"
    using assms(2) by (simp add: AdaptiveBreaker_State_def Let_def)
  then have b: "?b = AdaptiveBreaker_resetLocked
      ((adaptive_record now True (AdaptiveBreaker_refreshLocked now b))
         \<lparr>ab_state := Closed, ab_halfOpenProbe := False\<rparr>)"
    by (simp add: MarkSuccess_records Let_def)
  have "held ?b = 0" "ab_state ?b = Closed" "ab_buckets ?b \<noteq> []" "ab_bucketSize ?b > 0"
    "ab_minRequests ?b = ab_minRequests b" "\<forall>bk \<in> set (ab_buckets ?b). bk = zero_bucket"
    using assms(1) adaptive_requests.length_record
    by (auto simp: b held_def AdaptiveBreaker_resetLocked_def AdaptiveBreaker_config_def
        zero_bucket_def map_replicate_const sum_list_replicate record_event_def Let_def)
  then have "calm (length (filter (is_report \<circ> fst) ops)) ?b"
    using assms(3) by (auto simp: calm_def zero_bucket_def)
  from calm_run [OF this] show ?thesis by (auto simp: calm_def split_beta)
qed

theorem AdaptiveBreaker_recovers_witness:
  "let b = AdaptiveBreaker_openLocked 5 (NewAdaptive [])
   in let (answers, b') = exec_run AdaptiveBreaker_exec [(OpFailure, 9), (OpProbe, 7)]
            (AdaptiveBreaker_MarkSuccess (6 * Second) b)
      in answers = [None, None] \<and> ab_state b' = Closed"
proof -
  let ?b = "AdaptiveBreaker_openLocked 5 (NewAdaptive [])"
  have "AdaptiveBreaker_config ?b"
    using NewAdaptive_fresh(2) [of "[]"]
    by (simp add: AdaptiveBreaker_config_def AdaptiveBreaker_openLocked_def)
  moreover have "fst (AdaptiveBreaker_State (6 * Second) ?b) = HalfOpen"
    "int (length (filter (is_report \<circ> fst) [(OpFailure, 9 :: time), (OpProbe, 7)])) < ab_minRequests ?b"
    by (simp_all add: AdaptiveBreaker_State_def AdaptiveBreaker_refreshLocked_def NewAdaptive_def
        AdaptiveBreaker_openLocked_def signed_divide_int_def time_Sub_def Let_def maxDuration_def
        minDuration_def)
  ultimately have "let (answers, b') = exec_run AdaptiveBreaker_exec [(OpFailure, 9), (OpProbe, 7)]
            (AdaptiveBreaker_MarkSuccess (6 * Second) ?b)
      in answers = replicate (length [(OpFailure, 9 :: time), (OpProbe, 7)]) None \<and> ab_state b' = Closed"
    by (rule AdaptiveBreaker_recovers)
  then show ?thesis by (simp only: Let_def list.size numeral_2_eq_2 One_nat_def add_Suc add_0 add_0_right replicate.simps)
qed

text \<open>A backend that never fails never opens the breaker.\<close>

lemma trip_rule_no_failures:
  "AdaptiveBreaker_config b \<Longrightarrow> \<not> trip_rule b n n"
  by (simp add: trip_rule_def fdiv_def float64_of_int_def AdaptiveBreaker_config_def)

end
