(* ===== verification/GoogleBreaker.thy ===== *)
theory GoogleBreaker
  imports Float64 Breaker Rolling
begin

text \<open>
  The client-side throttle of \<^verbatim>\<open>core/breaker/google.go\<close> (\<^verbatim>\<open>GoogleBreaker\<close>). It rejects at random with
  a probability computed from the requests and accepts of a rolling window. A \<^verbatim>\<open>now()\<close> and a draw of
  \<^verbatim>\<open>rand.Float64()\<close> inside a method are its arguments \<open>now\<close> and \<open>draw\<close>.

  The buckets are a \<open>counter_ring\<close>, so the two counters of the window are the requests and accepts
  that fell in it; the probability is in the half-open interval the method's comment gives, rounding
  included.
\<close>

section \<open>The throttle\<close>

record googleBucket =
  gk_start :: time
  gk_requests :: int
  gk_accepts :: int

record GoogleBreaker =
  gb_k :: float64
  gb_window :: duration
  gb_bucketSize :: duration
  gb_buckets :: "googleBucket list"

definition zero_googleBucket :: googleBucket where
  "zero_googleBucket = \<lparr>gk_start = 0, gk_requests = 0, gk_accepts = 0\<rparr>"

definition googleBucket_at :: "time \<Rightarrow> googleBucket" where
  "googleBucket_at s = zero_googleBucket\<lparr>gk_start := s\<rparr>"

datatype GoogleOption = WithGoogleK float64 | WithGoogleWindow duration | WithGoogleBuckets int

fun apply_GoogleOption :: "GoogleOption \<Rightarrow> GoogleBreaker \<Rightarrow> GoogleBreaker" where
  "apply_GoogleOption (WithGoogleK k) b = (if k > 0 then b\<lparr>gb_k := k\<rparr> else b)"
| "apply_GoogleOption (WithGoogleWindow d) b = (if d > 0 then b\<lparr>gb_window := d\<rparr> else b)"
| "apply_GoogleOption (WithGoogleBuckets n) b =
     (if n > 0 then b\<lparr>gb_buckets := replicate (nat n) zero_googleBucket\<rparr> else b)"

definition NewGoogle :: "GoogleOption option list \<Rightarrow> GoogleBreaker" where
  "NewGoogle opts =
     (let b = fold (\<lambda>opt b. case opt of None \<Rightarrow> b | Some f \<Rightarrow> apply_GoogleOption f b) opts
        \<lparr>gb_k = 2, gb_window = 10 * Second, gb_bucketSize = 0,
         gb_buckets = replicate 10 zero_googleBucket\<rparr>;
        b = (if length (gb_buckets b) = 0 then b\<lparr>gb_buckets := replicate 10 zero_googleBucket\<rparr> else b);
        b = (if gb_window b \<le> 0 then b\<lparr>gb_window := 10 * Second\<rparr> else b);
        b = (if gb_k b \<le> 0 then b\<lparr>gb_k := 2\<rparr> else b);
        b = b\<lparr>gb_bucketSize := gb_window b sdiv int (length (gb_buckets b))\<rparr>
      in if gb_bucketSize b \<le> 0 then b\<lparr>gb_bucketSize := Second\<rparr> else b)"

definition GoogleBreaker_snapshotLocked :: "time \<Rightarrow> GoogleBreaker \<Rightarrow> int \<times> int" where
  "GoogleBreaker_snapshotLocked now b =
     fold (\<lambda>bk (requests, accepts).
        if gk_start bk = 0 \<or> time_Sub now (gk_start bk) \<ge> gb_window b then (requests, accepts)
        else (requests + gk_requests bk, accepts + gk_accepts bk)) (gb_buckets b) (0, 0)"

definition GoogleBreaker_currentBucketLocked :: "time \<Rightarrow> GoogleBreaker \<Rightarrow> nat \<times> GoogleBreaker" where
  "GoogleBreaker_currentBucketLocked now b =
     (let start = time_Truncate now (gb_bucketSize b);
          idx = (time_UnixNano start sdiv gb_bucketSize b) smod int (length (gb_buckets b));
          idx = nat (if idx < 0 then - idx else idx)
      in if gk_start (gb_buckets b ! idx) \<noteq> start
         then (idx, b\<lparr>gb_buckets := (gb_buckets b)[idx := googleBucket_at start]\<rparr>)
         else (idx, b))"

definition GoogleBreaker_rejectProbabilityLocked :: "GoogleBreaker \<Rightarrow> int \<Rightarrow> int \<Rightarrow> float64" where
  "GoogleBreaker_rejectProbabilityLocked b requests accepts =
     (let weighted = fmul (gb_k b) (float64_of_int accepts);
          prob = fdiv (fsub (float64_of_int requests) weighted) (float64_of_int (requests + 1))
      in if prob < 0 then 0 else prob)"

definition GoogleBreaker_acceptedLocked :: "float64 \<Rightarrow> GoogleBreaker \<Rightarrow> int \<Rightarrow> int \<Rightarrow> bool" where
  "GoogleBreaker_acceptedLocked draw b requests accepts =
     (let prob = GoogleBreaker_rejectProbabilityLocked b requests accepts
      in if prob \<le> 0 then True else draw \<ge> prob)"

definition GoogleBreaker_countRequest :: "time \<Rightarrow> GoogleBreaker \<Rightarrow> GoogleBreaker" where
  "GoogleBreaker_countRequest now b =
     (let (i, b') = GoogleBreaker_currentBucketLocked now b; bk = gb_buckets b' ! i
      in b'\<lparr>gb_buckets := (gb_buckets b')[i := bk\<lparr>gk_requests := gk_requests bk + 1\<rparr>]\<rparr>)"

definition GoogleBreaker_Allow ::
  "time \<Rightarrow> float64 \<Rightarrow> GoogleBreaker \<Rightarrow> goerror option \<times> GoogleBreaker" where
  "GoogleBreaker_Allow now draw b =
     (let (requests, accepts) = GoogleBreaker_snapshotLocked now b
      in if GoogleBreaker_acceptedLocked draw b requests accepts
         then (None, GoogleBreaker_countRequest now b)
         else (Some ErrOpen, GoogleBreaker_countRequest now b))"

definition GoogleBreaker_MarkSuccess :: "time \<Rightarrow> GoogleBreaker \<Rightarrow> GoogleBreaker" where
  "GoogleBreaker_MarkSuccess now b =
     (let (i, b') = GoogleBreaker_currentBucketLocked now b; bk = gb_buckets b' ! i
      in b'\<lparr>gb_buckets := (gb_buckets b')[i := bk\<lparr>gk_accepts := gk_accepts bk + 1\<rparr>]\<rparr>)"

definition GoogleBreaker_MarkFailure :: "GoogleBreaker \<Rightarrow> GoogleBreaker" where
  "GoogleBreaker_MarkFailure b = b"

definition GoogleBreaker_DoWithAcceptable ::
  "goerror option \<Rightarrow> time \<Rightarrow> float64 \<Rightarrow> (GoogleBreaker \<Rightarrow> GoogleBreaker) \<Rightarrow> fn_outcome \<Rightarrow>
   acceptance \<Rightarrow> time \<Rightarrow> GoogleBreaker \<Rightarrow> call_result \<times> GoogleBreaker" where
  "GoogleBreaker_DoWithAcceptable ctxErr now draw env fn acceptable now' b =
     (case ctxErr of Some e \<Rightarrow> (Returned (Some e), b)
      | None \<Rightarrow>
        (case GoogleBreaker_Allow now draw b of
           (Some e, b1) \<Rightarrow> (Returned (Some e), b1)
         | (None, b1) \<Rightarrow>
             (let b2 = env b1 in
              case fn of
                Panics \<Rightarrow> (Panicked, b2)
              | Returns err \<Rightarrow>
                  (case acceptable_outcome acceptable err of
                     None \<Rightarrow> (Panicked, b2)
                   | Some ok \<Rightarrow>
                       if ok then (Returned err, GoogleBreaker_MarkSuccess now' b2)
                       else (Returned err, GoogleBreaker_MarkFailure b2)))))"

definition GoogleBreaker_Do ::
  "goerror option \<Rightarrow> time \<Rightarrow> float64 \<Rightarrow> (GoogleBreaker \<Rightarrow> GoogleBreaker) \<Rightarrow> fn_outcome \<Rightarrow> time \<Rightarrow>
   GoogleBreaker \<Rightarrow> call_result \<times> GoogleBreaker" where
  "GoogleBreaker_Do ctxErr now draw env fn now' b =
     GoogleBreaker_DoWithAcceptable ctxErr now draw env fn None now' b"

definition GoogleBreaker_RejectProbability :: "time \<Rightarrow> GoogleBreaker \<Rightarrow> float64" where
  "GoogleBreaker_RejectProbability now b =
     (let (requests, accepts) = GoogleBreaker_snapshotLocked now b
      in GoogleBreaker_rejectProbabilityLocked b requests accepts)"

record GoogleSnapshot =
  gs_Requests :: int
  gs_Accepts :: int
  gs_RejectProbability :: float64
  gs_K :: float64
  gs_Window :: duration
  gs_Buckets :: int

definition GoogleBreaker_Snapshot :: "time \<Rightarrow> GoogleBreaker option \<Rightarrow> GoogleSnapshot" where
  "GoogleBreaker_Snapshot now ob =
     (case ob of
        None \<Rightarrow> \<lparr>gs_Requests = 0, gs_Accepts = 0, gs_RejectProbability = 0, gs_K = 0,
                 gs_Window = 0, gs_Buckets = 0\<rparr>
      | Some b \<Rightarrow>
          (let (requests, accepts) = GoogleBreaker_snapshotLocked now b
           in \<lparr>gs_Requests = requests, gs_Accepts = accepts,
               gs_RejectProbability = GoogleBreaker_rejectProbabilityLocked b requests accepts,
               gs_K = gb_k b, gs_Window = gb_window b, gs_Buckets = int (length (gb_buckets b))\<rparr>))"

section \<open>The window counts requests and accepts\<close>

datatype google_event = GRequest | GAccept

fun bump_googleBucket :: "google_event \<Rightarrow> googleBucket \<Rightarrow> googleBucket" where
  "bump_googleBucket GRequest bk = bk\<lparr>gk_requests := gk_requests bk + 1\<rparr>"
| "bump_googleBucket GAccept bk = bk\<lparr>gk_accepts := gk_accepts bk + 1\<rparr>"

lemma bump_googleBucket_fields [simp]:
  "gk_start (bump_googleBucket e bk) = gk_start bk"
  "gk_requests (bump_googleBucket e bk) = gk_requests bk + (if e = GRequest then 1 else 0)"
  "gk_accepts (bump_googleBucket e bk) = gk_accepts bk + (if e = GAccept then 1 else 0)"
  by (cases e; simp)+

interpretation google_requests: counter_ring gk_start googleBucket_at bump_googleBucket gk_requests
  "\<lambda>e. if e = GRequest then 1 else 0"
  by unfold_locales (simp_all add: googleBucket_at_def zero_googleBucket_def)

interpretation google_accepts: counter_ring gk_start googleBucket_at bump_googleBucket gk_accepts
  "\<lambda>e. if e = GAccept then 1 else 0"
  by unfold_locales (simp_all add: googleBucket_at_def zero_googleBucket_def)

definition GoogleBreaker_event :: "time \<times> google_event \<Rightarrow> GoogleBreaker \<Rightarrow> GoogleBreaker" where
  "GoogleBreaker_event = (\<lambda>(now, e) b. case e of
     GRequest \<Rightarrow> GoogleBreaker_countRequest now b
   | GAccept \<Rightarrow> GoogleBreaker_MarkSuccess now b)"

lemma GoogleBreaker_event_records:
  "GoogleBreaker_event (now, e) b = b\<lparr>gb_buckets :=
     record_event gk_start googleBucket_at bump_googleBucket (gb_bucketSize b) now e (gb_buckets b)\<rparr>"
  by (cases e) (simp_all add: GoogleBreaker_event_def GoogleBreaker_countRequest_def
      GoogleBreaker_MarkSuccess_def GoogleBreaker_currentBucketLocked_def record_event_def roll_def
      bucketIndex_def Let_def)

lemma GoogleBreaker_Allow_counts:
  "snd (GoogleBreaker_Allow now draw b) = GoogleBreaker_event (now, GRequest) b"
  by (simp add: GoogleBreaker_Allow_def GoogleBreaker_event_def split_beta Let_def)

lemma google_snapshot_sums:
  "GoogleBreaker_snapshotLocked now b =
     (window_sum gk_start gk_requests (gb_window b) now (gb_buckets b),
      window_sum gk_start gk_accepts (gb_window b) now (gb_buckets b))"
proof -
  have "fold (\<lambda>bk (requests, accepts).
        if gk_start bk = 0 \<or> time_Sub now (gk_start bk) \<ge> w then (requests, accepts)
        else (requests + gk_requests bk, accepts + gk_accepts bk)) bks (r, s) =
      (r + window_sum gk_start gk_requests w now bks, s + window_sum gk_start gk_accepts w now bks)"
    for w r s and bks :: "googleBucket list"
    by (induction bks arbitrary: r s) (auto simp: window_sum_def)
  then show ?thesis by (simp add: GoogleBreaker_snapshotLocked_def)
qed

definition GoogleBreaker_config :: "GoogleBreaker \<Rightarrow> bool" where
  "GoogleBreaker_config b \<longleftrightarrow> 0 < gb_k b \<and> 0 < gb_window b \<and> gb_window b \<le> maxDuration \<and>
     0 < gb_bucketSize b \<and> gb_buckets b \<noteq> []"

fun GoogleOption_ok :: "GoogleOption \<Rightarrow> bool" where
  "GoogleOption_ok (WithGoogleK k) = True"
| "GoogleOption_ok (WithGoogleWindow d) = int64_range d"
| "GoogleOption_ok (WithGoogleBuckets n) = int64_range n"

definition google_fresh :: "GoogleBreaker \<Rightarrow> bool" where
  "google_fresh b \<longleftrightarrow> 0 < gb_k b \<and> 0 < gb_window b \<and> gb_window b \<le> maxDuration \<and>
     gb_buckets b \<noteq> [] \<and> (\<forall>bk \<in> set (gb_buckets b). bk = zero_googleBucket)"

lemma fold_GoogleOption_fresh:
  "\<forall>f. Some f \<in> set opts \<longrightarrow> GoogleOption_ok f \<Longrightarrow> google_fresh b \<Longrightarrow>
   google_fresh (fold (\<lambda>opt b. case opt of None \<Rightarrow> b | Some f \<Rightarrow> apply_GoogleOption f b) opts b)"
proof (induction opts arbitrary: b)
  case (Cons opt opts)
  have "google_fresh (apply_GoogleOption f b)" if "GoogleOption_ok f" for f
    using that Cons.prems(2)
    by (cases f) (auto simp: google_fresh_def int64_range_def maxDuration_def)
  with Cons show ?case by (auto split: option.splits)
qed simp

lemma NewGoogle_fresh:
  assumes "\<forall>f. Some f \<in> set opts \<longrightarrow> GoogleOption_ok f"
  shows "google_fresh (NewGoogle opts)" "GoogleBreaker_config (NewGoogle opts)"
proof -
  define b0 where "b0 = \<lparr>gb_k = 2, gb_window = 10 * Second, gb_bucketSize = 0,
      gb_buckets = replicate 10 zero_googleBucket\<rparr>"
  define b where "b = fold (\<lambda>opt b. case opt of None \<Rightarrow> b | Some f \<Rightarrow> apply_GoogleOption f b) opts b0"
  have "google_fresh b0" by (simp add: b0_def google_fresh_def maxDuration_def)
  then have "google_fresh b" unfolding b_def by (rule fold_GoogleOption_fresh [OF assms])
  then show "google_fresh (NewGoogle opts)" "GoogleBreaker_config (NewGoogle opts)"
    unfolding NewGoogle_def b0_def [symmetric] b_def [symmetric] Let_def
    by (auto simp: google_fresh_def GoogleBreaker_config_def)
qed

lemma google_events_inv:
  assumes "GoogleBreaker_config b" "\<forall>bk \<in> set (gb_buckets b). bk = zero_googleBucket"
    and "sorted (map fst evs)" "\<forall>(t, e) \<in> set evs. in_epoch (gb_bucketSize b) t"
    and "\<forall>(t, e) \<in> set evs. t \<le> now"
  shows "let b' = fold GoogleBreaker_event evs b in
     gb_window b' = gb_window b \<and> gb_bucketSize b' = gb_bucketSize b \<and> gb_k b' = gb_k b \<and>
     length (gb_buckets b') = length (gb_buckets b) \<and>
     google_requests.ring_inv (gb_bucketSize b) now evs (gb_buckets b') \<and>
     google_accepts.ring_inv (gb_bucketSize b) now evs (gb_buckets b')"
  using assms(3-5)
proof (induction evs arbitrary: now rule: rev_induct)
  case Nil
  have "0 < gb_bucketSize b" "gb_buckets b \<noteq> []" "\<forall>bk \<in> set (gb_buckets b). gk_start bk = 0"
    using assms(1,2) by (auto simp: GoogleBreaker_config_def zero_googleBucket_def)
  with google_requests.ring_inv_empty [OF this] google_accepts.ring_inv_empty [OF this]
  show ?case by simp
next
  case (snoc p evs)
  obtain t e where p: "p = (t, e)" by (cases p)
  have "sorted (map fst evs)" "\<forall>(u, e) \<in> set evs. in_epoch (gb_bucketSize b) u"
    "\<forall>(u, e) \<in> set evs. u \<le> t" "t \<le> now" "in_epoch (gb_bucketSize b) t"
    using snoc.prems p by (auto simp: sorted_append)
  note prems = this
  note IH = snoc.IH [OF prems(1-3), unfolded Let_def]
  show ?case
    using IH prems(4,5)
      google_requests.ring_inv_record [of "gb_bucketSize b" t evs "gb_buckets (fold GoogleBreaker_event evs b)" e]
      google_accepts.ring_inv_record [of "gb_bucketSize b" t evs "gb_buckets (fold GoogleBreaker_event evs b)" e]
    by (auto simp: Let_def p GoogleBreaker_event_records
        intro: google_requests.ring_inv_later google_accepts.ring_inv_later)
qed

text \<open>The requests and accepts of a history that are still in the window.\<close>

definition google_recent :: "GoogleBreaker \<Rightarrow> time \<Rightarrow> (time \<times> google_event) list \<Rightarrow> google_event \<Rightarrow> int" where
  "google_recent b now evs e =
     int (length (filter (\<lambda>(t, e'). e' = e \<and> now - time_Truncate t (gb_bucketSize b) < gb_window b) evs))"

lemma google_recent_slice_weight:
  "google_recent b now evs e =
     slice_weight (\<lambda>e'. if e' = e then 1 else 0) (gb_bucketSize b) (\<lambda>s. now - s < gb_window b) evs"
  by (induction evs) (auto simp: google_recent_def slice_weight_def split: if_splits)

text \<open>
  C7. Whenever the buckets cover the window, whatever calls were made, in time order, the throttle's answer depends exactly on the requests
  and accepts whose slice started less than a window ago: that is what its snapshot counts, it
  admits when the probability computed from them is zero or at most the draw, and admitted or not,
  the request is counted.
\<close>

theorem GoogleBreaker_Allow_exact:
  assumes "\<forall>f. Some f \<in> set opts \<longrightarrow> GoogleOption_ok f"
    and "gb_window (NewGoogle opts) \<le> int (length (gb_buckets (NewGoogle opts))) * gb_bucketSize (NewGoogle opts)"
    and "sorted (map fst evs)" and "\<forall>(t, e) \<in> set evs. in_epoch (gb_bucketSize (NewGoogle opts)) t"
    and "\<forall>(t, e) \<in> set evs. t \<le> now"
  shows "let b = fold GoogleBreaker_event evs (NewGoogle opts);
         requests = google_recent b now evs GRequest; accepts = google_recent b now evs GAccept;
         prob = GoogleBreaker_rejectProbabilityLocked b requests accepts
     in GoogleBreaker_snapshotLocked now b = (requests, accepts) \<and>
        GoogleBreaker_RejectProbability now b = prob \<and>
        GoogleBreaker_Allow now draw b =
          (if prob \<le> 0 \<or> prob \<le> draw then None else Some ErrOpen,
           fold GoogleBreaker_event (evs @ [(now, GRequest)]) (NewGoogle opts))"
proof -
  let ?b = "fold GoogleBreaker_event evs (NewGoogle opts)"
  note new = NewGoogle_fresh [OF assms(1)]
  have zero: "\<forall>bk \<in> set (gb_buckets (NewGoogle opts)). bk = zero_googleBucket"
    using new(1) by (simp add: google_fresh_def)
  note inv = google_events_inv [OF new(2) zero assms(3-5), unfolded Let_def]
  have w: "0 < gb_window ?b" "gb_window ?b \<le> maxDuration"
    "gb_window ?b \<le> int (length (gb_buckets ?b)) * gb_bucketSize (NewGoogle opts)"
    using inv new(2) assms(2) by (auto simp: GoogleBreaker_config_def)
  have snap: "GoogleBreaker_snapshotLocked now ?b =
      (google_recent ?b now evs GRequest, google_recent ?b now evs GAccept)"
    using inv google_requests.window_sum_eq [OF _ w] google_accepts.window_sum_eq [OF _ w]
    by (simp add: google_snapshot_sums google_recent_slice_weight)
  have "snd (GoogleBreaker_Allow now draw ?b) =
      fold GoogleBreaker_event (evs @ [(now, GRequest)]) (NewGoogle opts)"
    by (simp add: GoogleBreaker_Allow_counts)
  moreover have "fst (GoogleBreaker_Allow now draw ?b) =
      (if GoogleBreaker_acceptedLocked draw ?b (google_recent ?b now evs GRequest)
          (google_recent ?b now evs GAccept) then None else Some ErrOpen)"
    by (simp add: GoogleBreaker_Allow_def snap)
  ultimately show ?thesis
    by (simp add: Let_def snap GoogleBreaker_RejectProbability_def GoogleBreaker_acceptedLocked_def
        prod_eq_iff)
qed

theorem GoogleBreaker_Allow_exact_witness:
  "GoogleBreaker_snapshotLocked (unixEpoch + 11 * Second) (fold GoogleBreaker_event
     [(unixEpoch + Second, GRequest), (unixEpoch + 3 * Second, GRequest), (unixEpoch + 4 * Second, GAccept)]
     (NewGoogle [])) = (1, 1)"
proof -
  let ?evs = "[(unixEpoch + Second, GRequest), (unixEpoch + 3 * Second, GRequest), (unixEpoch + 4 * Second, GAccept)]"
  let ?now = "unixEpoch + 11 * Second"
  have 1: "\<forall>f. Some f \<in> set [] \<longrightarrow> GoogleOption_ok f"
    "gb_window (NewGoogle []) \<le> int (length (gb_buckets (NewGoogle []))) * gb_bucketSize (NewGoogle [])"
    "sorted (map fst ?evs)" "\<forall>(t, e) \<in> set ?evs. t \<le> ?now"
    by (simp_all add: NewGoogle_def signed_divide_int_def)
  have 2: "\<forall>(t, e) \<in> set ?evs. in_epoch (gb_bucketSize (NewGoogle [])) t"
    by (simp add: in_epoch_def NewGoogle_def unixEpoch_def time_Truncate_def signed_divide_int_def
        int64_range_def)
  have "GoogleBreaker_snapshotLocked ?now (fold GoogleBreaker_event ?evs (NewGoogle [])) =
      (google_recent (fold GoogleBreaker_event ?evs (NewGoogle [])) ?now ?evs GRequest,
       google_recent (fold GoogleBreaker_event ?evs (NewGoogle [])) ?now ?evs GAccept)"
    using GoogleBreaker_Allow_exact [OF 1(1-3) 2 1(4)] unfolding Let_def by blast
  then show ?thesis
    by (simp add: google_recent_def GoogleBreaker_event_records NewGoogle_def signed_divide_int_def
        time_Truncate_def unixEpoch_def)
qed

section \<open>The probability\<close>

text \<open>
  The rejection probability is in [0, 1), as its comment says, in floating-point arithmetic: it
  is zero exactly when the window's requests are at most K times its accepts, so a healthy backend
  is never throttled, and even under total failure some draw admits a request.
\<close>

theorem GoogleBreaker_probability_bounds:
  assumes "0 \<le> requests" and "requests < 2 ^ 53" and "0 \<le> accepts" and "0 < gb_k b"
  shows "let p = GoogleBreaker_rejectProbabilityLocked b requests accepts
     in 0 \<le> p \<and> p \<le> 1 - 1 / 2 ^ 53 \<and>
        (p = 0 \<longleftrightarrow> of_int requests \<le> fmul (gb_k b) (float64_of_int accepts))"
proof -
  let ?w = "fmul (gb_k b) (float64_of_int accepts)" and ?r = "of_int requests :: rat"
  let ?q = "fsub ?r ?w / (?r + 1)"
  have ex: "float64_of_int requests = ?r" "float64_of_int (requests + 1) = ?r + 1"
    using assms float64_of_int_exact [of requests] float64_of_int_exact [of "requests + 1"] by simp_all
  have r: "0 \<le> ?r" "?r + 1 \<le> 2 ^ 53"
    using assms(1,2) of_int_le_iff [of "requests + 1" "2 ^ 53", where 'a = rat] by simp_all
  have w: "0 \<le> ?w" using assms by (simp add: fmul_def float64_of_int_def)
  have "fsub ?r ?w \<le> ?r"
    unfolding fsub_def by (rule fl_le_int) (use assms w in auto)
  then have "?q \<le> ?r / (?r + 1)" using r by (intro divide_right_mono) auto
  also have "?r / (?r + 1) \<le> of_int (2 ^ 53 - 1) * 2 powi (- 53)"
    using r by (simp add: field_simps power_int_minus)
  finally have "fl ?q \<le> fl (of_int (2 ^ 53 - 1) * 2 powi (- 53))" by (rule fl_mono)
  also have "\<dots> = 1 - 1 / 2 ^ 53"
    by (subst fl_scaled_int) (simp_all add: power_int_minus field_simps)
  finally have up: "fl ?q \<le> 1 - 1 / 2 ^ 53" .
  have sign: "fl ?q \<le> 0 \<longleftrightarrow> ?r \<le> ?w"
    using r fl_pos_iff [of ?q] fl_pos_iff [of "?r - ?w"] zero_less_divide_iff [of "fsub ?r ?w" "?r + 1"]
    by (auto simp: fsub_def simp flip: not_less)
  define prob where "prob = fl ?q"
  have "GoogleBreaker_rejectProbabilityLocked b requests accepts = (if prob < 0 then 0 else prob)"
    unfolding GoogleBreaker_rejectProbabilityLocked_def Let_def ex fdiv_def prob_def ..
  then show ?thesis using up sign unfolding prob_def [symmetric] Let_def by auto
qed

theorem GoogleBreaker_probability_bounds_witness:
  "let p = GoogleBreaker_rejectProbabilityLocked (NewGoogle []) 100 10
   in 0 \<le> p \<and> p \<le> 1 - 1 / 2 ^ 53 \<and> p \<noteq> 0"
proof -
  have k: "gb_k (NewGoogle []) = 2" by (simp add: NewGoogle_def)
  have "fmul 2 (float64_of_int 10) = 20"
    using float64_of_int_exact [of 10] fl_of_int [of 20] by (simp add: fmul_def)
  then show ?thesis
    using GoogleBreaker_probability_bounds [of 100 10 "NewGoogle []"] by (simp add: k Let_def)
qed

end
