(* ===== verification/TokenBucket.thy ===== *)
theory TokenBucket
  imports Float64
begin

text \<open>
  The token bucket of \<^verbatim>\<open>core/limit/token.go\<close> (\<^verbatim>\<open>Limiter\<close>), in the float64 arithmetic the code uses.
  \<^verbatim>\<open>Duration.Seconds\<close> of the standard library is \<open>dur_Seconds\<close>.

  The rate theorem carries the rounding: a call performs at most five roundings on the tokens it
  counts, so after \<open>n\<close> calls the bound is off by at most \<open>one_ulp ^ (5 * n)\<close>.
\<close>

definition dur_Seconds :: "duration \<Rightarrow> float64" where
  "dur_Seconds d =
     fadd (float64_of_int (d sdiv Second)) (fdiv (float64_of_int (d smod Second)) 1000000000)"

record Limiter =
  lm_rate :: float64
  lm_burst :: float64
  lm_tokens :: float64
  lm_last :: time

definition Limiter_New :: "time \<Rightarrow> int \<Rightarrow> int \<Rightarrow> Limiter" where
  "Limiter_New now rate burst =
     (let rate = (if rate \<le> 0 then 1 else rate);
          burst = (if burst \<le> 0 then rate else burst)
      in \<lparr>lm_rate = float64_of_int rate, lm_burst = float64_of_int burst,
          lm_tokens = float64_of_int burst, lm_last = now\<rparr>)"

definition Limiter_Allow :: "time \<Rightarrow> Limiter \<Rightarrow> bool \<times> Limiter" where
  "Limiter_Allow now l =
     (let l = l\<lparr>lm_tokens := fadd (lm_tokens l) (fmul (dur_Seconds (time_Sub now (lm_last l))) (lm_rate l))\<rparr>;
          l = (if lm_tokens l > lm_burst l then l\<lparr>lm_tokens := lm_burst l\<rparr> else l);
          l = l\<lparr>lm_last := now\<rparr>
      in if lm_tokens l < 1 then (False, l)
         else (True, l\<lparr>lm_tokens := fsub (lm_tokens l) 1\<rparr>))"

fun Limiter_run :: "time list \<Rightarrow> Limiter \<Rightarrow> bool list \<times> Limiter" where
  "Limiter_run [] l = ([], l)"
| "Limiter_run (t # ts) l =
     (let (ok, l1) = Limiter_Allow t l; (oks, l2) = Limiter_run ts l1 in (ok # oks, l2))"

section \<open>Refill\<close>

lemma sdivmod_nonneg: "0 \<le> d \<Longrightarrow> d sdiv Second = d div Second" "0 \<le> d \<Longrightarrow> d smod Second = d mod Second"
  by (simp_all add: signed_divide_int_def signed_modulo_int_def sgn_if)

lemma dur_Seconds_nonneg: "0 \<le> d \<Longrightarrow> 0 \<le> dur_Seconds d"
  by (simp add: dur_Seconds_def fadd_def fdiv_def float64_of_int_def sdivmod_nonneg
      pos_imp_zdiv_nonneg_iff)

lemma dur_Seconds_0 [simp]: "dur_Seconds 0 = 0"
  by (simp add: dur_Seconds_def fadd_def fdiv_def float64_of_int_def sdivmod_nonneg)

lemma dur_Seconds_upper:
  assumes "0 \<le> d"
  shows "dur_Seconds d \<le> of_int d / 10 ^ 9 * one_ulp ^ 2"
proof -
  let ?s = "of_int (d div Second) :: rat" and ?n = "of_int (d mod Second) :: rat"
  have "d = Second * (d div Second) + d mod Second" by simp
  then have "of_int d = (of_int (Second * (d div Second) + d mod Second) :: rat)" by (rule arg_cong)
  then have split: "of_int d / 10 ^ 9 = ?s + ?n / 10 ^ 9" by (simp only: of_int_add of_int_mult) simp
  have 1: "fl ?s \<le> ?s * one_ulp" using assms by (intro fl_upper) (simp add: pos_imp_zdiv_nonneg_iff)
  have "\<bar>d mod Second\<bar> \<le> 2 ^ 53"
    using pos_mod_bound [of Second d] pos_mod_sign [of Second d] by simp
  then have n: "float64_of_int (d mod Second) = ?n" by (rule float64_of_int_exact)
  have 2: "fl (?n / 1000000000) \<le> ?n / 10 ^ 9 * one_ulp" using fl_upper [of "?n / 1000000000"] by simp
  have "dur_Seconds d = fl (fl ?s + fl (?n / 1000000000))"
    using assms n by (simp add: dur_Seconds_def sdivmod_nonneg fadd_def fdiv_def float64_of_int_def)
  also have "\<dots> \<le> (fl ?s + fl (?n / 1000000000)) * one_ulp"
    using assms by (intro fl_upper add_nonneg_nonneg) (simp_all add: pos_imp_zdiv_nonneg_iff)
  also have "\<dots> \<le> (?s * one_ulp + ?n / 10 ^ 9 * one_ulp) * one_ulp"
    using 1 2 by (intro mult_right_mono add_mono) simp_all
  also have "\<dots> = of_int d / 10 ^ 9 * one_ulp ^ 2"
    unfolding split by (simp only: power2_eq_square distrib_right mult.assoc)
  finally show ?thesis .
qed

text \<open>One call: what it may add, five roundings at most.\<close>

definition Limiter_ok :: "Limiter \<Rightarrow> bool" where
  "Limiter_ok l \<longleftrightarrow> 0 \<le> lm_tokens l \<and> lm_tokens l \<le> lm_burst l \<and> 0 \<le> lm_rate l \<and> 1 \<le> lm_burst l \<and>
     fl (lm_burst l) = lm_burst l"

lemma Limiter_Allow_step:
  assumes "Limiter_ok l" "lm_last l \<le> now" "Limiter_Allow now l = (ok, l')"
  shows "Limiter_ok l'" "lm_last l' = now" "lm_rate l' = lm_rate l" "lm_burst l' = lm_burst l"
    and "lm_tokens l' + of_bool ok \<le>
      (lm_tokens l + lm_rate l * (of_int (now - lm_last l) / 10 ^ 9)) * one_ulp ^ 5"
proof -
  define d where "d = time_Sub now (lm_last l)"
  define r where "r = fmul (dur_Seconds d) (lm_rate l)"
  define x where "x = min (fadd (lm_tokens l) r) (lm_burst l)"
  define exact where "exact = lm_rate l * (of_int (now - lm_last l) / 10 ^ 9)"
  have d: "0 \<le> d" "d \<le> now - lm_last l"
    using assms(2) by (auto simp: d_def time_Sub_def maxDuration_def minDuration_def)
  have ex: "0 \<le> exact" using assms(1,2) by (simp add: exact_def Limiter_ok_def)
  have r0: "0 \<le> r" using dur_Seconds_nonneg [OF d(1)] assms(1) by (simp add: r_def fmul_def Limiter_ok_def)
  have "r \<le> dur_Seconds d * lm_rate l * one_ulp"
    using dur_Seconds_nonneg [OF d(1)] assms(1) by (simp add: r_def fmul_def fl_upper Limiter_ok_def)
  also have "\<dots> \<le> (of_int (now - lm_last l) / 10 ^ 9 * one_ulp ^ 2) * lm_rate l * one_ulp"
  proof (intro mult_right_mono)
    have "(of_int d :: rat) / 10 ^ 9 * one_ulp ^ 2 \<le> of_int (now - lm_last l) / 10 ^ 9 * one_ulp ^ 2"
      using d(2) by (intro mult_right_mono divide_right_mono) (simp_all flip: of_int_diff)
    then show "dur_Seconds d \<le> of_int (now - lm_last l) / 10 ^ 9 * one_ulp ^ 2"
      using dur_Seconds_upper [OF d(1)] by (rule order_trans [rotated])
  qed (use assms(1) in \<open>simp_all add: Limiter_ok_def\<close>)
  also have "\<dots> = exact * one_ulp ^ 3"
    by (simp only: exact_def power2_eq_square power3_eq_cube mult.assoc mult.commute mult.left_commute)
  finally have r: "r \<le> exact * one_ulp ^ 3" .
  have x0: "0 \<le> x" "x \<le> lm_burst l"
    using assms(1) r0 by (auto simp: x_def fadd_def Limiter_ok_def)
  have "x \<le> (lm_tokens l + r) * one_ulp"
    using assms(1) r0 fl_upper [of "lm_tokens l + r"] by (auto simp: x_def fadd_def Limiter_ok_def min_le_iff_disj)
  also have "\<dots> \<le> (lm_tokens l * one_ulp ^ 3 + exact * one_ulp ^ 3) * one_ulp"
    using r assms(1) mult_left_mono [of 1 "one_ulp ^ 3" "lm_tokens l"]
    by (intro mult_right_mono add_mono) (simp_all add: Limiter_ok_def one_le_power)
  also have "\<dots> = (lm_tokens l + exact) * one_ulp ^ 4"
    by (simp add: distrib_right eval_nat_numeral mult.assoc)
  finally have x: "x \<le> (lm_tokens l + exact) * one_ulp ^ 4" .
  have res: "(ok, l') = (if x < 1 then (False, l\<lparr>lm_tokens := x, lm_last := now\<rparr>)
      else (True, l\<lparr>lm_tokens := fsub x 1, lm_last := now\<rparr>))"
    using assms(3) by (auto simp: Limiter_Allow_def Let_def x_def r_def d_def min_def split: if_splits)
  show "lm_last l' = now" "lm_rate l' = lm_rate l" "lm_burst l' = lm_burst l"
    using res by (simp_all split: if_splits)
  have dec: "0 \<le> fsub x 1" "fsub x 1 \<le> lm_burst l" "fsub x 1 \<le> (x - 1) * one_ulp" if "1 \<le> x"
    using that x0(2) fl_mono [of "x - 1" "lm_burst l"] fl_upper [of "x - 1"] assms(1)
    by (simp_all add: fsub_def Limiter_ok_def)
  show "Limiter_ok l'" using res dec x0 assms(1) by (auto simp: Limiter_ok_def split: if_splits)
  have "lm_tokens l' + of_bool ok \<le> x * one_ulp"
  proof (cases "x < 1")
    case True
    then show ?thesis using res x0(1) mult_left_mono [of 1 one_ulp x] by simp
  next
    case False
    then have "lm_tokens l' + of_bool ok \<le> (x - 1) * one_ulp + 1" using res dec(3) by simp
    then show ?thesis using one_ulp_ge(1) unfolding left_diff_distrib by linarith
  qed
  also have "\<dots> \<le> (lm_tokens l + exact) * one_ulp ^ 4 * one_ulp"
    using x by (intro mult_right_mono) simp_all
  also have "\<dots> = (lm_tokens l + exact) * one_ulp ^ 5"
    by (simp add: eval_nat_numeral mult.assoc)
  finally show "lm_tokens l' + of_bool ok \<le>
      (lm_tokens l + lm_rate l * (of_int (now - lm_last l) / 10 ^ 9)) * one_ulp ^ 5"
    by (simp only: exact_def)
qed

section \<open>Rate and burst\<close>

definition admitted :: "bool list \<Rightarrow> nat" where
  "admitted oks = length (filter (\<lambda>ok. ok) oks)"

lemma Limiter_run_bound:
  assumes "Limiter_ok l" "sorted (lm_last l # ts)"
  shows "of_nat (admitted (fst (Limiter_run ts l))) + lm_tokens (snd (Limiter_run ts l)) \<le>
     (lm_tokens l + lm_rate l * (of_int (last (lm_last l # ts) - lm_last l) / 10 ^ 9)) *
       one_ulp ^ (5 * length ts) \<and> 0 \<le> lm_tokens (snd (Limiter_run ts l))"
  using assms
proof (induction ts arbitrary: l)
  case Nil
  then show ?case by (simp add: admitted_def Limiter_ok_def)
next
  case (Cons t ts)
  obtain ok l1 where l1: "Limiter_Allow t l = (ok, l1)" by (cases "Limiter_Allow t l")
  note step = Limiter_Allow_step [OF Cons.prems(1) _ l1]
  have le: "lm_last l \<le> t" using Cons.prems(2) by simp
  let ?E1 = "lm_rate l * (of_int (t - lm_last l) / 10 ^ 9)"
  let ?E2 = "lm_rate l * (of_int (last (t # ts) - t) / 10 ^ 9)"
  let ?out = "of_nat (admitted (fst (Limiter_run ts l1))) + lm_tokens (snd (Limiter_run ts l1))"
  let ?e = "one_ulp ^ (5 * length ts)" and ?e5 = "one_ulp ^ 5"
  have last: "t \<le> last (t # ts)" using Cons.prems(2) by (cases ts) auto
  have E2: "0 \<le> ?E2" using last Cons.prems(1) by (simp add: Limiter_ok_def)
  have pow: "1 \<le> ?e" "1 \<le> ?e5" by (simp_all add: one_le_power)
  have IH: "?out \<le> (lm_tokens l1 + ?E2) * ?e" "0 \<le> lm_tokens (snd (Limiter_run ts l1))"
    using Cons.IH [of l1] step(1-4) [OF le] Cons.prems(2) by simp_all
  have "of_bool ok + ?out \<le> of_bool ok * ?e + (lm_tokens l1 + ?E2) * ?e"
    using IH(1) pow(1) by (intro add_mono) (auto split: if_splits)
  also have "\<dots> = (lm_tokens l1 + of_bool ok + ?E2) * ?e" by (simp only: distrib_right)
  also have "\<dots> \<le> ((lm_tokens l + ?E1) * ?e5 + ?E2 * ?e5) * ?e"
    using step(5) [OF le] mult_left_mono [OF pow(2) E2] pow(1) by (intro mult_right_mono add_mono) simp_all
  also have "\<dots> = (lm_tokens l + (?E1 + ?E2)) * (?e5 * ?e)"
    by (simp only: distrib_right mult.assoc add.assoc)
  also have "?E1 + ?E2 = lm_rate l * (of_int (last (t # ts) - lm_last l) / 10 ^ 9)"
    by (simp add: field_simps)
  also have "?e5 * ?e = one_ulp ^ (5 * length (t # ts))" by (simp add: power_add)
  finally have bound: "of_bool ok + ?out \<le> (lm_tokens l +
      lm_rate l * (of_int (last (t # ts) - lm_last l) / 10 ^ 9)) * one_ulp ^ (5 * length (t # ts))" .
  have snd: "snd (Limiter_run (t # ts) l) = snd (Limiter_run ts l1)"
    using l1 by (simp add: split_beta Let_def)
  have out: "of_nat (admitted (fst (Limiter_run (t # ts) l))) + lm_tokens (snd (Limiter_run ts l1)) =
      of_bool ok + ?out"
    using l1 by (simp add: admitted_def split_beta Let_def)
  have "last (lm_last l # t # ts) = last (t # ts)" by simp
  then show ?case using bound IH(2) unfolding snd out by (simp only: simp_thms)
qed

lemma Limiter_New_ok: "Limiter_ok (Limiter_New now rate burst)"
  using fl_mono [of 1 "of_int b" for b] fl_of_int [of 1]
  by (auto simp: Limiter_New_def Limiter_ok_def float64_of_int_def Let_def)

text \<open>
  C8. The token bucket keeps its rate, in floating-point arithmetic: of any calls made in time
  order, no more are admitted than the burst plus the rate times the time that passed, up to the
  rounding of five operations per call.
\<close>

theorem Limiter_rate_bound:
  assumes "sorted (t0 # ts)"
  shows "let l = Limiter_New t0 rate burst
     in of_nat (admitted (fst (Limiter_run ts l))) \<le>
        (lm_burst l + lm_rate l * (of_int (last (t0 # ts) - t0) / 10 ^ 9)) * one_ulp ^ (5 * length ts)"
proof -
  let ?l = "Limiter_New t0 rate burst"
  have "lm_last ?l = t0" "lm_tokens ?l = lm_burst ?l" by (simp_all add: Limiter_New_def Let_def)
  then show ?thesis
    using Limiter_run_bound [OF Limiter_New_ok, of t0 rate burst ts] assms by (simp add: Let_def)
qed

theorem Limiter_rate_bound_witness:
  "let l = Limiter_New 0 1 1
   in of_nat (admitted (fst (Limiter_run [0, Second, Second] l))) \<le>
      (lm_burst l + lm_rate l * (of_int (Second - 0) / 10 ^ 9)) * one_ulp ^ 15"
proof -
  have "sorted (0 # [0, Second, Second :: int])" by simp
  from Limiter_rate_bound [OF this, of 1 1] show ?thesis by simp
qed

lemma Limiter_Allow_same_instant:
  assumes "Limiter_ok l" "lm_last l = t" "lm_tokens l = of_int k" "k \<le> 2 ^ 53"
  shows "Limiter_Allow t l = (1 \<le> k, l\<lparr>lm_tokens := of_int (if 1 \<le> k then k - 1 else k)\<rparr>)"
proof -
  have k: "0 \<le> k" "\<bar>k\<bar> \<le> 2 ^ 53" "\<bar>k - 1\<bar> \<le> 2 ^ 53"
    using assms by (auto simp: Limiter_ok_def)
  have "fl (of_int k - 1) = of_int (k - 1)" using fl_of_int [OF k(3)] by simp
  moreover have "time_Sub t t = 0" by (simp add: time_Sub_def maxDuration_def minDuration_def)
  ultimately show ?thesis
    using assms fl_of_int [OF k(2)]
    by (auto simp: Limiter_Allow_def Let_def fadd_def fmul_def fsub_def Limiter_ok_def)
qed

text \<open>
  A new bucket admits exactly \<^verbatim>\<open>burst\<close> calls made at one instant: the first \<^verbatim>\<open>burst\<close> of any
  number of them succeed and all the others fail.
\<close>

theorem Limiter_burst_exact:
  assumes "0 < burst" and "burst \<le> 2 ^ 53"
  shows "fst (Limiter_run (replicate n t) (Limiter_New t rate burst)) =
     map (\<lambda>i. int i < burst) [0..<n]"
proof -
  have run: "fst (Limiter_run (replicate n t) l) = map (\<lambda>i. int i < k) [0..<n]"
    if "Limiter_ok l" "lm_last l = t" "lm_tokens l = of_int k" "k \<le> 2 ^ 53" for l k
    using that
  proof (induction n arbitrary: l k)
    case (Suc n)
    note step = Limiter_Allow_same_instant [OF Suc.prems]
    let ?k = "if 1 \<le> k then k - 1 else k"
    have "Limiter_ok (l\<lparr>lm_tokens := of_int ?k\<rparr>)"
      using Suc.prems by (auto simp: Limiter_ok_def)
    from Suc.IH [OF this, of ?k] Suc.prems
    have "fst (Limiter_run (replicate n t) (l\<lparr>lm_tokens := of_int ?k\<rparr>)) = map (\<lambda>i. int i < ?k) [0..<n]"
      by simp
    moreover have "0 \<le> k" using Suc.prems by (simp add: Limiter_ok_def)
    then have "map (\<lambda>i. int i < k) [0..<Suc n] = (1 \<le> k) # map (\<lambda>i. int i < ?k) [0..<n]"
      by (auto simp: map_upt_Suc simp del: upt_Suc)
    ultimately show ?case using step by (simp add: split_beta Let_def del: upt_Suc)
  qed simp
  show ?thesis
    using assms float64_of_int_exact [of burst]
    by (intro run Limiter_New_ok) (simp_all add: Limiter_New_def Let_def)
qed

theorem Limiter_burst_exact_witness:
  "fst (Limiter_run (replicate 3 7) (Limiter_New 7 5 2)) = [True, True, False]"
  using Limiter_burst_exact [of 2 3 7 5] by (simp add: upt_rec)

end
