(* ===== verification/SlidingWindow.thy ===== *)
theory SlidingWindow
  imports Rolling
begin

text \<open>
  The sliding-window limiter of \<^verbatim>\<open>core/limit/sliding.go\<close>. Its buckets are a \<open>counter_ring\<close> whose
  events are the admitted amounts. The 64-bit additions of \<^verbatim>\<open>AllowN\<close> and \<^verbatim>\<open>countLocked\<close> wrap around.
\<close>

section \<open>The limiter\<close>

record swBucket =
  sw_start :: time
  sw_count :: int

record SlidingWindowLimiter =
  sl_quota :: int
  sl_window :: duration
  sl_bucketSize :: duration
  sl_buckets :: "swBucket list"

definition zero_swBucket :: swBucket where "zero_swBucket = \<lparr>sw_start = 0, sw_count = 0\<rparr>"
definition swBucket_at :: "time \<Rightarrow> swBucket" where "swBucket_at s = zero_swBucket\<lparr>sw_start := s\<rparr>"

definition NewSlidingWindow :: "int \<Rightarrow> duration \<Rightarrow> int \<Rightarrow> SlidingWindowLimiter" where
  "NewSlidingWindow quota window buckets =
     (let quota = (if quota \<le> 0 then 1 else quota);
          window = (if window \<le> 0 then Second else window);
          buckets = (if buckets \<le> 0 then 10 else buckets);
          bucketSize = window sdiv buckets;
          (bucketSize, buckets) =
            (if bucketSize \<le> 0
             then (Nanosecond, let n = window sdiv Nanosecond in if n \<le> 0 then 1 else n)
             else (bucketSize, buckets))
      in \<lparr>sl_quota = quota, sl_window = window, sl_bucketSize = bucketSize,
          sl_buckets = replicate (nat buckets) zero_swBucket\<rparr>)"

definition SlidingWindowLimiter_countLocked :: "time \<Rightarrow> SlidingWindowLimiter \<Rightarrow> int" where
  "SlidingWindowLimiter_countLocked now l =
     fold (\<lambda>b total.
        if sw_start b = 0 \<or> time_Sub now (sw_start b) \<ge> sl_window l then total
        else wrap64 (total + sw_count b)) (sl_buckets l) 0"

definition SlidingWindowLimiter_bucketAt ::
  "time \<Rightarrow> SlidingWindowLimiter \<Rightarrow> nat \<times> SlidingWindowLimiter" where
  "SlidingWindowLimiter_bucketAt now l =
     (let start = time_Truncate now (sl_bucketSize l);
          idx = (time_UnixNano start sdiv sl_bucketSize l) smod int (length (sl_buckets l));
          idx = nat (if idx < 0 then - idx else idx)
      in if sw_start (sl_buckets l ! idx) \<noteq> start
         then (idx, l\<lparr>sl_buckets := (sl_buckets l)[idx := swBucket_at start]\<rparr>)
         else (idx, l))"

definition SlidingWindowLimiter_AllowN ::
  "time \<Rightarrow> int \<Rightarrow> SlidingWindowLimiter option \<Rightarrow> bool \<times> SlidingWindowLimiter option" where
  "SlidingWindowLimiter_AllowN now n ol =
     (case ol of None \<Rightarrow> (True, None)
      | Some l \<Rightarrow>
          (let n = (if n \<le> 0 then 1 else n);
               (i, l) = SlidingWindowLimiter_bucketAt now l in
           if wrap64 (SlidingWindowLimiter_countLocked now l + n) > sl_quota l then (False, Some l)
           else let current = sl_buckets l ! i in
             (True, Some (l\<lparr>sl_buckets := (sl_buckets l)
                [i := current\<lparr>sw_count := wrap64 (sw_count current + n)\<rparr>]\<rparr>))))"

definition SlidingWindowLimiter_Allow ::
  "time \<Rightarrow> SlidingWindowLimiter option \<Rightarrow> bool \<times> SlidingWindowLimiter option" where
  "SlidingWindowLimiter_Allow now ol = SlidingWindowLimiter_AllowN now 1 ol"

definition SlidingWindowLimiter_Count :: "time \<Rightarrow> SlidingWindowLimiter option \<Rightarrow> int" where
  "SlidingWindowLimiter_Count now ol =
     (case ol of None \<Rightarrow> 0 | Some l \<Rightarrow> SlidingWindowLimiter_countLocked now l)"

fun sliding_run :: "(time \<times> int) list \<Rightarrow> SlidingWindowLimiter option \<Rightarrow>
    bool list \<times> SlidingWindowLimiter option" where
  "sliding_run [] l = ([], l)"
| "sliding_run ((t, n) # cs) l =
     (let (ok, l1) = SlidingWindowLimiter_AllowN t n l; (oks, l2) = sliding_run cs l1
      in (ok # oks, l2))"

section \<open>The window counts what was admitted\<close>

definition bump_swBucket :: "int \<Rightarrow> swBucket \<Rightarrow> swBucket" where
  "bump_swBucket n b = b\<lparr>sw_count := sw_count b + n\<rparr>"

interpretation sliding: counter_ring sw_start swBucket_at bump_swBucket sw_count "\<lambda>n. n"
  by unfold_locales (simp_all add: swBucket_at_def zero_swBucket_def bump_swBucket_def)

lemma countLocked_sum:
  "SlidingWindowLimiter_countLocked now l =
     wrap64 (window_sum sw_start sw_count (sl_window l) now (sl_buckets l))"
proof -
  have "fold (\<lambda>b total. if sw_start b = 0 \<or> time_Sub now (sw_start b) \<ge> w then total
        else wrap64 (total + sw_count b)) bs (wrap64 a) = wrap64 (a + window_sum sw_start sw_count w now bs)"
    for w a and bs :: "swBucket list"
    by (induction bs arbitrary: a) (simp_all add: window_sum_def wrap64_add add.assoc)
  from this [of "sl_window l" "sl_buckets l" 0] show ?thesis
    by (simp add: SlidingWindowLimiter_countLocked_def wrap64_id int64_range_def)
qed

lemma bucketAt_roll:
  "SlidingWindowLimiter_bucketAt now l =
     (bucketIndex now (sl_bucketSize l) (length (sl_buckets l)),
      l\<lparr>sl_buckets := roll sw_start swBucket_at (sl_bucketSize l) now (sl_buckets l)\<rparr>)"
  by (simp add: SlidingWindowLimiter_bucketAt_def bucketIndex_def roll_def Let_def)

definition sliding_config :: "SlidingWindowLimiter \<Rightarrow> bool" where
  "sliding_config l \<longleftrightarrow> 0 < sl_quota l \<and> int64_range (sl_quota l) \<and>
     0 < sl_bucketSize l \<and> sl_buckets l \<noteq> [] \<and> int (length (sl_buckets l)) * sl_bucketSize l \<le> sl_window l \<and>
     sl_window l < (int (length (sl_buckets l)) + 1) * sl_bucketSize l \<and> sl_window l \<le> maxDuration"

text \<open>
  The buckets span the window but for the remainder of the division, and that is what the limiter looks back on: a
  bucket that is older than the span and younger than the window is the one that the current bucket replaces. What is
  still in the span at a time:
\<close>

definition sl_span :: "SlidingWindowLimiter \<Rightarrow> duration" where
  "sl_span l = int (length (sl_buckets l)) * sl_bucketSize l"

definition in_window :: "SlidingWindowLimiter \<Rightarrow> time \<Rightarrow> (time \<times> int) list \<Rightarrow> int" where
  "in_window l now hist =
     slice_weight (\<lambda>n. n) (sl_bucketSize l) (\<lambda>s. now - s < sl_span l) hist"

lemma window_is_span:
  assumes "sliding_config l" "in_epoch (sl_bucketSize l) now"
    and "sliding.ring_inv (sl_bucketSize l) now hist xs" "length xs = length (sl_buckets l)"
    and "sw_start (xs ! bucketIndex now (sl_bucketSize l) (length xs)) = time_Truncate now (sl_bucketSize l)"
  shows "window_sum sw_start sw_count (sl_window l) now xs = window_sum sw_start sw_count (sl_span l) now xs"
proof -
  let ?bs = "sl_bucketSize l" and ?n = "int (length xs)"
  have bs: "0 < ?bs" and n: "0 < length xs" and w: "sl_span l \<le> sl_window l" "sl_window l < ?n * ?bs + ?bs"
    "0 < sl_span l" "sl_window l \<le> maxDuration" and sp: "sl_span l = ?n * ?bs"
    using assms(1,4) by (auto simp: sliding_config_def sl_span_def algebra_simps)
  have none: "\<not> (sl_span l \<le> now - sw_start (xs ! i) \<and> now - sw_start (xs ! i) < sl_window l)"
    if i: "i < length xs" "sw_start (xs ! i) \<noteq> 0" for i
  proof
    assume old: "sl_span l \<le> now - sw_start (xs ! i) \<and> now - sw_start (xs ! i) < sl_window l"
    from assms(3) i obtain t where t: "in_epoch ?bs t" "sw_start (xs ! i) = time_Truncate t ?bs"
      "i = bucketIndex t ?bs (length xs)" by (rule sliding.ring_inv_liveE)
    obtain a b where ab: "time_Truncate now ?bs = ?bs * a" "time_Truncate t ?bs = ?bs * b"
      using Truncate_mult [OF bs] by (meson dvdE)
    have "?bs * (b + ?n) < ?bs * (a + 1)" "?bs * a < ?bs * (b + ?n + 1)"
      using old t(2) ab w sp Truncate_gt [OF bs, of now] Truncate_le [OF bs, of now] by (simp_all add: algebra_simps)
    then have a: "a = b + ?n" using bs by simp
    then have "time_Truncate now ?bs - unixEpoch = (time_Truncate t ?bs - unixEpoch) + ?n * ?bs"
      by (simp add: ab algebra_simps)
    then have "(time_Truncate now ?bs - unixEpoch) div ?bs = (time_Truncate t ?bs - unixEpoch) div ?bs + ?n"
      using bs by (simp only: div_mult_self1)
    then have "int (bucketIndex now ?bs (length xs)) = int (bucketIndex t ?bs (length xs))"
      unfolding bucketIndex_in_epoch [OF assms(2) bs n] bucketIndex_in_epoch [OF t(1) bs n] by simp
    then have "bucketIndex now ?bs (length xs) = i" using t(3) by simp
    then have "a = b" using assms(5) t(2) ab bs by auto
    then show False using a n by simp
  qed
  have "(if sw_start b = 0 \<or> time_Sub now (sw_start b) \<ge> sl_window l then 0 else sw_count b) =
      (if sw_start b = 0 \<or> time_Sub now (sw_start b) \<ge> sl_span l then 0 else sw_count b)" if "b \<in> set xs" for b
    using that none w by (fastforce simp: in_set_conv_nth time_Sub_ge)
  then show ?thesis unfolding window_sum_def by (simp cong: map_cong)
qed

text \<open>A request for no events or fewer counts as one.\<close>

definition amount :: "int \<Rightarrow> int" where "amount n = (if n \<le> 0 then 1 else n)"

lemma amount_pos: "0 < amount n" by (simp add: amount_def)

definition sliding_inv :: "SlidingWindowLimiter \<Rightarrow> time \<Rightarrow> (time \<times> int) list \<Rightarrow> bool" where
  "sliding_inv l latest hist \<longleftrightarrow>
     sliding_config l \<and> sliding.ring_inv (sl_bucketSize l) latest hist (sl_buckets l) \<and>
     (\<forall>(t, n) \<in> set hist. 0 \<le> n) \<and> (\<forall>u \<ge> latest. in_window l u hist \<le> sl_quota l)"

lemma in_window_mono:
  "\<forall>(t, n) \<in> set hist. 0 \<le> n \<Longrightarrow> u \<le> v \<Longrightarrow> in_window l v hist \<le> in_window l u hist"
  by (induction hist) (auto simp: in_window_def slice_weight_def)

lemma in_window_nonneg: "\<forall>(t, n) \<in> set hist. 0 \<le> n \<Longrightarrow> 0 \<le> in_window l u hist"
  by (induction hist) (auto simp: in_window_def slice_weight_def)

lemma slice_weight_subset:
  "\<forall>(t, n) \<in> set hist. 0 \<le> n \<Longrightarrow> (\<And>s. P s \<Longrightarrow> Q s) \<Longrightarrow>
   0 \<le> slice_weight (\<lambda>n. n) bs P hist \<and> slice_weight (\<lambda>n. n) bs P hist \<le> slice_weight (\<lambda>n. n) bs Q hist"
  by (induction hist) (auto simp: slice_weight_def)

lemma sliding_inv_later: "sliding_inv l latest hist \<Longrightarrow> latest \<le> now \<Longrightarrow> sliding_inv l now hist"
  by (auto simp: sliding_inv_def intro: sliding.ring_inv_later)

lemma record_zero:
  "record_event sw_start swBucket_at bump_swBucket bs now 0 xs = roll sw_start swBucket_at bs now xs"
  by (simp add: record_event_def bump_swBucket_def Let_def)

lemma AllowN_step:
  assumes inv: "sliding_inv l now hist" and now: "in_epoch (sl_bucketSize l) now"
    and n: "n = amount k" "n + sl_quota l < 2 ^ 63"
  defines "ok \<equiv> in_window l now hist + n \<le> sl_quota l"
  defines "l' \<equiv> l\<lparr>sl_buckets := record_event sw_start swBucket_at bump_swBucket (sl_bucketSize l) now
     (if ok then n else 0) (sl_buckets l)\<rparr>"
  shows "SlidingWindowLimiter_AllowN now k (Some l) = (ok, Some l')"
    and "sliding_inv l' now (hist @ [(now, if ok then n else 0)])"
proof -
  let ?bs = "sl_bucketSize l" and ?w = "sl_span l"
  let ?i = "bucketIndex now ?bs (length (sl_buckets l))"
  let ?r = "roll sw_start swBucket_at ?bs now (sl_buckets l)"
  have cfg: "sliding_config l" and ring: "sliding.ring_inv ?bs now hist (sl_buckets l)"
    and nn: "\<forall>(t, n) \<in> set hist. 0 \<le> n" and q: "\<forall>u \<ge> now. in_window l u hist \<le> sl_quota l"
    using inv by (auto simp: sliding_inv_def)
  have w: "0 < ?w" "?w \<le> maxDuration" "?w \<le> int (length (sl_buckets l)) * ?bs"
    using cfg by (auto simp: sliding_config_def sl_span_def)
  have pos: "0 < n" using n(1) by (simp add: amount_pos)
  have rolled: "sliding.ring_inv ?bs now (hist @ [(now, 0)]) ?r"
    using sliding.ring_inv_record [OF ring now, of 0] by (simp add: record_zero)
  have range: "0 \<le> in_window l now hist" "in_window l now hist \<le> sl_quota l"
    using in_window_nonneg [OF nn] q by auto
  have i: "?i < length (sl_buckets l)" using w by (intro bucketIndex_less) auto
  have start: "sw_start (?r ! ?i) = time_Truncate now ?bs"
    using i by (auto simp: roll_def Let_def swBucket_at_def)
  have sum: "window_sum sw_start sw_count (sl_window l) now ?r = in_window l now hist"
    using window_is_span [OF cfg now rolled] start sliding.window_sum_eq [OF rolled w(1,2)] w(3) by (simp add: in_window_def)
  have live: "sw_start (?r ! ?i) \<noteq> 0" unfolding start by (rule sliding.epoch_pos [OF now])
  have "?i < length ?r" using i by simp
  from rolled this live obtain t where "sw_start (?r ! ?i) = time_Truncate t ?bs"
    "sw_count (?r ! ?i) = slice_weight (\<lambda>n. n) ?bs (\<lambda>s. s = time_Truncate t ?bs) (hist @ [(now, 0)])"
    by (rule sliding.ring_inv_liveE)
  then have "sw_count (?r ! ?i) = slice_weight (\<lambda>n. n) ?bs (\<lambda>s. s = time_Truncate now ?bs) hist"
    by (simp add: start)
  moreover have "now - time_Truncate now ?bs < ?w"
  proof -
    have "0 < ?bs" "1 \<le> int (length (sl_buckets l))" using cfg by (auto simp: sliding_config_def Suc_le_eq)
    then show ?thesis
      using Truncate_gt [of ?bs now] mult_right_mono [of 1 "int (length (sl_buckets l))" ?bs]
      unfolding sl_span_def by linarith
  qed
  ultimately have cur: "0 \<le> sw_count (?r ! ?i)" "sw_count (?r ! ?i) \<le> in_window l now hist"
    using slice_weight_subset [OF nn, of "\<lambda>s. s = time_Truncate now ?bs" "\<lambda>s. now - s < ?w" ?bs]
    by (auto simp: in_window_def)
  have wr: "wrap64 (in_window l now hist) = in_window l now hist"
    "wrap64 (in_window l now hist + n) = in_window l now hist + n"
    "wrap64 (sw_count (?r ! ?i) + n) = sw_count (?r ! ?i) + n"
    using range cur n(2) pos cfg by (auto intro!: wrap64_id simp: int64_range_def sliding_config_def)
  show "SlidingWindowLimiter_AllowN now k (Some l) = (ok, Some l')"
    using wr unfolding SlidingWindowLimiter_AllowN_def amount_def [symmetric] n(1) [symmetric]
    by (simp add: bucketAt_roll countLocked_sum sum ok_def l'_def
        record_event_def bump_swBucket_def Let_def)
  have m: "in_window l' u (hist @ [(now, m)]) \<le> in_window l now hist + m" if "now \<le> u" "0 \<le> m" for u m
    using in_window_mono [OF nn that(1), of l] that(2) by (simp add: in_window_def sl_span_def l'_def)
  have "in_window l' u (hist @ [(now, if ok then n else 0)]) \<le> sl_quota l" if "now \<le> u" for u
    using m [OF that, of "if ok then n else 0"] pos range(2) by (auto simp: ok_def split: if_splits)
  then show "sliding_inv l' now (hist @ [(now, if ok then n else 0)])"
    using sliding.ring_inv_record [OF ring now] cfg nn pos
    by (auto simp: sliding_inv_def sliding_config_def l'_def simp flip: length_greater_0_conv)
qed

section \<open>What the limiter promises\<close>

text \<open>
  Without buckets: a call is admitted when what was admitted in the slices of the window, together
  with it, stays within the quota.
\<close>

fun sliding_spec :: "SlidingWindowLimiter \<Rightarrow> (time \<times> int) list \<Rightarrow> (time \<times> int) list \<Rightarrow> bool list" where
  "sliding_spec l hist [] = []"
| "sliding_spec l hist ((t, n) # cs) =
     (let ok = in_window l t hist + amount n \<le> sl_quota l
      in ok # sliding_spec l (hist @ [(t, if ok then amount n else 0)]) cs)"

definition granted :: "(time \<times> int) list \<Rightarrow> bool list \<Rightarrow> (time \<times> int) list" where
  "granted cs oks = map (\<lambda>((t, n), ok). (t, if ok then amount n else 0)) (zip cs oks)"

definition between :: "time \<Rightarrow> time \<Rightarrow> (time \<times> int) list \<Rightarrow> int" where
  "between a b hist = (\<Sum>(t, n)\<leftarrow>hist. if a \<le> t \<and> t \<le> b then n else 0)"

definition bounded_rate :: "SlidingWindowLimiter \<Rightarrow> (time \<times> int) list \<Rightarrow> bool" where
  "bounded_rate l hist \<longleftrightarrow>
     (\<forall>a b. b - a \<le> sl_span l - sl_bucketSize l \<longrightarrow> between a b hist \<le> sl_quota l)"

lemma between_le_in_window:
  assumes "\<forall>(t, n) \<in> set hist. 0 \<le> n" "now \<le> b" "b - a \<le> sl_span l - sl_bucketSize l"
    and "0 < sl_bucketSize l"
  shows "between a b hist \<le> in_window l now hist"
  using assms(1)
proof (induction hist)
  case (Cons p hist)
  obtain t n where p: "p = (t, n)" by (cases p)
  have "now - time_Truncate t (sl_bucketSize l) < sl_span l" if "a \<le> t"
    using that assms(2,3) Truncate_gt [OF assms(4), of t] by simp
  with Cons p show ?case by (auto simp: between_def in_window_def slice_weight_def)
qed (simp add: between_def in_window_def)

lemma bounded_rate_step:
  assumes "sliding_inv l now hist" "bounded_rate l hist" "0 < n"
  shows "bounded_rate l (hist @ [(now, if in_window l now hist + n \<le> sl_quota l then n else 0)])"
  unfolding bounded_rate_def
proof (intro allI impI)
  fix a b
  assume ab: "b - a \<le> sl_span l - sl_bucketSize l"
  have h: "between a b hist \<le> sl_quota l" using assms(2) ab by (auto simp: bounded_rate_def)
  have "between a b hist \<le> in_window l now hist" if "now \<le> b"
    using assms(1) that ab by (intro between_le_in_window) (auto simp: sliding_inv_def sliding_config_def)
  then show "between a b (hist @ [(now, if in_window l now hist + n \<le> sl_quota l then n else 0)]) \<le> sl_quota l"
    using h by (auto simp: between_def)
qed

lemma sliding_run_inv:
  assumes "sliding_inv l latest hist" "bounded_rate l hist" "sorted (latest # map fst cs)"
    and "\<forall>(t, n) \<in> set cs. in_epoch (sl_bucketSize l) t \<and> amount n + sl_quota l < 2 ^ 63"
  shows "fst (sliding_run cs (Some l)) = sliding_spec l hist cs \<and>
     bounded_rate l (hist @ granted cs (fst (sliding_run cs (Some l))))"
  using assms
proof (induction cs arbitrary: l latest hist)
  case (Cons c cs)
  obtain t n where c: "c = (t, n)" by (cases c)
  have inv: "sliding_inv l t hist"
    using sliding_inv_later [OF Cons.prems(1)] Cons.prems(3) c by simp
  have t: "in_epoch (sl_bucketSize l) t" "amount n + sl_quota l < 2 ^ 63"
    using Cons.prems(4) c by auto
  define m where "m = (if in_window l t hist + amount n \<le> sl_quota l then amount n else 0)"
  define l' where "l' = l\<lparr>sl_buckets :=
     record_event sw_start swBucket_at bump_swBucket (sl_bucketSize l) t m (sl_buckets l)\<rparr>"
  have step: "SlidingWindowLimiter_AllowN t n (Some l) = (in_window l t hist + amount n \<le> sl_quota l, Some l')"
    "sliding_inv l' t (hist @ [(t, m)])"
    using AllowN_step [OF inv t(1) refl t(2)] by (simp_all add: m_def l'_def)
  have same: "in_window l' = in_window l" "sl_quota l' = sl_quota l" "sl_bucketSize l' = sl_bucketSize l"
    "bounded_rate l' = bounded_rate l"
    by (simp_all add: l'_def in_window_def sl_span_def bounded_rate_def fun_eq_iff)
  have spec: "sliding_spec l' = sliding_spec l"
  proof (intro ext)
    show "sliding_spec l' h ds = sliding_spec l h ds" for h ds
      by (induction ds arbitrary: h) (auto simp: same Let_def)
  qed
  have "bounded_rate l' (hist @ [(t, m)])"
    using bounded_rate_step [OF inv Cons.prems(2) amount_pos] by (simp add: same m_def)
  moreover have "sorted (t # map fst cs)" using Cons.prems(3) c by simp
  moreover have "\<forall>(t, n) \<in> set cs. in_epoch (sl_bucketSize l') t \<and> amount n + sl_quota l' < 2 ^ 63"
    using Cons.prems(4) by (simp add: same)
  ultimately have "fst (sliding_run cs (Some l')) = sliding_spec l' (hist @ [(t, m)]) cs \<and>
      bounded_rate l' ((hist @ [(t, m)]) @ granted cs (fst (sliding_run cs (Some l'))))"
    by (rule Cons.IH [OF step(2)])
  then show ?case
    by (cases "in_window l t hist + amount n \<le> sl_quota l")
      (clarsimp simp: c step(1) split_beta Let_def granted_def same spec m_def)+
qed (simp add: granted_def)

lemma NewSlidingWindow_inv:
  assumes "0 < quota" "quota < 2 ^ 63" "0 < window" "window \<le> maxDuration" "0 < buckets"
    and "window mod buckets < window div buckets"
  shows "sliding_inv (NewSlidingWindow quota window buckets) latest []"
    and "sl_bucketSize (NewSlidingWindow quota window buckets) = window div buckets"
    and "sl_span (NewSlidingWindow quota window buckets) = buckets * (window div buckets)"
    and "sl_quota (NewSlidingWindow quota window buckets) = quota"
proof -
  have d: "0 < window div buckets" "window sdiv buckets = window div buckets"
    "buckets * (window div buckets) \<le> window" "window < (buckets + 1) * (window div buckets)"
  proof -
    have "window = buckets * (window div buckets) + window mod buckets" "0 \<le> window mod buckets"
      using assms(5) by simp_all
    moreover have "(buckets + 1) * (window div buckets) = buckets * (window div buckets) + window div buckets"
      by (simp add: algebra_simps)
    ultimately show "0 < window div buckets" "buckets * (window div buckets) \<le> window"
      "window < (buckets + 1) * (window div buckets)" using assms(6) by linarith+
    show "window sdiv buckets = window div buckets" using assms(3,5) by (simp add: signed_divide_int_def sgn_if)
  qed
  then have new: "NewSlidingWindow quota window buckets = \<lparr>sl_quota = quota, sl_window = window,
      sl_bucketSize = window div buckets, sl_buckets = replicate (nat buckets) zero_swBucket\<rparr>"
    using assms by (simp add: NewSlidingWindow_def Let_def)
  show "sliding_inv (NewSlidingWindow quota window buckets) latest []"
    using assms d
    by (auto simp: new sliding_inv_def sliding_config_def int64_range_def in_window_def zero_swBucket_def
        intro!: sliding.ring_inv_empty)
  show "sl_bucketSize (NewSlidingWindow quota window buckets) = window div buckets"
    "sl_span (NewSlidingWindow quota window buckets) = buckets * (window div buckets)"
    "sl_quota (NewSlidingWindow quota window buckets) = quota"
    using assms(5) by (simp_all add: new sl_span_def)
qed

text \<open>
  C9. The sliding window keeps its quota as long as no addition overflows: for positive parameters whose window leaves
  a remainder smaller than a bucket when it is divided into the buckets, and for calls in time order, after the Unix
  epoch, each asking for less than \<open>2 ^ 63\<close> less the quota, what is admitted between any two instants that are at most
  all buckets but one apart never exceeds the quota, and every answer is the one of the bucketless specification.
\<close>

theorem SlidingWindow_quota:
  assumes "0 < quota" and "quota < 2 ^ 63" and "0 < window" and "window \<le> maxDuration"
    and "0 < buckets" and "window mod buckets < window div buckets" and "sorted (map fst cs)"
    and "\<forall>(t, n) \<in> set cs. in_epoch (window div buckets) t \<and> amount n + quota < 2 ^ 63"
    and "b - a \<le> (buckets - 1) * (window div buckets)"
  shows "let l = NewSlidingWindow quota window buckets; oks = fst (sliding_run cs (Some l))
     in oks = sliding_spec l [] cs \<and> between a b (granted cs oks) \<le> quota"
proof (cases cs)
  case Nil
  then show ?thesis using assms(1) by (simp add: granted_def between_def)
next
  case (Cons c cs')
  let ?l = "NewSlidingWindow quota window buckets"
  note new = NewSlidingWindow_inv [OF assms(1-6)]
  have "sorted (fst c # map fst cs)" using assms(7) Cons by simp
  moreover have "bounded_rate ?l []" using assms(1) by (simp add: bounded_rate_def between_def new)
  ultimately have "fst (sliding_run cs (Some ?l)) = sliding_spec ?l [] cs \<and>
      bounded_rate ?l ([] @ granted cs (fst (sliding_run cs (Some ?l))))"
    by (intro sliding_run_inv [OF new(1), of "fst c"]) (use assms(8) in \<open>simp_all add: new\<close>)
  moreover have "b - a \<le> buckets * (window div buckets) - window div buckets" using assms(9) by (simp add: algebra_simps)
  ultimately show ?thesis unfolding Let_def bounded_rate_def new(2-4) append_Nil by blast
qed

theorem SlidingWindow_quota_witness:
  "let l = NewSlidingWindow 2 11 5; cs = [(unixEpoch + 1, 1), (unixEpoch + 3, 0), (unixEpoch + 4, 1)];
       oks = fst (sliding_run cs (Some l))
   in oks = sliding_spec l [] cs \<and> between (unixEpoch + 1) (unixEpoch + 9) (granted cs oks) \<le> 2"
proof -
  have "\<forall>(t, n) \<in> set [(unixEpoch + 1, 1 :: int), (unixEpoch + 3, 0), (unixEpoch + 4, 1)].
      in_epoch (11 div 5) t \<and> amount n + 2 < 2 ^ 63"
    by (simp add: in_epoch_def unixEpoch_def time_Truncate_def amount_def)
  note rate = SlidingWindow_quota [of 2 11 5, OF _ _ _ _ _ _ _ this, of "unixEpoch + 9" "unixEpoch + 1"]
  show ?thesis unfolding Let_def
    by (rule rate [unfolded Let_def]) (simp_all add: maxDuration_def)
qed

section \<open>Two limits of the limiter\<close>

text \<open>
  Twice the quota can pass in less than a window: with a quota of one per ten nanoseconds and two
  buckets, a call in the last nanosecond of a bucket and one a window after that bucket started are
  both admitted, six nanoseconds apart.
\<close>

lemma SlidingWindow_boundary_burst:
  "fst (sliding_run [(unixEpoch + 4, 1), (unixEpoch + 10, 1)] (Some (NewSlidingWindow 1 10 2))) =
   [True, True]"
  by code_simp

text \<open>
  The sum of \<^verbatim>\<open>AllowN\<close> wraps around: once one event has been counted, a request for \<open>2 ^ 63 - 1\<close>
  events is admitted whatever the quota.
\<close>

lemma SlidingWindow_overflow_admits:
  "fst (sliding_run [(unixEpoch + 1, 1), (unixEpoch + 1, 2 ^ 63 - 1)] (Some (NewSlidingWindow 5 10 2))) =
   [True, True]"
  by code_simp

end
