(* ===== verification/LoadLimiter.thy ===== *)
theory LoadLimiter
  imports Float64
begin

text \<open>
  The limiters of work in flight: \<^verbatim>\<open>core/limit/concurrency.go\<close> (a channel used as a semaphore),
  \<^verbatim>\<open>core/limit/adaptive.go\<close> (a limit that follows latency, errors and CPU load) and
  \<^verbatim>\<open>core/limit/distributed.go\<close> (counters kept by a Lua script of a backend).

  The CPU reader and the backend are code outside the repository: the load read by a call is the
  argument \<open>load\<close>, and the backend's \<^verbatim>\<open>Eval\<close> is a function argument over a state of its own.
\<close>

section \<open>Concurrency limiter\<close>

text \<open>The buffered channel is its capacity and the number of values in it.\<close>

record ConcurrencyLimiter =
  cl_cap :: int
  cl_sem :: int

definition NewConcurrency :: "int \<Rightarrow> ConcurrencyLimiter" where
  "NewConcurrency m = \<lparr>cl_cap = (if m \<le> 0 then 1 else m), cl_sem = 0\<rparr>"

definition ConcurrencyLimiter_TryAcquire ::
  "ConcurrencyLimiter option \<Rightarrow> bool \<times> ConcurrencyLimiter option" where
  "ConcurrencyLimiter_TryAcquire ol =
     (case ol of None \<Rightarrow> (True, None)
      | Some l \<Rightarrow> if cl_sem l < cl_cap l then (True, Some (l\<lparr>cl_sem := cl_sem l + 1\<rparr>))
                  else (False, Some l))"

text \<open>
  \<^verbatim>\<open>Acquire\<close> selects between sending and the end of the context: \<open>ctxErr\<close> is the context's error once
  it is done, \<open>pick\<close> the choice of the runtime when both are ready, \<open>None\<close> a call that blocks.
\<close>

definition ConcurrencyLimiter_Acquire ::
  "goerror option \<Rightarrow> bool \<Rightarrow> ConcurrencyLimiter option \<Rightarrow> (goerror option \<times> ConcurrencyLimiter option) option"
  where
  "ConcurrencyLimiter_Acquire ctxErr pick ol =
     (case ol of None \<Rightarrow> Some (None, None)
      | Some l \<Rightarrow>
          (let room = cl_sem l < cl_cap l; sent = Some (None, Some (l\<lparr>cl_sem := cl_sem l + 1\<rparr>)) in
           case ctxErr of
             None \<Rightarrow> if room then sent else None
           | Some e \<Rightarrow> if room \<and> pick then sent else Some (Some e, Some l)))"

definition ConcurrencyLimiter_Release :: "ConcurrencyLimiter option \<Rightarrow> ConcurrencyLimiter option" where
  "ConcurrencyLimiter_Release ol =
     (case ol of None \<Rightarrow> None
      | Some l \<Rightarrow> if 0 < cl_sem l then Some (l\<lparr>cl_sem := cl_sem l - 1\<rparr>) else Some l)"

definition ConcurrencyLimiter_InFlight :: "ConcurrencyLimiter option \<Rightarrow> int" where
  "ConcurrencyLimiter_InFlight ol = (case ol of None \<Rightarrow> 0 | Some l \<Rightarrow> cl_sem l)"

text \<open>
  The limiter with the callers that hold a slot: each caller that got one releases it once.
\<close>

inductive concurrency_reachable :: "int \<Rightarrow> ConcurrencyLimiter option \<Rightarrow> nat \<Rightarrow> bool" for m where
  conc_New: "concurrency_reachable m (Some (NewConcurrency m)) 0"
| conc_Try: "concurrency_reachable m l held \<Longrightarrow> ConcurrencyLimiter_TryAcquire l = (ok, l') \<Longrightarrow>
    concurrency_reachable m l' (if ok then held + 1 else held)"
| conc_Acquire: "concurrency_reachable m l held \<Longrightarrow>
    ConcurrencyLimiter_Acquire ctxErr pick l = Some (err, l') \<Longrightarrow>
    concurrency_reachable m l' (if err = None then held + 1 else held)"
| conc_Release: "concurrency_reachable m l (held + 1) \<Longrightarrow>
    concurrency_reachable m (ConcurrencyLimiter_Release l) held"

lemma concurrency_inv:
  "concurrency_reachable m ol held \<Longrightarrow>
   \<exists>l. ol = Some l \<and> cl_cap l = max 1 m \<and> cl_sem l = int held \<and> int held \<le> max 1 m"
proof (induction rule: concurrency_reachable.induct)
  case conc_New
  then show ?case by (simp add: NewConcurrency_def)
next
  case (conc_Try l held ok l')
  then show ?case by (auto simp: ConcurrencyLimiter_TryAcquire_def split: if_splits)
next
  case (conc_Acquire l held ctxErr pick err l')
  then show ?case
    by (auto simp: ConcurrencyLimiter_Acquire_def Let_def split: if_splits option.splits)
next
  case (conc_Release l held)
  then show ?case by (auto simp: ConcurrencyLimiter_Release_def)
qed

text \<open>
  C10. Whatever the interleaving of callers, the limiter counts exactly the callers that hold a slot,
  they are never more than the maximum, a further caller is turned away exactly when they are that
  many, and an \<^verbatim>\<open>Acquire\<close> blocks exactly then, unless its context has ended.
\<close>

theorem ConcurrencyLimiter_bound:
  assumes "concurrency_reachable m l held"
  shows "ConcurrencyLimiter_InFlight l = int held \<and> int held \<le> max 1 m \<and>
     (fst (ConcurrencyLimiter_TryAcquire l) \<longleftrightarrow> int held < max 1 m) \<and>
     (ConcurrencyLimiter_Acquire ctxErr pick l = None \<longleftrightarrow> ctxErr = None \<and> int held = max 1 m)"
  using concurrency_inv [OF assms]
  by (auto simp: ConcurrencyLimiter_InFlight_def ConcurrencyLimiter_TryAcquire_def
      ConcurrencyLimiter_Acquire_def Let_def split: option.splits)

theorem ConcurrencyLimiter_bound_witness:
  "let l = snd (ConcurrencyLimiter_TryAcquire (Some (NewConcurrency 1)))
   in ConcurrencyLimiter_InFlight l = 1 \<and> \<not> fst (ConcurrencyLimiter_TryAcquire l) \<and>
      ConcurrencyLimiter_Acquire None True l = None"
proof -
  let ?l = "snd (ConcurrencyLimiter_TryAcquire (Some (NewConcurrency 1)))"
  have "ConcurrencyLimiter_TryAcquire (Some (NewConcurrency 1)) = (True, ?l)"
    by (simp add: ConcurrencyLimiter_TryAcquire_def NewConcurrency_def)
  from conc_Try [OF conc_New this] have "concurrency_reachable 1 ?l 1" by simp
  from ConcurrencyLimiter_bound [OF this, of None True] show ?thesis by (simp add: Let_def)
qed

section \<open>Adaptive limiter\<close>

definition ErrLimited :: goerror where "ErrLimited = Err ''adaptive limiter rejected request''"

record AdaptiveLimiter =
  al_minLimit :: int
  al_maxLimit :: int
  al_limit :: int
  al_inFlight :: int
  al_cpuThreshold :: int
  al_window :: duration
  al_targetLatency :: duration
  al_targetErrorRatio :: float64
  al_minSamples :: int
  al_windowStart :: time
  al_requests :: int
  al_success :: int
  al_passes :: int
  al_drops :: int
  al_totalLatency :: duration
  al_peakInFlight :: int
  al_hasCPU :: bool

datatype AdaptiveLimiterOption =
    WithAdaptiveLimits int int
  | WithAdaptiveInitialLimit int
  | WithAdaptiveLimitWindow duration
  | WithAdaptiveTargetLatency duration
  | WithAdaptiveTargetErrorRatio float64
  | WithAdaptiveMinSamples int
  | WithAdaptiveCPUThreshold int
  | WithAdaptiveCPUReader bool

fun apply_AdaptiveLimiterOption :: "AdaptiveLimiterOption \<Rightarrow> AdaptiveLimiter \<Rightarrow> AdaptiveLimiter" where
  "apply_AdaptiveLimiterOption (WithAdaptiveLimits lo hi) l =
     (let l = (if lo > 0 then l\<lparr>al_minLimit := lo\<rparr> else l)
      in if hi > 0 then l\<lparr>al_maxLimit := hi\<rparr> else l)"
| "apply_AdaptiveLimiterOption (WithAdaptiveInitialLimit n) l =
     (if n > 0 then l\<lparr>al_limit := n\<rparr> else l)"
| "apply_AdaptiveLimiterOption (WithAdaptiveLimitWindow w) l =
     (if w > 0 then l\<lparr>al_window := w\<rparr> else l)"
| "apply_AdaptiveLimiterOption (WithAdaptiveTargetLatency d) l =
     (if d > 0 then l\<lparr>al_targetLatency := d\<rparr> else l)"
| "apply_AdaptiveLimiterOption (WithAdaptiveTargetErrorRatio r) l =
     (if r \<ge> 0 \<and> r \<le> 1 then l\<lparr>al_targetErrorRatio := r\<rparr> else l)"
| "apply_AdaptiveLimiterOption (WithAdaptiveMinSamples n) l =
     (if n > 0 then l\<lparr>al_minSamples := n\<rparr> else l)"
| "apply_AdaptiveLimiterOption (WithAdaptiveCPUThreshold n) l =
     (if n > 0 then l\<lparr>al_cpuThreshold := n\<rparr> else l)"
| "apply_AdaptiveLimiterOption (WithAdaptiveCPUReader reader) l = l\<lparr>al_hasCPU := reader\<rparr>"

definition NewAdaptiveLimiter :: "time \<Rightarrow> AdaptiveLimiterOption list \<Rightarrow> AdaptiveLimiter" where
  "NewAdaptiveLimiter now opts =
     (let l = fold apply_AdaptiveLimiterOption opts
        \<lparr>al_minLimit = 1, al_maxLimit = 1000, al_limit = 10, al_inFlight = 0, al_cpuThreshold = 0,
         al_window = Second, al_targetLatency = 100 * Millisecond, al_targetErrorRatio = fl (1 / 5),
         al_minSamples = 10, al_windowStart = 0, al_requests = 0, al_success = 0, al_passes = 0,
         al_drops = 0, al_totalLatency = 0, al_peakInFlight = 0, al_hasCPU = False\<rparr>;
        l = (if al_minLimit l \<le> 0 then l\<lparr>al_minLimit := 1\<rparr> else l);
        l = (if al_maxLimit l < al_minLimit l then l\<lparr>al_maxLimit := al_minLimit l\<rparr> else l);
        l = (if al_limit l < al_minLimit l then l\<lparr>al_limit := al_minLimit l\<rparr> else l);
        l = (if al_limit l > al_maxLimit l then l\<lparr>al_limit := al_maxLimit l\<rparr> else l);
        l = (if al_window l \<le> 0 then l\<lparr>al_window := Second\<rparr> else l);
        l = (if al_targetLatency l \<le> 0 then l\<lparr>al_targetLatency := 100 * Millisecond\<rparr> else l);
        l = (if al_minSamples l \<le> 0 then l\<lparr>al_minSamples := 10\<rparr> else l)
      in l\<lparr>al_windowStart := now\<rparr>)"

definition AdaptiveLimiter_averageLatencyLocked :: "AdaptiveLimiter \<Rightarrow> duration" where
  "AdaptiveLimiter_averageLatencyLocked l =
     (if al_requests l = 0 then 0 else al_totalLatency l sdiv al_requests l)"

definition AdaptiveLimiter_errorRatioLocked :: "AdaptiveLimiter \<Rightarrow> float64" where
  "AdaptiveLimiter_errorRatioLocked l =
     (if al_requests l = 0 then 0
      else fdiv (float64_of_int (al_requests l - al_success l)) (float64_of_int (al_requests l)))"

definition AdaptiveLimiter_overloadFlightLocked :: "AdaptiveLimiter \<Rightarrow> int" where
  "AdaptiveLimiter_overloadFlightLocked l =
     (let threshold = al_limit l sdiv 2 in if threshold < 1 then 1 else threshold)"

definition AdaptiveLimiter_shouldShedForLoadLocked :: "int \<Rightarrow> AdaptiveLimiter \<Rightarrow> bool" where
  "AdaptiveLimiter_shouldShedForLoadLocked cpuLoad l \<longleftrightarrow>
     cpuLoad \<ge> al_cpuThreshold l \<and> al_inFlight l \<ge> AdaptiveLimiter_overloadFlightLocked l"

definition AdaptiveLimiter_cpuLoadLocked :: "int \<Rightarrow> AdaptiveLimiter \<Rightarrow> int" where
  "AdaptiveLimiter_cpuLoadLocked load l = (if al_hasCPU l then load else 0)"

definition AdaptiveLimiter_shouldShedLocked :: "int \<Rightarrow> AdaptiveLimiter \<Rightarrow> bool" where
  "AdaptiveLimiter_shouldShedLocked load l =
     (if \<not> al_hasCPU l \<or> al_cpuThreshold l \<le> 0 then False
      else AdaptiveLimiter_shouldShedForLoadLocked (AdaptiveLimiter_cpuLoadLocked load l) l)"

definition AdaptiveLimiter_adjustLocked :: "AdaptiveLimiter \<Rightarrow> AdaptiveLimiter" where
  "AdaptiveLimiter_adjustLocked l =
     (if al_requests l < al_minSamples l then l
      else let failures = al_requests l - al_success l;
               errorRatio = fdiv (float64_of_int failures) (float64_of_int (al_requests l));
               avgLatency = AdaptiveLimiter_averageLatencyLocked l in
        if errorRatio > al_targetErrorRatio l \<or> avgLatency > al_targetLatency l then
          (let step = al_limit l sdiv 5;
               step = (if step < 1 then 1 else step);
               l = l\<lparr>al_limit := al_limit l - step\<rparr>
           in if al_limit l < al_minLimit l then l\<lparr>al_limit := al_minLimit l\<rparr> else l)
        else if al_peakInFlight l \<ge> al_limit l \<and> al_limit l < al_maxLimit l
          then l\<lparr>al_limit := al_limit l + 1\<rparr> else l)"

definition AdaptiveLimiter_refreshLocked :: "time \<Rightarrow> AdaptiveLimiter \<Rightarrow> AdaptiveLimiter" where
  "AdaptiveLimiter_refreshLocked now l =
     (if al_windowStart l = 0 then l\<lparr>al_windowStart := now\<rparr>
      else if time_Sub now (al_windowStart l) < al_window l then l
      else let l = AdaptiveLimiter_adjustLocked l in
        l\<lparr>al_windowStart := now, al_requests := 0, al_success := 0, al_passes := 0, al_drops := 0,
          al_totalLatency := 0, al_peakInFlight := al_inFlight l\<rparr>)"

text \<open>A token points to its limiter or, for the token of a nil limiter, to none.\<close>

record AdaptiveToken =
  at_limiter :: bool
  at_start :: time
  at_once :: bool

definition noopAdaptiveToken :: AdaptiveToken where
  "noopAdaptiveToken = \<lparr>at_limiter = False, at_start = 0, at_once = False\<rparr>"

definition AdaptiveLimiter_Allow ::
  "time \<Rightarrow> int \<Rightarrow> AdaptiveLimiter option \<Rightarrow>
   (AdaptiveToken option \<times> goerror option) \<times> AdaptiveLimiter option" where
  "AdaptiveLimiter_Allow now load ol =
     (case ol of None \<Rightarrow> ((Some noopAdaptiveToken, None), None)
      | Some l \<Rightarrow>
          (let l = AdaptiveLimiter_refreshLocked now l in
           if AdaptiveLimiter_shouldShedLocked load l
           then ((None, Some ErrLimited), Some (l\<lparr>al_drops := al_drops l + 1\<rparr>))
           else if al_inFlight l \<ge> al_limit l
           then ((None, Some ErrLimited), Some (l\<lparr>al_drops := al_drops l + 1\<rparr>))
           else let l = l\<lparr>al_inFlight := al_inFlight l + 1\<rparr>;
                    l = l\<lparr>al_passes := al_passes l + 1\<rparr>;
                    l = (if al_inFlight l > al_peakInFlight l
                         then l\<lparr>al_peakInFlight := al_inFlight l\<rparr> else l)
             in ((Some \<lparr>at_limiter = True, at_start = now, at_once = False\<rparr>, None), Some l)))"

definition AdaptiveToken_Done ::
  "time \<Rightarrow> bool \<Rightarrow> AdaptiveToken \<times> AdaptiveLimiter \<Rightarrow> AdaptiveToken \<times> AdaptiveLimiter" where
  "AdaptiveToken_Done now success = (\<lambda>(t, l).
     if \<not> at_limiter t then (t, l)
     else if at_once t then (t, l)
     else let l = (if al_inFlight l > 0 then l\<lparr>al_inFlight := al_inFlight l - 1\<rparr> else l);
              l = l\<lparr>al_requests := al_requests l + 1\<rparr>;
              l = (if success then l\<lparr>al_success := al_success l + 1\<rparr> else l);
              l = l\<lparr>al_totalLatency := wrap64 (al_totalLatency l + time_Sub now (at_start t))\<rparr>
       in (t\<lparr>at_once := True\<rparr>, AdaptiveLimiter_refreshLocked now l))"

definition AdaptiveLimiter_Limit :: "time \<Rightarrow> AdaptiveLimiter option \<Rightarrow> int \<times> AdaptiveLimiter option" where
  "AdaptiveLimiter_Limit now ol =
     (case ol of None \<Rightarrow> (0, None)
      | Some l \<Rightarrow> (let l = AdaptiveLimiter_refreshLocked now l in (al_limit l, Some l)))"

definition AdaptiveLimiter_InFlight :: "AdaptiveLimiter option \<Rightarrow> int" where
  "AdaptiveLimiter_InFlight ol = (case ol of None \<Rightarrow> 0 | Some l \<Rightarrow> al_inFlight l)"

record AdaptiveLimiterSnapshot =
  ls_Limit :: int
  ls_MinLimit :: int
  ls_MaxLimit :: int
  ls_InFlight :: int
  ls_CPUThreshold :: int
  ls_CPULoad :: int
  ls_Overloaded :: bool
  ls_Window :: duration
  ls_TargetLatency :: duration
  ls_TargetErrorRatio :: float64
  ls_Requests :: int
  ls_Success :: int
  ls_Failures :: int
  ls_Passes :: int
  ls_Drops :: int
  ls_ErrorRatio :: float64
  ls_AverageLatency :: duration
  ls_PeakInFlight :: int

definition AdaptiveLimiter_Snapshot ::
  "time \<Rightarrow> int \<Rightarrow> AdaptiveLimiter option \<Rightarrow> AdaptiveLimiterSnapshot \<times> AdaptiveLimiter option" where
  "AdaptiveLimiter_Snapshot now load ol =
     (case ol of
        None \<Rightarrow> (\<lparr>ls_Limit = 0, ls_MinLimit = 0, ls_MaxLimit = 0, ls_InFlight = 0,
           ls_CPUThreshold = 0, ls_CPULoad = 0, ls_Overloaded = False, ls_Window = 0,
           ls_TargetLatency = 0, ls_TargetErrorRatio = 0, ls_Requests = 0, ls_Success = 0,
           ls_Failures = 0, ls_Passes = 0, ls_Drops = 0, ls_ErrorRatio = 0, ls_AverageLatency = 0,
           ls_PeakInFlight = 0\<rparr>, None)
      | Some l \<Rightarrow>
          (let l = AdaptiveLimiter_refreshLocked now l;
               cpuLoad = AdaptiveLimiter_cpuLoadLocked load l
           in (\<lparr>ls_Limit = al_limit l, ls_MinLimit = al_minLimit l, ls_MaxLimit = al_maxLimit l,
                ls_InFlight = al_inFlight l, ls_CPUThreshold = al_cpuThreshold l,
                ls_CPULoad = cpuLoad,
                ls_Overloaded = AdaptiveLimiter_shouldShedForLoadLocked cpuLoad l,
                ls_Window = al_window l, ls_TargetLatency = al_targetLatency l,
                ls_TargetErrorRatio = al_targetErrorRatio l, ls_Requests = al_requests l,
                ls_Success = al_success l, ls_Failures = al_requests l - al_success l,
                ls_Passes = al_passes l, ls_Drops = al_drops l,
                ls_ErrorRatio = AdaptiveLimiter_errorRatioLocked l,
                ls_AverageLatency = AdaptiveLimiter_averageLatencyLocked l,
                ls_PeakInFlight = al_peakInFlight l\<rparr>, Some l)))"

subsection \<open>Invariant\<close>

definition AdaptiveLimiter_inv :: "AdaptiveLimiter \<Rightarrow> bool" where
  "AdaptiveLimiter_inv l \<longleftrightarrow>
     0 < al_minLimit l \<and> al_minLimit l \<le> al_limit l \<and> al_limit l \<le> al_maxLimit l \<and>
     0 \<le> al_inFlight l \<and> al_inFlight l \<le> al_maxLimit l \<and> al_inFlight l \<le> al_peakInFlight l \<and>
     0 \<le> al_success l \<and> al_success l \<le> al_requests l \<and> 0 \<le> al_passes l \<and> 0 \<le> al_drops l"

definition outstanding :: "AdaptiveToken list \<Rightarrow> nat" where
  "outstanding ts = length (filter (\<lambda>t. \<not> at_once t) ts)"

text \<open>
  The limiter with the tokens it has handed out, in any interleaving of admissions, completions
  (repeated ones included) and reads that refresh the window.
\<close>

inductive limiter_reachable :: "AdaptiveLimiter \<Rightarrow> AdaptiveToken list \<Rightarrow> bool" where
  lim_New: "limiter_reachable (NewAdaptiveLimiter now opts) []"
| lim_Allow: "limiter_reachable l ts \<Longrightarrow>
    AdaptiveLimiter_Allow now load (Some l) = ((Some t, None), Some l') \<Longrightarrow>
    limiter_reachable l' (ts @ [t])"
| lim_Reject: "limiter_reachable l ts \<Longrightarrow>
    AdaptiveLimiter_Allow now load (Some l) = ((None, Some e), Some l') \<Longrightarrow> limiter_reachable l' ts"
| lim_Done: "limiter_reachable l ts \<Longrightarrow> i < length ts \<Longrightarrow>
    AdaptiveToken_Done now ok (ts ! i, l) = (t, l') \<Longrightarrow> limiter_reachable l' (ts[i := t])"
| lim_Limit: "limiter_reachable l ts \<Longrightarrow>
    AdaptiveLimiter_Limit now (Some l) = (n, Some l') \<Longrightarrow> limiter_reachable l' ts"
| lim_Snapshot: "limiter_reachable l ts \<Longrightarrow>
    AdaptiveLimiter_Snapshot now load (Some l) = (sn, Some l') \<Longrightarrow> limiter_reachable l' ts"

lemma sdiv_pos: "0 \<le> x \<Longrightarrow> 0 < y \<Longrightarrow> x sdiv y = x div y" for x y :: int
  by (simp add: signed_divide_int_def sgn_if)

lemma adjustLocked_fields [simp]:
  "al_inFlight (AdaptiveLimiter_adjustLocked l) = al_inFlight l"
  "al_minLimit (AdaptiveLimiter_adjustLocked l) = al_minLimit l"
  "al_maxLimit (AdaptiveLimiter_adjustLocked l) = al_maxLimit l"
  "al_peakInFlight (AdaptiveLimiter_adjustLocked l) = al_peakInFlight l"
  "al_hasCPU (AdaptiveLimiter_adjustLocked l) = al_hasCPU l"
  "al_cpuThreshold (AdaptiveLimiter_adjustLocked l) = al_cpuThreshold l"
  by (simp_all add: AdaptiveLimiter_adjustLocked_def Let_def)

lemma adjustLocked_limit:
  "al_minLimit l \<le> al_limit l \<Longrightarrow> al_limit l \<le> al_maxLimit l \<Longrightarrow>
   al_minLimit l \<le> al_limit (AdaptiveLimiter_adjustLocked l) \<and>
   al_limit (AdaptiveLimiter_adjustLocked l) \<le> al_maxLimit l"
  by (auto simp: AdaptiveLimiter_adjustLocked_def Let_def)

lemma refreshLocked_inv:
  assumes "AdaptiveLimiter_inv l"
  shows "AdaptiveLimiter_inv (AdaptiveLimiter_refreshLocked now l)"
    and "al_inFlight (AdaptiveLimiter_refreshLocked now l) = al_inFlight l"
    and "al_maxLimit (AdaptiveLimiter_refreshLocked now l) = al_maxLimit l"
  using assms adjustLocked_limit [of l]
  by (auto simp: AdaptiveLimiter_refreshLocked_def AdaptiveLimiter_inv_def Let_def)

lemma NewAdaptiveLimiter_inv:
  "AdaptiveLimiter_inv (NewAdaptiveLimiter now opts)" "al_inFlight (NewAdaptiveLimiter now opts) = 0"
proof -
  let ?fresh = "\<lambda>l. al_inFlight l = 0 \<and> al_success l = 0 \<and> al_requests l = 0 \<and> al_passes l = 0 \<and>
      al_drops l = 0 \<and> al_peakInFlight l = 0"
  have opts: "?fresh (fold apply_AdaptiveLimiterOption opts l)" if "?fresh l" for l
    using that
  proof (induction opts arbitrary: l)
    case (Cons opt opts)
    then show ?case by (cases opt) (simp_all add: Let_def)
  qed simp
  define l0 :: AdaptiveLimiter where "l0 =
     \<lparr>al_minLimit = 1, al_maxLimit = 1000, al_limit = 10, al_inFlight = 0, al_cpuThreshold = 0,
      al_window = Second, al_targetLatency = 100 * Millisecond, al_targetErrorRatio = fl (1 / 5),
      al_minSamples = 10, al_windowStart = 0, al_requests = 0, al_success = 0, al_passes = 0,
      al_drops = 0, al_totalLatency = 0, al_peakInFlight = 0, al_hasCPU = False\<rparr>"
  have "?fresh (fold apply_AdaptiveLimiterOption opts l0)" by (rule opts) (simp add: l0_def)
  then show "AdaptiveLimiter_inv (NewAdaptiveLimiter now opts)"
    "al_inFlight (NewAdaptiveLimiter now opts) = 0"
    unfolding NewAdaptiveLimiter_def l0_def [symmetric] Let_def
    by (auto simp: AdaptiveLimiter_inv_def)
qed

lemma Allow_inv:
  assumes "AdaptiveLimiter_inv l" "AdaptiveLimiter_Allow now load (Some l) = ((ot, err), Some l')"
  shows "AdaptiveLimiter_inv l'"
    and "case ot of None \<Rightarrow> al_inFlight l' = al_inFlight l
         | Some t \<Rightarrow> al_inFlight l' = al_inFlight l + 1 \<and> al_inFlight l' \<le> al_limit l' \<and>
             at_limiter t \<and> \<not> at_once t"
proof -
  define l1 where "l1 = AdaptiveLimiter_refreshLocked now l"
  have inv: "AdaptiveLimiter_inv l1" "al_inFlight l1 = al_inFlight l"
    using refreshLocked_inv [OF assms(1), of now] by (simp_all add: l1_def)
  show "AdaptiveLimiter_inv l'"
    "case ot of None \<Rightarrow> al_inFlight l' = al_inFlight l
     | Some t \<Rightarrow> al_inFlight l' = al_inFlight l + 1 \<and> al_inFlight l' \<le> al_limit l' \<and>
         at_limiter t \<and> \<not> at_once t"
    using inv assms(2)
    by (auto simp: AdaptiveLimiter_Allow_def Let_def AdaptiveLimiter_inv_def simp flip: l1_def
        split: if_splits)
qed

lemma Done_inv:
  assumes "AdaptiveLimiter_inv l" "AdaptiveToken_Done now ok (t, l) = (t', l')"
    and "at_limiter t" "at_once t \<or> 0 < al_inFlight l"
  shows "AdaptiveLimiter_inv l'" "at_limiter t'" "at_once t'"
    "al_inFlight l' = (if at_once t then al_inFlight l else al_inFlight l - 1)"
proof -
  define l1 where "l1 = l\<lparr>al_inFlight := al_inFlight l - 1, al_requests := al_requests l + 1,
      al_success := (if ok then al_success l + 1 else al_success l),
      al_totalLatency := wrap64 (al_totalLatency l + time_Sub now (at_start t))\<rparr>"
  have l1: "AdaptiveLimiter_inv l1" if "0 < al_inFlight l"
    using assms(1) that by (auto simp: l1_def AdaptiveLimiter_inv_def)
  have "(t', l') = (if at_once t then (t, l) else (t\<lparr>at_once := True\<rparr>, AdaptiveLimiter_refreshLocked now l1))"
    using assms(2-4) by (auto simp: AdaptiveToken_Done_def Let_def l1_def)
  then show "AdaptiveLimiter_inv l'" "at_limiter t'" "at_once t'"
    "al_inFlight l' = (if at_once t then al_inFlight l else al_inFlight l - 1)"
    using assms(1,3,4) refreshLocked_inv [OF l1] by (auto simp: l1_def split: if_splits)
qed

lemma outstanding_update:
  "i < length ts \<Longrightarrow> at_once t \<Longrightarrow>
   outstanding ts = outstanding (ts[i := t]) + (if at_once (ts ! i) then 0 else 1)"
proof (induction ts arbitrary: i)
  case (Cons a ts)
  show ?case
  proof (cases i)
    case (Suc j)
    with Cons.IH [of j] Cons.prems show ?thesis by (simp add: outstanding_def)
  qed (use Cons.prems in \<open>simp add: outstanding_def\<close>)
qed simp

lemma outstanding_pos: "i < length ts \<Longrightarrow> \<not> at_once (ts ! i) \<Longrightarrow> 0 < outstanding ts"
  by (auto simp: outstanding_def filter_empty_conv)

text \<open>
  C11. Under any interleaving of callers the adaptive limiter keeps its limit between the minimum and
  the maximum, counts in flight exactly the tokens that have not completed (so the count never
  leaks, however often a token is completed), and never lets more than the maximum in.
\<close>

theorem AdaptiveLimiter_in_flight:
  assumes "limiter_reachable l ts"
  shows "AdaptiveLimiter_inv l \<and> (\<forall>t \<in> set ts. at_limiter t) \<and>
     AdaptiveLimiter_InFlight (Some l) = int (outstanding ts) \<and> int (outstanding ts) \<le> al_maxLimit l"
proof -
  have "AdaptiveLimiter_inv l \<and> (\<forall>t \<in> set ts. at_limiter t) \<and> al_inFlight l = int (outstanding ts)"
    using assms
  proof (induction rule: limiter_reachable.induct)
    case (lim_New now opts)
    then show ?case by (simp add: NewAdaptiveLimiter_inv outstanding_def)
  next
    case (lim_Allow l ts now load t l')
    then show ?case using Allow_inv [OF _ lim_Allow.hyps(2)] by (auto simp: outstanding_def)
  next
    case (lim_Reject l ts now load e l')
    then show ?case using Allow_inv [OF _ lim_Reject.hyps(2)] by auto
  next
    case (lim_Done l ts i now ok t l')
    have tok: "at_limiter (ts ! i)" "at_once (ts ! i) \<or> 0 < al_inFlight l"
      using lim_Done outstanding_pos [of i ts] by (auto, cases "at_once (ts ! i)", auto)
    have inv: "AdaptiveLimiter_inv l" using lim_Done.IH by simp
    note fin = Done_inv [OF inv lim_Done.hyps(3) tok]
    show ?case
      using fin lim_Done.IH outstanding_update [OF lim_Done.hyps(2) fin(3)]
      by (auto dest!: set_update_subset_insert [THEN subsetD] split: if_splits)
  next
    case (lim_Limit l ts now n l')
    then show ?case using refreshLocked_inv [of l now] by (auto simp: AdaptiveLimiter_Limit_def Let_def)
  next
    case (lim_Snapshot l ts now load sn l')
    then show ?case using refreshLocked_inv [of l now] by (auto simp: AdaptiveLimiter_Snapshot_def Let_def)
  qed
  then show ?thesis by (auto simp: AdaptiveLimiter_InFlight_def AdaptiveLimiter_inv_def)
qed

theorem AdaptiveLimiter_in_flight_witness:
  "let l = NewAdaptiveLimiter 5 [WithAdaptiveLimits 1 1];
       l' = snd (AdaptiveLimiter_Allow 6 0 (Some l))
   in AdaptiveLimiter_InFlight l' = 1"
proof -
  define l where "l = NewAdaptiveLimiter 5 [WithAdaptiveLimits 1 1]"
  obtain t l' where step: "AdaptiveLimiter_Allow 6 0 (Some l) = ((Some t, None), Some l')" "\<not> at_once t"
    by (simp add: l_def NewAdaptiveLimiter_def AdaptiveLimiter_Allow_def AdaptiveLimiter_refreshLocked_def
        AdaptiveLimiter_shouldShedLocked_def time_Sub_def maxDuration_def minDuration_def Let_def)
  have "limiter_reachable l' ([] @ [t])"
    by (rule lim_Allow [OF lim_New [of 5 "[WithAdaptiveLimits 1 1]"], folded l_def, OF step(1)])
  from AdaptiveLimiter_in_flight [OF this] step show ?thesis
    by (simp add: Let_def outstanding_def flip: l_def)
qed

subsection \<open>Feedback\<close>

text \<open>A window is bad when it has enough samples and misses the error or the latency target.\<close>

definition bad_window :: "AdaptiveLimiter \<Rightarrow> bool" where
  "bad_window l \<longleftrightarrow> al_minSamples l \<le> al_requests l \<and>
     (al_targetErrorRatio l < fdiv (float64_of_int (al_requests l - al_success l)) (float64_of_int (al_requests l))
      \<or> al_targetLatency l < AdaptiveLimiter_averageLatencyLocked l)"

text \<open>
  At the end of a window the limit follows the feedback: a bad window takes a fifth of it away
  (at least one, never below the minimum); a good one whose peak reached the limit adds exactly one,
  up to the maximum; with too few samples, or with room to spare, it stays; and the window's
  counters start again from zero.
\<close>

theorem AdaptiveLimiter_feedback:
  assumes "AdaptiveLimiter_inv l" and "al_windowStart l \<noteq> 0"
    and "0 < al_window l" and "al_window l \<le> maxDuration" and "al_window l \<le> now - al_windowStart l"
  shows "let l' = AdaptiveLimiter_refreshLocked now l in
     al_limit l' =
       (if bad_window l then max (al_minLimit l) (al_limit l - max 1 (al_limit l div 5))
        else if al_minSamples l \<le> al_requests l \<and> al_limit l \<le> al_peakInFlight l
          then min (al_maxLimit l) (al_limit l + 1)
        else al_limit l) \<and>
     al_windowStart l' = now \<and> al_requests l' = 0 \<and> al_success l' = 0 \<and> al_totalLatency l' = 0 \<and>
     al_peakInFlight l' = al_inFlight l"
proof -
  have "al_limit l sdiv 5 = al_limit l div 5"
    using assms(1) by (intro sdiv_pos) (auto simp: AdaptiveLimiter_inv_def)
  then have "al_limit (AdaptiveLimiter_adjustLocked l) =
      (if bad_window l then max (al_minLimit l) (al_limit l - max 1 (al_limit l div 5))
       else if al_minSamples l \<le> al_requests l \<and> al_limit l \<le> al_peakInFlight l
         then min (al_maxLimit l) (al_limit l + 1) else al_limit l)"
    using assms(1)
    by (auto simp: AdaptiveLimiter_adjustLocked_def bad_window_def Let_def AdaptiveLimiter_inv_def
        max_def min_def)
  moreover have "\<not> time_Sub now (al_windowStart l) < al_window l"
    using assms(3-5) by (simp add: time_simps)
  ultimately show ?thesis
    using assms(2) by (simp add: AdaptiveLimiter_refreshLocked_def Let_def)
qed

theorem AdaptiveLimiter_feedback_witness:
  "al_limit (AdaptiveLimiter_refreshLocked (5 + Second)
     ((NewAdaptiveLimiter 5 [])\<lparr>al_requests := 20, al_success := 20, al_totalLatency := 20 * Second\<rparr>)) = 8"
proof -
  define l where "l = (NewAdaptiveLimiter 5 [])\<lparr>al_requests := 20, al_success := 20, al_totalLatency := 20 * Second\<rparr>"
  have inv: "AdaptiveLimiter_inv l"
    using NewAdaptiveLimiter_inv [of 5 "[]"] by (simp add: l_def AdaptiveLimiter_inv_def)
  have cfg: "al_windowStart l \<noteq> 0" "0 < al_window l" "al_window l \<le> maxDuration"
    "al_window l \<le> (5 + Second) - al_windowStart l"
    by (simp_all add: l_def NewAdaptiveLimiter_def maxDuration_def)
  have "bad_window l" "al_limit l = 10" "al_minLimit l = 1"
    by (simp_all add: bad_window_def l_def NewAdaptiveLimiter_def sdiv_pos
        AdaptiveLimiter_averageLatencyLocked_def)
  then show ?thesis
    using AdaptiveLimiter_feedback [OF inv cfg] unfolding l_def [symmetric] Let_def by simp
qed

text \<open>
  The snapshot's \<^verbatim>\<open>Overloaded\<close> does not ask whether CPU shedding is enabled: with neither reader nor
  threshold it is set as soon as half the limit is in flight, though \<^verbatim>\<open>Allow\<close> never sheds then.
\<close>

lemma AdaptiveLimiter_overloaded_without_cpu:
  assumes "\<not> al_hasCPU l" "al_cpuThreshold l = 0"
    and "AdaptiveLimiter_overloadFlightLocked l \<le> al_inFlight l"
    and "al_windowStart l \<noteq> 0" "time_Sub now (al_windowStart l) < al_window l"
  shows "ls_Overloaded (fst (AdaptiveLimiter_Snapshot now load (Some l)))"
    and "\<not> AdaptiveLimiter_shouldShedLocked load l"
  using assms
  by (simp_all add: AdaptiveLimiter_Snapshot_def AdaptiveLimiter_refreshLocked_def Let_def
      AdaptiveLimiter_cpuLoadLocked_def AdaptiveLimiter_shouldShedForLoadLocked_def
      AdaptiveLimiter_shouldShedLocked_def)

section \<open>Distributed limiters\<close>

type_synonym 's backend = "string \<Rightarrow> string list \<Rightarrow> string list \<Rightarrow> 's \<Rightarrow> (int \<times> goerror option) \<times> 's"

definition ErrBackendNil :: goerror where "ErrBackendNil = Err ''distributed limiter: backend is nil''"

record DistributedPeriodLimiter =
  dp_quota :: int
  dp_window :: duration

definition NewDistributedPeriod :: "int \<Rightarrow> duration \<Rightarrow> DistributedPeriodLimiter" where
  "NewDistributedPeriod quota window =
     \<lparr>dp_quota = (if quota \<le> 0 then 1 else quota), dp_window = (if window \<le> 0 then Second else window)\<rparr>"

definition DistributedPeriodLimiter_Allow ::
  "string \<Rightarrow> 's backend option \<Rightarrow> string \<Rightarrow> DistributedPeriodLimiter option \<Rightarrow> 's \<Rightarrow>
   (bool \<times> goerror option) \<times> 's" where
  "DistributedPeriodLimiter_Allow periodScript backend key ol st =
     (case (ol, backend) of
        (Some l, Some eval) \<Rightarrow>
          (let ms = dp_window l sdiv Millisecond;
               ms = (if ms \<le> 0 then 1 else ms);
               ((count, err), st') = eval periodScript [key] [strconv_Itoa ms] st
           in case err of Some e \<Rightarrow> ((False, Some e), st') | None \<Rightarrow> ((count \<le> dp_quota l, None), st'))
      | _ \<Rightarrow> ((False, Some ErrBackendNil), st))"

record DistributedTokenLimiter =
  dt_rate :: int
  dt_burst :: int

definition NewDistributedToken :: "int \<Rightarrow> int \<Rightarrow> DistributedTokenLimiter" where
  "NewDistributedToken rate burst =
     (let rate = (if rate \<le> 0 then 1 else rate)
      in \<lparr>dt_rate = rate, dt_burst = (if burst \<le> 0 then rate else burst)\<rparr>)"

definition DistributedTokenLimiter_AllowN ::
  "string \<Rightarrow> 's backend option \<Rightarrow> time \<Rightarrow> string \<Rightarrow> int \<Rightarrow> DistributedTokenLimiter option \<Rightarrow> 's \<Rightarrow>
   (bool \<times> goerror option) \<times> 's" where
  "DistributedTokenLimiter_AllowN tokenScript backend now key n ol st =
     (case (ol, backend) of
        (Some l, Some eval) \<Rightarrow>
          (let n = (if n \<le> 0 then 1 else n);
               ((allowed, err), st') = eval tokenScript [key @ '':tokens'', key @ '':ts'']
                  [strconv_Itoa (dt_rate l), strconv_Itoa (dt_burst l), strconv_Itoa (time_UnixMilli now),
                   strconv_Itoa n] st
           in case err of Some e \<Rightarrow> ((False, Some e), st') | None \<Rightarrow> ((allowed = 1, None), st'))
      | _ \<Rightarrow> ((False, Some ErrBackendNil), st))"

definition DistributedTokenLimiter_Allow ::
  "string \<Rightarrow> 's backend option \<Rightarrow> time \<Rightarrow> string \<Rightarrow> DistributedTokenLimiter option \<Rightarrow> 's \<Rightarrow>
   (bool \<times> goerror option) \<times> 's" where
  "DistributedTokenLimiter_Allow tokenScript backend now key ol st =
     DistributedTokenLimiter_AllowN tokenScript backend now key 1 ol st"

fun period_run :: "nat \<Rightarrow> string \<Rightarrow> 's backend option \<Rightarrow> string \<Rightarrow> DistributedPeriodLimiter option \<Rightarrow> 's \<Rightarrow>
    (bool \<times> goerror option) list" where
  "period_run 0 scr be key l st = []"
| "period_run (Suc n) scr be key l st =
     (let (r, st') = DistributedPeriodLimiter_Allow scr be key l st in r # period_run n scr be key l st')"

text \<open>
  The backend's contract for the period script inside one window (\<^verbatim>\<open>INCR\<close> and the first \<^verbatim>\<open>PEXPIRE\<close>): the
  evaluations of one key return 1, 2, 3, ... Then exactly the first \<^verbatim>\<open>quota\<close> calls of the window are
  admitted, whichever processes they come from.
\<close>

lemma DistributedPeriod_admits_quota:
  assumes counts: "\<And>ms st. eval scr [key] [ms] st = ((cnt st + 1, None), nxt st) \<and> cnt (nxt st) = cnt st + 1"
    and "cnt st = 0"
  shows "period_run n scr (Some eval) key (Some l) st = map (\<lambda>i. (int i < dp_quota l, None)) [0..<n]"
proof -
  have "period_run n scr (Some eval) key (Some l) st = map (\<lambda>i. (cnt st + int i < dp_quota l, None)) [0..<n]" for st
  proof (induction n arbitrary: st)
    case (Suc n)
    have "cnt (nxt st) = cnt st + 1" using counts by blast
    then have "(cnt st + 1 \<le> dp_quota l, None :: goerror option) # map (\<lambda>i. (cnt (nxt st) + int i < dp_quota l, None)) [0..<n] =
        map (\<lambda>i. (cnt st + int i < dp_quota l, None)) [0..<Suc n]"
      by (auto simp: map_upt_Suc simp del: upt_Suc)
    then show ?case
      using Suc.IH [of "nxt st"] counts
      by (simp add: DistributedPeriodLimiter_Allow_def Let_def del: upt_Suc)
  qed simp
  then show ?thesis by (simp add: assms(2))
qed

text \<open>Without a limiter or a backend every call fails closed.\<close>

lemma Distributed_nil_fails_closed:
  "DistributedPeriodLimiter_Allow scr None key l st = ((False, Some ErrBackendNil), st)"
  "DistributedTokenLimiter_AllowN scr be now key n None st = ((False, Some ErrBackendNil), st)"
  by (cases l, simp_all add: DistributedPeriodLimiter_Allow_def DistributedTokenLimiter_AllowN_def)

end
