(* ===== verification/Retry.thy ===== *)
theory Retry
  imports Float64
begin

text \<open>
  Retries: \<^verbatim>\<open>core/retry/retry.go\<close>. The caller's function, its context, its budget and the timer act
  on a world of type \<open>'s\<close>, which the loop threads through every call; \<open>None\<close> for a backoff function
  is a panic inside it. The loop also returns the trace of the calls and waits it made.
\<close>

section \<open>Backoff\<close>

type_synonym BackoffFunc = "int \<Rightarrow> duration option"

definition nextDelay :: "BackoffFunc option \<Rightarrow> duration \<Rightarrow> int \<Rightarrow> duration option" where
  "nextDelay fn fallback attempt = (case fn of Some f \<Rightarrow> f attempt | None \<Rightarrow> Some fallback)"

definition FixedBackoff :: "duration \<Rightarrow> BackoffFunc" where
  "FixedBackoff d attempt = Some d"

definition ExponentialBackoff :: "duration \<Rightarrow> duration \<Rightarrow> BackoffFunc" where
  "ExponentialBackoff base mx attempt =
     (if base \<le> 0 then Some 0
      else let attempt = (if attempt \<le> 0 then 1 else attempt);
               attempt = (if attempt > 62 then 62 else attempt);
               d = wrap64 (base * 2 ^ nat (attempt - 1))
        in if d < 0 \<or> (mx > 0 \<and> d > mx) then Some mx else Some d)"

definition math_Round :: "float64 \<Rightarrow> int" where
  "math_Round x = (if x < 0 then - \<lfloor>- x + 1 / 2\<rfloor> else \<lfloor>x + 1 / 2\<rfloor>)"

text \<open>\<^verbatim>\<open>rand.Int64N(n)\<close>: the source of randomness is the argument; it panics for \<open>n \<le> 0\<close>.\<close>

definition rand_Int64N :: "(int \<Rightarrow> int) \<Rightarrow> int \<Rightarrow> int option" where
  "rand_Int64N draw n = (if n \<le> 0 then None else Some (draw n))"

definition JitterBackoff :: "(int \<Rightarrow> int) \<Rightarrow> BackoffFunc option \<Rightarrow> float64 \<Rightarrow> BackoffFunc" where
  "JitterBackoff draw next ratio attempt =
     (case nextDelay next 0 attempt of None \<Rightarrow> None
      | Some d \<Rightarrow>
          if d \<le> 0 \<or> ratio \<le> 0 then Some d
          else let ratio = (if ratio > 1 then 1 else ratio);
                   span = wrap64 (math_Round (fmul (float64_of_int d) ratio)) in
            if span \<le> 0 then Some d
            else (case rand_Int64N draw (wrap64 (span * 2 + 1)) of None \<Rightarrow> None
                  | Some r \<Rightarrow>
                      (let offset = r - span; jittered = wrap64 (d + offset)
                       in if jittered < 0 then Some 0 else Some jittered)))"

section \<open>The loop\<close>

record 's Policy =
  p_Attempts :: int
  p_Backoff :: duration
  p_BackoffFunc :: "BackoffFunc option"
  p_Budget :: "(int \<Rightarrow> goerror \<Rightarrow> 's \<Rightarrow> bool \<times> 's) option"
  p_ShouldRetry :: "(goerror \<Rightarrow> bool) option"

record MaxRetriesBudget =
  mb_MaxRetries :: int

definition MaxRetriesBudget_AllowRetry :: "MaxRetriesBudget \<Rightarrow> int \<Rightarrow> goerror \<Rightarrow> 's \<Rightarrow> bool \<times> 's" where
  "MaxRetriesBudget_AllowRetry b retry err s =
     (if mb_MaxRetries b < 0 then False else retry \<le> mb_MaxRetries b, s)"

text \<open>What the loop needs of its surroundings.\<close>

record 's surroundings =
  ctx_Err :: "'s \<Rightarrow> goerror option"
  call_fn :: "'s \<Rightarrow> goerror option \<times> 's"
  wait_for :: "duration \<Rightarrow> 's \<Rightarrow> goerror option \<times> 's"

datatype retry_event = Called "goerror option" | Waited duration
datatype retry_result = RReturned "goerror option" | RPanicked

text \<open>
  \<open>left\<close> iterations remain of \<open>p_Attempts\<close>; \<open>final\<close> is the last error. \<open>wait_for\<close> is the select on
  the timer and the context: \<open>None\<close> when the timer fired, the context's error when it ended first.
\<close>

fun retry_loop :: "'s surroundings \<Rightarrow> 's Policy \<Rightarrow> nat \<Rightarrow> int \<Rightarrow> goerror option \<Rightarrow> 's \<Rightarrow>
    retry_result \<times> retry_event list \<times> 's" where
  "retry_loop w p 0 i final s = (RReturned final, [], s)"
| "retry_loop w p (Suc left) i final s =
     (case ctx_Err w s of Some e \<Rightarrow> (RReturned (Some e), [], s)
      | None \<Rightarrow>
        (case call_fn w s of
           (None, s1) \<Rightarrow> (RReturned None, [Called None], s1)
         | (Some e, s1) \<Rightarrow>
             if (case p_ShouldRetry p of None \<Rightarrow> False | Some f \<Rightarrow> \<not> f e)
             then (RReturned (Some e), [Called (Some e)], s1)
             else
               let retry = i + 1;
                   (allowed, s2) = (case p_Budget p of None \<Rightarrow> (True, s1) | Some b \<Rightarrow> b retry e s1) in
               if \<not> allowed then (RReturned (Some e), [Called (Some e)], s2)
               else
                 (case nextDelay (p_BackoffFunc p) (p_Backoff p) retry of
                    None \<Rightarrow> (RPanicked, [Called (Some e)], s2)
                  | Some delay \<Rightarrow>
                      if left = 0 \<or> delay \<le> 0 then
                        (let (r, tr, s3) = retry_loop w p left (i + 1) (Some e) s2
                         in (r, Called (Some e) # tr, s3))
                      else
                        (case wait_for w delay s2 of
                           (Some ce, s3) \<Rightarrow> (RReturned (Some ce), [Called (Some e), Waited delay], s3)
                         | (None, s3) \<Rightarrow>
                             (let (r, tr, s4) = retry_loop w p left (i + 1) (Some e) s3
                              in (r, Called (Some e) # Waited delay # tr, s4))))))"

definition retry_Do :: "'s surroundings \<Rightarrow> 's Policy \<Rightarrow> 's \<Rightarrow> retry_result \<times> retry_event list \<times> 's" where
  "retry_Do w p s =
     (let p = (if p_Attempts p \<le> 0 then p\<lparr>p_Attempts := 1\<rparr> else p)
      in retry_loop w p (nat (p_Attempts p)) 0 None s)"

section \<open>What the loop does\<close>

definition calls :: "retry_event list \<Rightarrow> goerror option list" where
  "calls tr = List.map_filter (\<lambda>ev. case ev of Called r \<Rightarrow> Some r | Waited d \<Rightarrow> None) tr"

lemma calls_simps [simp]:
  "calls [] = []" "calls (Called r # tr) = r # calls tr" "calls (Waited d # tr) = calls tr"
  by (simp_all add: calls_def List.map_filter_simps)

definition retriable :: "'s Policy \<Rightarrow> goerror \<Rightarrow> bool" where
  "retriable p e \<longleftrightarrow> (case p_ShouldRetry p of None \<Rightarrow> True | Some f \<Rightarrow> f e)"

definition from_context :: "'s surroundings \<Rightarrow> goerror \<Rightarrow> bool" where
  "from_context w e \<longleftrightarrow> (\<exists>s. ctx_Err w s = Some e) \<or> (\<exists>d s. fst (wait_for w d s) = Some e)"

definition loop_ok :: "'s surroundings \<Rightarrow> 's Policy \<Rightarrow> nat \<Rightarrow> goerror option \<Rightarrow>
    retry_result \<Rightarrow> goerror option list \<Rightarrow> bool" where
  "loop_ok w p left final r cs \<longleftrightarrow>
     length cs \<le> left \<and>
     (\<forall>c \<in> set (butlast cs). \<exists>e. c = Some e \<and> retriable p e) \<and>
     (r = RReturned None \<longleftrightarrow> (if cs = [] then left = 0 \<and> final = None else last cs = None)) \<and>
     (\<forall>e. r = RReturned (Some e) \<longrightarrow>
        last (final # cs) = Some e \<or> from_context w e)"

lemma loop_ok_Cons:
  assumes "loop_ok w p left (Some e) r cs" "retriable p e"
  shows "loop_ok w p (Suc left) final r (Some e # cs)"
  using assms by (cases cs) (auto simp: loop_ok_def)

lemma retry_loop_ok:
  "retry_loop w p left i final s = (r, tr, s') \<Longrightarrow> loop_ok w p left final r (calls tr)"
proof (induction left arbitrary: i final s r tr s')
  case 0
  then show ?case by (auto simp: loop_ok_def)
next
  case (Suc left)
  show ?case
  proof (cases "ctx_Err w s")
    case (Some e)
    then show ?thesis using Suc.prems by (auto simp: loop_ok_def from_context_def)
  next
    case ctx: None
    obtain c s1 where c: "call_fn w s = (c, s1)" by (cases "call_fn w s")
    show ?thesis
    proof (cases c)
      case None
      then show ?thesis using Suc.prems ctx c by (auto simp: loop_ok_def)
    next
      case (Some e)
      obtain al s2 where b: "(case p_Budget p of None \<Rightarrow> (True, s1) | Some b \<Rightarrow> b (i + 1) e s1) = (al, s2)"
        by (cases "case p_Budget p of None \<Rightarrow> (True, s1) | Some b \<Rightarrow> b (i + 1) e s1")
      have stop: "loop_ok w p (Suc left) final (RReturned (Some e)) [Some e]"
        "loop_ok w p (Suc left) final RPanicked [Some e]"
        by (auto simp: loop_ok_def)
      show ?thesis
      proof (cases "retriable p e \<and> al")
        case False
        then show ?thesis
          using Suc.prems ctx c Some b stop
          by (auto simp: retriable_def Let_def split: option.splits if_splits)
      next
        case True
        show ?thesis
        proof (cases "nextDelay (p_BackoffFunc p) (p_Backoff p) (i + 1)")
          case None
          then show ?thesis
            using Suc.prems ctx c Some b True stop
            by (auto simp: retriable_def Let_def split: option.splits)
        next
          case (Some delay)
          obtain ce s3 where wf: "wait_for w delay s2 = (ce, s3)" by (cases "wait_for w delay s2")
          then have ended: "ce = Some e' \<Longrightarrow> from_context w e'" for e'
            unfolding from_context_def by (metis fst_conv)
          show ?thesis
            using Suc.prems ctx c \<open>c = Some e\<close> b True Some wf ended Suc.IH [THEN loop_ok_Cons] stop
            by (auto simp: retriable_def Let_def loop_ok_def [of _ _ _ _ _ "[_]"] split: option.splits prod.splits if_splits)
        qed
      qed
    qed
  qed
qed

text \<open>
  C12. \<^verbatim>\<open>Do\<close> never calls the function more than \<^verbatim>\<open>Attempts\<close> times (once when that is not positive); it
  calls it again only after a failure that the policy calls retriable; it returns nil exactly when
  the last call succeeded; and an error it returns is that of the last call or the context's.
\<close>

theorem retry_Do_spec:
  "let (r, tr, s') = retry_Do w p s; cs = calls tr in
   int (length cs) \<le> max 1 (p_Attempts p) \<and>
   (\<forall>i. i + 1 < length cs \<longrightarrow> (\<exists>e. cs ! i = Some e \<and> retriable p e)) \<and>
   (r = RReturned None \<longleftrightarrow> cs \<noteq> [] \<and> last cs = None) \<and>
   (\<forall>e. r = RReturned (Some e) \<longrightarrow> (cs \<noteq> [] \<and> last cs = Some e) \<or> from_context w e)"
proof -
  obtain r tr s' where eq: "retry_Do w p s = (r, tr, s')" by (cases "retry_Do w p s")
  define q where "q = (if p_Attempts p \<le> 0 then p\<lparr>p_Attempts := 1\<rparr> else p)"
  have q: "p_Attempts q = max 1 (p_Attempts p)" "retriable q = retriable p"
    by (auto simp: q_def retriable_def fun_eq_iff)
  have "loop_ok w q (nat (p_Attempts q)) None r (calls tr)"
    using eq unfolding retry_Do_def Let_def q_def [symmetric] by (rule retry_loop_ok)
  moreover have "butlast cs ! i = cs ! i \<and> cs ! i \<in> set (butlast cs)" if "i + 1 < length cs"
    for i and cs :: "goerror option list"
    using that nth_mem [of i "butlast cs"] by (simp add: nth_butlast)
  ultimately show ?thesis
    unfolding eq loop_ok_def q by (auto simp: Let_def split: if_splits)
qed

theorem retry_Do_spec_witness:
  "let w = \<lparr>ctx_Err = (\<lambda>n. None), call_fn = (\<lambda>n. (if n < 1 then Some (Err ''busy'') else None, n + 1)),
            wait_for = (\<lambda>d n. (None, n))\<rparr>;
       p = \<lparr>p_Attempts = 3, p_Backoff = Second, p_BackoffFunc = None, p_Budget = None, p_ShouldRetry = None\<rparr>
   in fst (retry_Do w p (0 :: int)) = RReturned None \<and> retriable p (Err ''busy'')"
proof -
  let ?w = "\<lparr>ctx_Err = (\<lambda>n :: int. None), call_fn = (\<lambda>n. (if n < 1 then Some (Err ''busy'') else None, n + 1)),
            wait_for = (\<lambda>d n. (None, n))\<rparr>"
  let ?p = "\<lparr>p_Attempts = 3, p_Backoff = Second, p_BackoffFunc = None, p_Budget = None, p_ShouldRetry = None\<rparr>
      :: int Policy"
  obtain r tr s' where run: "retry_Do ?w ?p 0 = (r, tr, s')" by (cases "retry_Do ?w ?p 0")
  have tr: "calls tr = [Some (Err ''busy''), None]"
    using run by (auto simp: retry_Do_def nextDelay_def calls_def eval_nat_numeral List.map_filter_simps)
  from retry_Do_spec [of ?w ?p 0]
  have spec: "(\<forall>i. i + 1 < length (calls tr) \<longrightarrow> (\<exists>e. calls tr ! i = Some e \<and> retriable ?p e)) \<and>
      (r = RReturned None \<longleftrightarrow> calls tr \<noteq> [] \<and> last (calls tr) = None)"
    unfolding run Let_def split_conv by blast
  then have "retriable ?p (Err ''busy'')" using tr by (elim conjE allE [of _ 0]) simp
  with spec show ?thesis using tr run by simp
qed

text \<open>The calls a policy allows when nothing interrupts it: its attempts, cut by a fixed budget.\<close>

definition allowance :: "MaxRetriesBudget option \<Rightarrow> int \<Rightarrow> int" where
  "allowance budget attempts =
     (case budget of None \<Rightarrow> max 1 attempts
      | Some b \<Rightarrow> min (max 1 attempts) (max 0 (mb_MaxRetries b) + 1))"

definition undisturbed :: "'s surroundings \<Rightarrow> 's Policy \<Rightarrow> bool" where
  "undisturbed w p \<longleftrightarrow> (\<forall>s. ctx_Err w s = None) \<and> (\<forall>d s. fst (wait_for w d s) = None) \<and>
     p_ShouldRetry p = None \<and> (\<forall>a. nextDelay (p_BackoffFunc p) (p_Backoff p) a \<noteq> None)"

lemma undisturbed_step:
  assumes "undisturbed w p" "p_Budget p = map_option MaxRetriesBudget_AllowRetry budget"
    and "call_fn w s = (Some e, s1)"
    and "\<forall>b. budget = Some b \<longrightarrow> 0 \<le> mb_MaxRetries b \<and> i + 1 \<le> mb_MaxRetries b"
  shows "\<exists>s2 pre. retry_loop w p (Suc left) i final s =
     (case retry_loop w p left (i + 1) (Some e) s2 of (r, tr, s3) \<Rightarrow> (r, pre @ tr, s3)) \<and> calls pre = [Some e]"
proof -
  obtain delay where d: "nextDelay (p_BackoffFunc p) (p_Backoff p) (i + 1) = Some delay"
    using assms(1) unfolding undisturbed_def by blast
  obtain s2 where wf: "wait_for w delay s1 = (None, s2)"
    using assms(1) unfolding undisturbed_def by (metis prod.collapse)
  have al: "(case p_Budget p of None \<Rightarrow> (True, s1) | Some b \<Rightarrow> b (i + 1) e s1) = (True, s1)"
    using assms(2,4) by (auto simp: MaxRetriesBudget_AllowRetry_def split: option.splits)
  show ?thesis
  proof (cases "left = 0 \<or> delay \<le> 0")
    case True
    then have "retry_loop w p (Suc left) i final s =
        (case retry_loop w p left (i + 1) (Some e) s1 of (r, tr, s3) \<Rightarrow> (r, [Called (Some e)] @ tr, s3))"
      using assms(1,3) d al by (auto simp: undisturbed_def Let_def split_beta)
    moreover have "calls [Called (Some e)] = [Some e]" by simp
    ultimately show ?thesis by blast
  next
    case False
    then have "retry_loop w p (Suc left) i final s =
        (case retry_loop w p left (i + 1) (Some e) s2 of (r, tr, s3) \<Rightarrow> (r, [Called (Some e), Waited delay] @ tr, s3))"
      using assms(1,3) d al wf by (auto simp: undisturbed_def Let_def split_beta)
    moreover have "calls [Called (Some e), Waited delay] = [Some e]" by simp
    ultimately show ?thesis by blast
  qed
qed

lemma undisturbed_stop:
  assumes "undisturbed w p" "p_Budget p = map_option MaxRetriesBudget_AllowRetry (Some b)"
    and "call_fn w s = (Some e, s1)" "\<not> (0 \<le> mb_MaxRetries b \<and> i + 1 \<le> mb_MaxRetries b)"
  shows "retry_loop w p (Suc left) i final s = (RReturned (Some e), [Called (Some e)], s1)"
  using assms by (auto simp: undisturbed_def Let_def MaxRetriesBudget_AllowRetry_def)

lemma retry_loop_persists:
  assumes "undisturbed w p" "p_Budget p = map_option MaxRetriesBudget_AllowRetry budget" "0 \<le> i"
    and "\<forall>b. budget = Some b \<longrightarrow> i \<le> max 0 (mb_MaxRetries b)"
    and "retry_loop w p (Suc left) i final s = (r, tr, s')"
  shows "calls tr \<noteq> [] \<and> r = RReturned (last (calls tr)) \<and>
     (last (calls tr) = None \<or>
      int (length (calls tr)) + i = (case budget of None \<Rightarrow> i + 1 + int left
         | Some b \<Rightarrow> min (i + 1 + int left) (max 0 (mb_MaxRetries b) + 1)))"
  using assms(3-5)
proof (induction left arbitrary: i final s r tr s')
  case 0
  obtain c s1 where c: "call_fn w s = (c, s1)" by (cases "call_fn w s")
  have ctx: "ctx_Err w s = None" using assms(1) by (simp add: undisturbed_def)
  show ?case
  proof (cases c)
    case None
    then show ?thesis using 0 c ctx by auto
  next
    case (Some e)
    show ?thesis
    proof (cases "\<forall>b. budget = Some b \<longrightarrow> 0 \<le> mb_MaxRetries b \<and> i + 1 \<le> mb_MaxRetries b")
      case True
      from undisturbed_step [OF assms(1,2) c [unfolded Some] True, of 0 final] 0 Some show ?thesis
        by (auto simp del: retry_loop.simps(2) split: option.splits)
    next
      case False
      then obtain b where b: "budget = Some b" "\<not> (0 \<le> mb_MaxRetries b \<and> i + 1 \<le> mb_MaxRetries b)" by blast
      from undisturbed_stop [OF assms(1) _ c [unfolded Some] b(2), of 0 final] assms(2) 0 b show ?thesis by auto
    qed
  qed
next
  case (Suc left)
  obtain c s1 where c: "call_fn w s = (c, s1)" by (cases "call_fn w s")
  have ctx: "ctx_Err w s = None" using assms(1) by (simp add: undisturbed_def)
  show ?case
  proof (cases c)
    case None
    then show ?thesis using Suc.prems c ctx by auto
  next
    case (Some e)
    show ?thesis
    proof (cases "\<forall>b. budget = Some b \<longrightarrow> 0 \<le> mb_MaxRetries b \<and> i + 1 \<le> mb_MaxRetries b")
      case True
      obtain s2 pre where step: "retry_loop w p (Suc (Suc left)) i final s =
          (case retry_loop w p (Suc left) (i + 1) (Some e) s2 of (r, tr, s3) \<Rightarrow> (r, pre @ tr, s3))"
        "calls pre = [Some e]"
        using undisturbed_step [OF assms(1,2) c [unfolded Some] True, of "Suc left" final] by blast
      obtain r1 tr1 s3 where rest: "retry_loop w p (Suc left) (i + 1) (Some e) s2 = (r1, tr1, s3)"
        by (cases "retry_loop w p (Suc left) (i + 1) (Some e) s2")
      have "calls tr = Some e # calls tr1" "r = r1"
        using step rest Suc.prems(3) by (auto simp: calls_def List.map_filter_def simp del: retry_loop.simps)
      moreover have "\<forall>b. budget = Some b \<longrightarrow> i + 1 \<le> max 0 (mb_MaxRetries b)" using True by auto
      ultimately show ?thesis
        using Suc.IH [OF _ _ rest] Suc.prems(1) by (auto split: option.splits)
    next
      case False
      then obtain b where b: "budget = Some b" "\<not> (0 \<le> mb_MaxRetries b \<and> i + 1 \<le> mb_MaxRetries b)" by blast
      from undisturbed_stop [OF assms(1) _ c [unfolded Some] b(2), of "Suc left" final] assms(2) Suc.prems b
      show ?thesis by auto
    qed
  qed
qed

text \<open>
  Undisturbed, \<^verbatim>\<open>Do\<close> keeps trying until a call succeeds or its allowance is used up: it returns
  the outcome of the last call, and if that is a failure it made exactly as many calls as the
  attempts and the budget allow.
\<close>

theorem retry_Do_persists:
  assumes "undisturbed w p" and "p_Budget p = map_option MaxRetriesBudget_AllowRetry budget"
    and "retry_Do w p s = (r, tr, s')"
  shows "r = RReturned (last (calls tr)) \<and> calls tr \<noteq> [] \<and>
     (last (calls tr) \<noteq> None \<longrightarrow> int (length (calls tr)) = allowance budget (p_Attempts p))"
proof -
  define q where "q = (if p_Attempts p \<le> 0 then p\<lparr>p_Attempts := 1\<rparr> else p)"
  have q: "undisturbed w q" "p_Budget q = map_option MaxRetriesBudget_AllowRetry budget"
    "p_Attempts q = max 1 (p_Attempts p)"
    using assms(1,2) by (auto simp: q_def undisturbed_def)
  then obtain left where left: "nat (p_Attempts q) = Suc left" "int left = max 1 (p_Attempts p) - 1"
    by (cases "nat (p_Attempts q)") auto
  have "retry_loop w q (Suc left) 0 None s = (r, tr, s')"
    using assms(3) left(1) unfolding retry_Do_def Let_def q_def [symmetric] by simp
  from retry_loop_persists [OF q(1,2) _ _ this] left(2) show ?thesis
    by (auto simp: allowance_def split: option.splits)
qed

theorem retry_Do_persists_witness:
  "let w = \<lparr>ctx_Err = (\<lambda>n. None), call_fn = (\<lambda>n. (if n < 2 then Some (Err ''busy'') else None, n + 1)),
            wait_for = (\<lambda>d n. (None, n))\<rparr>;
       p = \<lparr>p_Attempts = 5, p_Backoff = Second, p_BackoffFunc = None, p_Budget = None, p_ShouldRetry = None\<rparr>
   in fst (retry_Do w p (0 :: int)) = RReturned None"
proof -
  let ?w = "\<lparr>ctx_Err = (\<lambda>n :: int. None), call_fn = (\<lambda>n. (if n < 2 then Some (Err ''busy'') else None, n + 1)),
            wait_for = (\<lambda>d n. (None, n))\<rparr>"
  let ?p = "\<lparr>p_Attempts = 5, p_Backoff = Second, p_BackoffFunc = None, p_Budget = None, p_ShouldRetry = None\<rparr>"
  obtain r tr s' where run: "retry_Do ?w ?p 0 = (r, tr, s')" by (cases "retry_Do ?w ?p 0")
  have "undisturbed ?w ?p" "p_Budget ?p = map_option MaxRetriesBudget_AllowRetry None"
    by (simp_all add: undisturbed_def nextDelay_def)
  from retry_Do_persists [OF this run] have "r = RReturned (last (calls tr))" by blast
  moreover have "tr = [Called (Some (Err ''busy'')), Waited Second, Called (Some (Err ''busy'')), Waited Second, Called None]"
    using run by (simp add: retry_Do_def nextDelay_def eval_nat_numeral)
  ultimately show ?thesis using run by simp
qed

section \<open>Delays\<close>

text \<open>As long as the doubling fits 64 bits the exponential backoff is the doubled base, cut at the maximum.\<close>

lemma ExponentialBackoff_doubles:
  assumes "0 < base" "0 < mx" "1 \<le> attempt" "attempt \<le> 62" "base * 2 ^ nat (attempt - 1) < 2 ^ 63"
  shows "ExponentialBackoff base mx attempt = Some (min mx (base * 2 ^ nat (attempt - 1)))"
proof -
  have pos: "0 < base * 2 ^ nat (attempt - 1)" using assms(1) by simp
  then have "wrap64 (base * 2 ^ nat (attempt - 1)) = base * 2 ^ nat (attempt - 1)"
    using assms(5) by (intro wrap64_id) (simp add: int64_range_def)
  with assms(1-4) pos show ?thesis by (auto simp: ExponentialBackoff_def Let_def min_def not_less)
qed

text \<open>
  Beyond that the product wraps around and the cap is lost: with a base of one second and a cap of
  one minute, the 56th and every later attempt waits for no time at all.
\<close>

lemma ExponentialBackoff_overflow:
  assumes "56 \<le> attempt"
  shows "ExponentialBackoff Second Minute attempt = Some 0"
proof -
  have wrap: "wrap64 (1000000000 * 2 ^ (55 + k)) = 0" for k
  proof -
    have "1000000000 * 2 ^ (55 + k) = (2 ^ 64) * (1953125 * 2 ^ k :: int)" by (simp add: power_add)
    then show ?thesis unfolding wrap64_def by (simp only: mod_mult_self4) simp
  qed
  define k where "k = nat (min attempt 62 - 56)"
  have "nat ((if attempt > 62 then 62 else attempt) - 1) = 55 + k"
    using assms by (auto simp: k_def nat_add_distrib min_def)
  then show ?thesis using assms wrap [of k] by (auto simp: ExponentialBackoff_def Let_def)
qed

lemma math_Round_bounds: "0 \<le> x \<Longrightarrow> 0 \<le> math_Round x" "0 \<le> x \<Longrightarrow> x \<le> of_int n \<Longrightarrow> math_Round x \<le> n"
  by (auto simp: math_Round_def floor_le_iff)

text \<open>
  C13. A jittered exponential delay: while the doubling fits, and for any draw of the random source,
  the delay is non-negative, differs from the capped exponential delay by at most its share
  \<open>ratio\<close> (rounded), and so never exceeds twice the cap.
\<close>

theorem JitterBackoff_bounds:
  assumes "0 < base" and "0 < mx" and "mx \<le> 2 ^ 53" and "1 \<le> attempt" and "attempt \<le> 62"
    and "base * 2 ^ nat (attempt - 1) < 2 ^ 63" and "0 < ratio" and "ratio \<le> 1"
    and "\<And>n. 0 < n \<Longrightarrow> 0 \<le> draw n \<and> draw n < n"
  shows "\<exists>j. JitterBackoff draw (Some (ExponentialBackoff base mx)) ratio attempt = Some j \<and>
     0 \<le> j \<and> j \<le> 2 * mx \<and>
     (let d = min mx (base * 2 ^ nat (attempt - 1))
      in \<bar>j - d\<bar> \<le> math_Round (fmul (of_int d) ratio))"
proof -
  define d where "d = min mx (base * 2 ^ nat (attempt - 1))"
  define span where "span = math_Round (fmul (of_int d) ratio)"
  have d: "0 < d" "d \<le> mx" "d \<le> 2 ^ 53" using assms(1-3) by (auto simp: d_def)
  have delay: "nextDelay (Some (ExponentialBackoff base mx)) 0 attempt = Some d"
    using ExponentialBackoff_doubles [OF assms(1,2,4-6)] by (simp add: nextDelay_def d_def)
  have f: "float64_of_int d = of_int d" using d by (intro float64_of_int_exact) simp
  have "of_int d * ratio \<le> of_int d" using d(1) assms(8) by simp
  then have "fmul (of_int d) ratio \<le> of_int d"
    unfolding fmul_def using d by (intro fl_le_int) simp_all
  then have span: "0 \<le> span" "span \<le> d"
    using d(1) assms(7) by (auto simp: span_def fmul_def intro!: math_Round_bounds)
  have w: "wrap64 span = span" "wrap64 (span * 2 + 1) = span * 2 + 1"
    using span d by (auto intro!: wrap64_id simp: int64_range_def)
  define r where "r = draw (span * 2 + 1)"
  have r: "0 \<le> r" "r < span * 2 + 1" using assms(9) [of "span * 2 + 1"] span(1) by (auto simp: r_def)
  have wj: "wrap64 (d + (r - span)) = d + (r - span)"
    using r span d by (intro wrap64_id) (simp add: int64_range_def)
  have "JitterBackoff draw (Some (ExponentialBackoff base mx)) ratio attempt =
      (if span \<le> 0 then Some d else Some (d + (r - span)))"
    using delay d(1) assms(7,8) f w wj span r
    by (auto simp: JitterBackoff_def Let_def rand_Int64N_def r_def span_def)
  moreover have "\<bar>d + (r - span) - d\<bar> \<le> span" "0 \<le> d + (r - span)" "d + (r - span) \<le> 2 * mx"
    using r span d by auto
  ultimately show ?thesis
    unfolding Let_def d_def [symmetric] span_def [symmetric] using span d by auto
qed

theorem JitterBackoff_bounds_witness:
  "\<exists>j. JitterBackoff (\<lambda>n. 0) (Some (ExponentialBackoff Second Minute)) (1 / 2) 3 = Some j \<and>
     0 \<le> j \<and> j \<le> 2 * Minute"
  using JitterBackoff_bounds [of Second Minute 3 "1 / 2" "\<lambda>n. 0"] by (auto simp: Let_def)

end
