(* ===== verification/KV.thy ===== *)
theory KV
  imports Prelude
begin

text \<open>
  The key-value stores of \<^verbatim>\<open>core/kv/kv.go\<close>: the in-memory store with expiry, and the Redis store that
  forwards to a client. A byte slice is a string; copies made of it are not visible in a value type.
  Two readings of the clock inside one method are two arguments (\<open>now\<close> for the lookup, \<open>later\<close> for
  the new expiry). The \<^verbatim>\<open>Store\<close> interface is the record \<open>KVStore\<close> of its operations.

  Interface: \<open>kv_store\<close> says what a client of the interface may rely on, through \<open>view\<close>, the entries
  of the store that are alive at a time. The in-memory store interprets it; the KV lock of
  \<open>Lock\<close> is proved against it.
\<close>

section \<open>The in-memory store\<close>

definition KV_ErrNotFound :: goerror where "KV_ErrNotFound = Err ''kv key not found''"
definition KV_ErrClosed :: goerror where "KV_ErrClosed = Err ''kv store is closed''"

record KVEntry =
  ke_value :: string
  ke_expiresAt :: time

record KVSnapshot =
  ks_Entries :: int
  ks_Sets :: int
  ks_Hits :: int
  ks_Misses :: int
  ks_Deletes :: int
  ks_Expired :: int

record KVMemoryStore =
  km_items :: "(string, KVEntry) gomap"
  km_closed :: bool
  km_stats :: KVSnapshot

definition KV_NewMemoryStore :: KVMemoryStore where
  "KV_NewMemoryStore = \<lparr>km_items = [], km_closed = False,
     km_stats = \<lparr>ks_Entries = 0, ks_Sets = 0, ks_Hits = 0, ks_Misses = 0, ks_Deletes = 0, ks_Expired = 0\<rparr>\<rparr>"

definition KV_expiresAt :: "time \<Rightarrow> duration \<Rightarrow> time" where
  "KV_expiresAt now ttl = (if ttl \<le> 0 then 0 else now + ttl)"

definition KVEntry_expired :: "time \<Rightarrow> KVEntry \<Rightarrow> bool" where
  "KVEntry_expired now ent \<longleftrightarrow> ke_expiresAt ent \<noteq> 0 \<and> \<not> now < ke_expiresAt ent"

definition KVMemoryStore_getLocked ::
  "string \<Rightarrow> time \<Rightarrow> KVMemoryStore \<Rightarrow> KVEntry option \<times> KVMemoryStore" where
  "KVMemoryStore_getLocked key now s =
     (case m_get (km_items s) key of None \<Rightarrow> (None, s)
      | Some ent \<Rightarrow>
          if KVEntry_expired now ent
          then (None, s\<lparr>km_items := m_del key (km_items s),
                        km_stats := (km_stats s)\<lparr>ks_Expired := ks_Expired (km_stats s) + 1\<rparr>\<rparr>)
          else (Some ent, s))"

definition KVMemoryStore_checkOpenLocked :: "KVMemoryStore \<Rightarrow> goerror option" where
  "KVMemoryStore_checkOpenLocked s = (if km_closed s then Some KV_ErrClosed else None)"

text \<open>The prologue of every operation: the context, the nil receiver, the closed store.\<close>

definition KV_guard :: "goerror option \<Rightarrow> KVMemoryStore option \<Rightarrow> (goerror + KVMemoryStore)" where
  "KV_guard ctxErr os =
     (case ctxErr of Some e \<Rightarrow> Inl e
      | None \<Rightarrow> (case os of None \<Rightarrow> Inl KV_ErrClosed
                 | Some s \<Rightarrow> (case KVMemoryStore_checkOpenLocked s of Some e \<Rightarrow> Inl e | None \<Rightarrow> Inr s)))"

definition KVMemoryStore_Get ::
  "goerror option \<Rightarrow> time \<Rightarrow> string \<Rightarrow> KVMemoryStore option \<Rightarrow> (goerror + string) \<times> KVMemoryStore option" where
  "KVMemoryStore_Get ctxErr now key os =
     (case KV_guard ctxErr os of Inl e \<Rightarrow> (Inl e, os)
      | Inr s \<Rightarrow>
          (case KVMemoryStore_getLocked key now s of
             (None, s') \<Rightarrow>
               (Inl KV_ErrNotFound, Some (s'\<lparr>km_stats := (km_stats s')\<lparr>ks_Misses := ks_Misses (km_stats s') + 1\<rparr>\<rparr>))
           | (Some ent, s') \<Rightarrow>
               (Inr (ke_value ent), Some (s'\<lparr>km_stats := (km_stats s')\<lparr>ks_Hits := ks_Hits (km_stats s') + 1\<rparr>\<rparr>))))"

definition KV_put :: "string \<Rightarrow> KVEntry \<Rightarrow> KVMemoryStore \<Rightarrow> KVMemoryStore" where
  "KV_put key ent s = s\<lparr>km_items := m_put key ent (km_items s),
     km_stats := (km_stats s)\<lparr>ks_Sets := ks_Sets (km_stats s) + 1\<rparr>\<rparr>"

definition KVMemoryStore_Set ::
  "goerror option \<Rightarrow> time \<Rightarrow> string \<Rightarrow> string \<Rightarrow> duration \<Rightarrow> KVMemoryStore option \<Rightarrow>
   goerror option \<times> KVMemoryStore option" where
  "KVMemoryStore_Set ctxErr later key val ttl os =
     (case KV_guard ctxErr os of Inl e \<Rightarrow> (Some e, os)
      | Inr s \<Rightarrow> (None, Some (KV_put key \<lparr>ke_value = val, ke_expiresAt = KV_expiresAt later ttl\<rparr> s)))"

definition KVMemoryStore_SetNX ::
  "goerror option \<Rightarrow> time \<Rightarrow> time \<Rightarrow> string \<Rightarrow> string \<Rightarrow> duration \<Rightarrow> KVMemoryStore option \<Rightarrow>
   (goerror + bool) \<times> KVMemoryStore option" where
  "KVMemoryStore_SetNX ctxErr now later key val ttl os =
     (case KV_guard ctxErr os of Inl e \<Rightarrow> (Inl e, os)
      | Inr s \<Rightarrow>
          (case KVMemoryStore_getLocked key now s of
             (Some ent, s') \<Rightarrow> (Inr False, Some s')
           | (None, s') \<Rightarrow>
               (Inr True, Some (KV_put key \<lparr>ke_value = val, ke_expiresAt = KV_expiresAt later ttl\<rparr> s'))))"

definition KVMemoryStore_Delete ::
  "goerror option \<Rightarrow> string \<Rightarrow> KVMemoryStore option \<Rightarrow> (goerror + bool) \<times> KVMemoryStore option" where
  "KVMemoryStore_Delete ctxErr key os =
     (case KV_guard ctxErr os of Inl e \<Rightarrow> (Inl e, os)
      | Inr s \<Rightarrow>
          (case m_get (km_items s) key of None \<Rightarrow> (Inr False, Some s)
           | Some ent \<Rightarrow>
               (Inr True, Some (s\<lparr>km_items := m_del key (km_items s),
                  km_stats := (km_stats s)\<lparr>ks_Deletes := ks_Deletes (km_stats s) + 1\<rparr>\<rparr>))))"

definition KVMemoryStore_Exists ::
  "goerror option \<Rightarrow> time \<Rightarrow> string \<Rightarrow> KVMemoryStore option \<Rightarrow> (goerror + bool) \<times> KVMemoryStore option" where
  "KVMemoryStore_Exists ctxErr now key os =
     (case KV_guard ctxErr os of Inl e \<Rightarrow> (Inl e, os)
      | Inr s \<Rightarrow>
          (case KVMemoryStore_getLocked key now s of (ent, s') \<Rightarrow> (Inr (ent \<noteq> None), Some s')))"

definition KVMemoryStore_TTL ::
  "goerror option \<Rightarrow> time \<Rightarrow> time \<Rightarrow> string \<Rightarrow> KVMemoryStore option \<Rightarrow>
   (goerror + duration) \<times> KVMemoryStore option" where
  "KVMemoryStore_TTL ctxErr now later key os =
     (case KV_guard ctxErr os of Inl e \<Rightarrow> (Inl e, os)
      | Inr s \<Rightarrow>
          (case KVMemoryStore_getLocked key now s of
             (None, s') \<Rightarrow> (Inl KV_ErrNotFound, Some s')
           | (Some ent, s') \<Rightarrow>
               (Inr (if ke_expiresAt ent = 0 then 0 else time_Sub (ke_expiresAt ent) later), Some s')))"

definition KVMemoryStore_Close :: "KVMemoryStore option \<Rightarrow> KVMemoryStore option" where
  "KVMemoryStore_Close os =
     (case os of None \<Rightarrow> None | Some s \<Rightarrow> Some (s\<lparr>km_closed := True, km_items := []\<rparr>))"

definition KVMemoryStore_cleanupLocked :: "time \<Rightarrow> KVMemoryStore \<Rightarrow> KVMemoryStore" where
  "KVMemoryStore_cleanupLocked now s =
     (let (items, n) = m_sweep (\<lambda>(key, ent). KVEntry_expired now ent) (km_items s)
      in s\<lparr>km_items := items, km_stats := (km_stats s)\<lparr>ks_Expired := ks_Expired (km_stats s) + n\<rparr>\<rparr>)"

definition KVMemoryStore_Snapshot ::
  "time \<Rightarrow> KVMemoryStore option \<Rightarrow> KVSnapshot \<times> KVMemoryStore option" where
  "KVMemoryStore_Snapshot now os =
     (case os of
        None \<Rightarrow> (\<lparr>ks_Entries = 0, ks_Sets = 0, ks_Hits = 0, ks_Misses = 0, ks_Deletes = 0, ks_Expired = 0\<rparr>, None)
      | Some s \<Rightarrow>
          (let s' = KVMemoryStore_cleanupLocked now s
           in ((km_stats s')\<lparr>ks_Entries := int (length (km_items s'))\<rparr>, Some s')))"

section \<open>The Store interface\<close>

record 's KVStore =
  kv_Get :: "goerror option \<Rightarrow> time \<Rightarrow> string \<Rightarrow> 's \<Rightarrow> (goerror + string) \<times> 's"
  kv_Set :: "goerror option \<Rightarrow> time \<Rightarrow> string \<Rightarrow> string \<Rightarrow> duration \<Rightarrow> 's \<Rightarrow> goerror option \<times> 's"
  kv_SetNX :: "goerror option \<Rightarrow> time \<Rightarrow> time \<Rightarrow> string \<Rightarrow> string \<Rightarrow> duration \<Rightarrow> 's \<Rightarrow> (goerror + bool) \<times> 's"
  kv_Delete :: "goerror option \<Rightarrow> string \<Rightarrow> 's \<Rightarrow> (goerror + bool) \<times> 's"
  kv_Exists :: "goerror option \<Rightarrow> time \<Rightarrow> string \<Rightarrow> 's \<Rightarrow> (goerror + bool) \<times> 's"
  kv_TTL :: "goerror option \<Rightarrow> time \<Rightarrow> time \<Rightarrow> string \<Rightarrow> 's \<Rightarrow> (goerror + duration) \<times> 's"

definition KVMemoryStore_ops :: "KVMemoryStore option KVStore" where
  "KVMemoryStore_ops = \<lparr>kv_Get = KVMemoryStore_Get, kv_Set = KVMemoryStore_Set,
     kv_SetNX = KVMemoryStore_SetNX, kv_Delete = KVMemoryStore_Delete,
     kv_Exists = KVMemoryStore_Exists, kv_TTL = KVMemoryStore_TTL\<rparr>"

text \<open>The Redis store forwards to its client, itself a record of operations; a nil client is closed.\<close>

definition RedisStore_Get where
  "RedisStore_Get client ctxErr now key s =
     (case client of None \<Rightarrow> (Inl KV_ErrClosed, s) | Some c \<Rightarrow> kv_Get c ctxErr now key s)"

definition RedisStore_Set where
  "RedisStore_Set client ctxErr now key val ttl s =
     (case client of None \<Rightarrow> (Some KV_ErrClosed, s) | Some c \<Rightarrow> kv_Set c ctxErr now key val ttl s)"

definition RedisStore_SetNX where
  "RedisStore_SetNX client ctxErr now later key val ttl s =
     (case client of None \<Rightarrow> (Inl KV_ErrClosed, s) | Some c \<Rightarrow> kv_SetNX c ctxErr now later key val ttl s)"

definition RedisStore_Delete where
  "RedisStore_Delete client ctxErr key s =
     (case client of None \<Rightarrow> (Inl KV_ErrClosed, s) | Some c \<Rightarrow> kv_Delete c ctxErr key s)"

definition RedisStore_Exists where
  "RedisStore_Exists client ctxErr now key s =
     (case client of None \<Rightarrow> (Inl KV_ErrClosed, s) | Some c \<Rightarrow> kv_Exists c ctxErr now key s)"

definition RedisStore_TTL where
  "RedisStore_TTL client ctxErr now later key s =
     (case client of None \<Rightarrow> (Inl KV_ErrClosed, s) | Some c \<Rightarrow> kv_TTL c ctxErr now later key s)"

definition RedisStore_ops :: "'s KVStore option \<Rightarrow> 's KVStore" where
  "RedisStore_ops client = \<lparr>kv_Get = RedisStore_Get client, kv_Set = RedisStore_Set client,
     kv_SetNX = RedisStore_SetNX client, kv_Delete = RedisStore_Delete client,
     kv_Exists = RedisStore_Exists client, kv_TTL = RedisStore_TTL client\<rparr>"

lemma RedisStore_forwards: "RedisStore_ops (Some c) = c" for c :: "'s KVStore"
  by (simp add: RedisStore_ops_def RedisStore_Get_def [abs_def] RedisStore_Set_def [abs_def]
      RedisStore_SetNX_def [abs_def] RedisStore_Delete_def [abs_def] RedisStore_Exists_def [abs_def]
      RedisStore_TTL_def [abs_def])

section \<open>The contract of a store\<close>

text \<open>An entry with its expiry (0: none), as long as it is alive.\<close>

definition alive :: "time \<Rightarrow> string \<times> time \<Rightarrow> (string \<times> time) option" where
  "alive t = (\<lambda>(v, e). if e = 0 \<or> t < e then Some (v, e) else None)"

locale kv_store =
  fixes ops :: "'s KVStore"
    and view :: "time \<Rightarrow> 's \<Rightarrow> string \<Rightarrow> (string \<times> time) option"
    and opened :: "'s \<Rightarrow> bool"
  assumes view_later: "opened s \<Longrightarrow> t \<le> t' \<Longrightarrow> view t' s k = Option.bind (view t s k) (alive t')"
    and get_law: "opened s \<Longrightarrow> kv_Get ops None t k s = (r, s') \<Longrightarrow>
      opened s' \<and> (\<forall>t' \<ge> t. view t' s' = view t' s) \<and>
      r = (case view t s k of None \<Rightarrow> Inl KV_ErrNotFound | Some (v, e) \<Rightarrow> Inr v)"
    and set_law: "opened s \<Longrightarrow> kv_Set ops None t k v ttl s = (err, s') \<Longrightarrow>
      opened s' \<and> err = None \<and>
      (\<forall>t'. view t' s' = (view t' s)(k := alive t' (v, KV_expiresAt t ttl)))"
    and setnx_law: "opened s \<Longrightarrow> kv_SetNX ops None t u k v ttl s = (r', s') \<Longrightarrow>
      opened s' \<and> r' = Inr (view t s k = None) \<and>
      (\<forall>t' \<ge> t. view t' s' = (if view t s k = None
         then (view t' s)(k := alive t' (v, KV_expiresAt u ttl)) else view t' s))"
    and delete_law: "opened s \<Longrightarrow> kv_Delete ops None k s = (r', s') \<Longrightarrow>
      opened s' \<and> (\<exists>b. r' = Inr b) \<and> (\<forall>t'. view t' s' = (view t' s)(k := None))"
begin

lemma view_alive:
  assumes "opened s" "view t s k = Some (v, e)"
  shows "e = 0 \<or> t < e"
  using view_later [OF assms(1) order_refl, of t k] assms(2) by (auto simp: alive_def split: if_splits)

lemma view_kept:
  assumes "opened s" "view t s k = Some (v, e)" "t \<le> t'" "t' < e"
  shows "view t' s k = Some (v, e)"
  using view_later [OF assms(1,3), of k] assms(2,4) by (simp add: alive_def)

end

definition KVMemoryStore_view :: "time \<Rightarrow> KVMemoryStore option \<Rightarrow> string \<Rightarrow> (string \<times> time) option" where
  "KVMemoryStore_view t os k =
     (case os of None \<Rightarrow> None
      | Some s \<Rightarrow> Option.bind (m_get (km_items s) k) (\<lambda>ent. alive t (ke_value ent, ke_expiresAt ent)))"

definition KVMemoryStore_open :: "KVMemoryStore option \<Rightarrow> bool" where
  "KVMemoryStore_open os \<longleftrightarrow> (\<exists>s. os = Some s \<and> \<not> km_closed s)"

named_theorems kv_defs
lemmas kv_op_defs [kv_defs] = KV_guard_def KVMemoryStore_checkOpenLocked_def KVMemoryStore_getLocked_def
  KVMemoryStore_Get_def KVMemoryStore_Set_def KVMemoryStore_SetNX_def KVMemoryStore_Delete_def
  KVMemoryStore_Exists_def KVMemoryStore_TTL_def KV_put_def KVEntry_expired_def

interpretation kvm: kv_store KVMemoryStore_ops KVMemoryStore_view KVMemoryStore_open
proof unfold_locales
  fix s k and t t' :: time
  assume "KVMemoryStore_open s" "t \<le> t'"
  moreover from this obtain m where "s = Some m" by (auto simp: KVMemoryStore_open_def)
  ultimately show "KVMemoryStore_view t' s k = Option.bind (KVMemoryStore_view t s k) (alive t')"
    by (cases "m_get (km_items m) k") (auto simp: KVMemoryStore_view_def alive_def)
next
  fix s t k r s'
  assume "KVMemoryStore_open s" "kv_Get KVMemoryStore_ops None t k s = (r, s')"
  then show "KVMemoryStore_open s' \<and> (\<forall>t' \<ge> t. KVMemoryStore_view t' s' = KVMemoryStore_view t' s) \<and>
      r = (case KVMemoryStore_view t s k of None \<Rightarrow> Inl KV_ErrNotFound | Some (v, e) \<Rightarrow> Inr v)"
    by (auto simp: KVMemoryStore_open_def KVMemoryStore_ops_def KVMemoryStore_view_def alive_def kv_defs
        fun_eq_iff split: option.splits if_splits)
next
  fix s t k v ttl err s'
  assume "KVMemoryStore_open s" "kv_Set KVMemoryStore_ops None t k v ttl s = (err, s')"
  then show "KVMemoryStore_open s' \<and> err = None \<and>
      (\<forall>t'. KVMemoryStore_view t' s' = (KVMemoryStore_view t' s)(k := alive t' (v, KV_expiresAt t ttl)))"
    by (auto simp: KVMemoryStore_open_def KVMemoryStore_ops_def KVMemoryStore_view_def kv_defs fun_eq_iff)
next
  fix s t u k v ttl r' s'
  assume "KVMemoryStore_open s" "kv_SetNX KVMemoryStore_ops None t u k v ttl s = (r', s')"
  then show "KVMemoryStore_open s' \<and> r' = Inr (KVMemoryStore_view t s k = None) \<and>
      (\<forall>t' \<ge> t. KVMemoryStore_view t' s' = (if KVMemoryStore_view t s k = None
         then (KVMemoryStore_view t' s)(k := alive t' (v, KV_expiresAt u ttl)) else KVMemoryStore_view t' s))"
    by (auto simp: KVMemoryStore_open_def KVMemoryStore_ops_def KVMemoryStore_view_def alive_def kv_defs
        fun_eq_iff split: option.splits if_splits)
next
  fix s k r' s'
  assume "KVMemoryStore_open s" "kv_Delete KVMemoryStore_ops None k s = (r', s')"
  then show "KVMemoryStore_open s' \<and> (\<exists>b. r' = Inr b) \<and>
      (\<forall>t'. KVMemoryStore_view t' s' = (KVMemoryStore_view t' s)(k := None))"
    by (auto simp: KVMemoryStore_open_def KVMemoryStore_ops_def KVMemoryStore_view_def kv_defs fun_eq_iff
        split: option.splits)
qed

section \<open>The store is a map with expiry\<close>

text \<open>
  The specification of the store: a function from keys to values with an expiry, or \<open>None\<close> once it is closed. Only
  entries that are alive are visible; a lookup drops an expired entry that it meets, and a snapshot drops them all.
  Delete answers whether it dropped an entry, alive or not.
\<close>

datatype kv_op = KGet string | KSet string string duration | KSetNX string string duration
  | KDelete string | KExists string | KTTL string | KSnapshot | KClose

datatype kv_answer = AValue "goerror + string" | ADone "goerror option" | ABool "goerror + bool"
  | ATTL "goerror + duration" | ACount int

type_synonym kv_map = "string \<Rightarrow> (string \<times> time) option"

definition live_map :: "time \<Rightarrow> kv_map \<Rightarrow> kv_map" where
  "live_map t m = (\<lambda>k. Option.bind (m k) (alive t))"

definition purge :: "time \<Rightarrow> string \<Rightarrow> kv_map \<Rightarrow> kv_map" where
  "purge t k m = (if live_map t m k = None then m(k := None) else m)"

fun kv_error :: "kv_op \<Rightarrow> goerror \<Rightarrow> kv_answer" where
  "kv_error (KGet k) e = AValue (Inl e)"
| "kv_error (KSet k v ttl) e = ADone (Some e)"
| "kv_error (KTTL k) e = ATTL (Inl e)"
| "kv_error op e = ABool (Inl e)"

fun kv_open :: "kv_op \<Rightarrow> time \<Rightarrow> time \<Rightarrow> kv_map \<Rightarrow> kv_answer \<times> kv_map" where
  "kv_open (KGet k) now later m =
     (AValue (case live_map now m k of None \<Rightarrow> Inl KV_ErrNotFound | Some (v, e) \<Rightarrow> Inr v), purge now k m)"
| "kv_open (KSet k v ttl) now later m = (ADone None, m(k \<mapsto> (v, KV_expiresAt later ttl)))"
| "kv_open (KSetNX k v ttl) now later m =
     (if live_map now m k = None then (ABool (Inr True), m(k \<mapsto> (v, KV_expiresAt later ttl)))
      else (ABool (Inr False), m))"
| "kv_open (KDelete k) now later m = (ABool (Inr (m k \<noteq> None)), m(k := None))"
| "kv_open (KExists k) now later m = (ABool (Inr (live_map now m k \<noteq> None)), purge now k m)"
| "kv_open (KTTL k) now later m =
     (ATTL (case live_map now m k of None \<Rightarrow> Inl KV_ErrNotFound
            | Some (v, e) \<Rightarrow> Inr (if e = 0 then 0 else time_Sub e later)), purge now k m)"
| "kv_open op now later m = (ADone None, m)"

definition kv_spec :: "kv_op \<Rightarrow> goerror option \<Rightarrow> time \<Rightarrow> time \<Rightarrow> kv_map option \<Rightarrow> kv_answer \<times> kv_map option" where
  "kv_spec op ctxErr now later s =
     (if op = KClose then (ADone None, None)
      else if op = KSnapshot then
        (case s of None \<Rightarrow> (ACount 0, None) | Some m \<Rightarrow> (ACount (int (card (dom (live_map now m)))), Some (live_map now m)))
      else case ctxErr of Some e \<Rightarrow> (kv_error op e, s)
        | None \<Rightarrow> (case s of None \<Rightarrow> (kv_error op KV_ErrClosed, None) | Some m \<Rightarrow> map_prod id Some (kv_open op now later m)))"

fun KVMemoryStore_exec ::
  "kv_op \<Rightarrow> goerror option \<Rightarrow> time \<Rightarrow> time \<Rightarrow> KVMemoryStore option \<Rightarrow> kv_answer \<times> KVMemoryStore option" where
  "KVMemoryStore_exec (KGet k) ctxErr now later s = map_prod AValue id (KVMemoryStore_Get ctxErr now k s)"
| "KVMemoryStore_exec (KSet k v ttl) ctxErr now later s = map_prod ADone id (KVMemoryStore_Set ctxErr later k v ttl s)"
| "KVMemoryStore_exec (KSetNX k v ttl) ctxErr now later s =
     map_prod ABool id (KVMemoryStore_SetNX ctxErr now later k v ttl s)"
| "KVMemoryStore_exec (KDelete k) ctxErr now later s = map_prod ABool id (KVMemoryStore_Delete ctxErr k s)"
| "KVMemoryStore_exec (KExists k) ctxErr now later s = map_prod ABool id (KVMemoryStore_Exists ctxErr now k s)"
| "KVMemoryStore_exec (KTTL k) ctxErr now later s = map_prod ATTL id (KVMemoryStore_TTL ctxErr now later k s)"
| "KVMemoryStore_exec KSnapshot ctxErr now later s = map_prod (\<lambda>sn. ACount (ks_Entries sn)) id (KVMemoryStore_Snapshot now s)"
| "KVMemoryStore_exec KClose ctxErr now later s = (ADone None, KVMemoryStore_Close s)"

fun kv_run :: "(kv_op \<Rightarrow> goerror option \<Rightarrow> time \<Rightarrow> time \<Rightarrow> 's \<Rightarrow> kv_answer \<times> 's) \<Rightarrow>
    (kv_op \<times> goerror option \<times> time \<times> time) list \<Rightarrow> 's \<Rightarrow> kv_answer list" where
  "kv_run exec [] s = []"
| "kv_run exec ((op, ctxErr, now, later) # ops) s = (let (a, s') = exec op ctxErr now later s in a # kv_run exec ops s')"

text \<open>What dropping expired entries changes is seen by no later lookup.\<close>

lemma purge_invisible: "now \<le> t \<Longrightarrow> live_map t (purge now k m) = live_map t m" "now \<le> t \<Longrightarrow> live_map t (live_map now m) = live_map t m"
  by (auto simp: purge_def live_map_def alive_def fun_eq_iff split: option.splits if_splits bind_splits)

definition contents :: "KVMemoryStore \<Rightarrow> kv_map" where
  "contents st k = map_option (\<lambda>ent. (ke_value ent, ke_expiresAt ent)) (m_get (km_items st) k)"

definition kv_sim :: "KVMemoryStore option \<Rightarrow> kv_map option \<Rightarrow> bool" where
  "kv_sim s m \<longleftrightarrow> (\<exists>st. s = Some st \<and> gomap_wf (km_items st) \<and>
     (if km_closed st then km_items st = [] \<and> m = None else m = Some (contents st)))"

lemma contents_simps [simp]:
  "contents (st\<lparr>km_stats := y\<rparr>) = contents st"
  "contents (KV_put k \<lparr>ke_value = x, ke_expiresAt = e\<rparr> st) = (contents st)(k \<mapsto> (x, e))"
  "contents (st\<lparr>km_items := m_del k (km_items st)\<rparr>) = (contents st)(k := None)"
  "gomap_wf (km_items st) \<Longrightarrow> gomap_wf (km_items (KV_put k ent st))"
  "km_closed (KV_put k ent st) = km_closed st"
  by (auto simp: contents_def KV_put_def fun_eq_iff)

lemma getLocked_contents:
  assumes "gomap_wf (km_items st)" "KVMemoryStore_getLocked k now st = (r, st')"
  shows "map_option (\<lambda>ent. (ke_value ent, ke_expiresAt ent)) r = live_map now (contents st) k"
    "contents st' = purge now k (contents st)" "gomap_wf (km_items st')" "km_closed st' = km_closed st"
  using assms
  by (cases "m_get (km_items st) k"; cases "KVEntry_expired now (the (m_get (km_items st) k))";
      auto simp: KVMemoryStore_getLocked_def contents_def purge_def live_map_def alive_def KVEntry_expired_def fun_eq_iff)+

lemma purge_put: "live_map now m k = None \<Longrightarrow> (purge now k m)(k \<mapsto> x) = m(k \<mapsto> x)" "live_map now m k \<noteq> None \<Longrightarrow> purge now k m = m"
  by (auto simp: purge_def)

lemma cleanup_contents:
  assumes "gomap_wf (km_items st)"
  shows "contents (KVMemoryStore_cleanupLocked now st) = live_map now (contents st)"
    "gomap_wf (km_items (KVMemoryStore_cleanupLocked now st))"
    "km_closed (KVMemoryStore_cleanupLocked now st) = km_closed st"
    "length (km_items (KVMemoryStore_cleanupLocked now st)) = card (dom (live_map now (contents st)))"
proof -
  let ?st = "KVMemoryStore_cleanupLocked now st"
  have items: "km_items ?st = filter (\<lambda>p. \<not> KVEntry_expired now (snd p)) (km_items st)"
    using m_sweep_eq [OF assms] by (simp add: KVMemoryStore_cleanupLocked_def split_beta)
  then show wf: "gomap_wf (km_items ?st)" using assms by simp
  show c: "contents ?st = live_map now (contents st)"
    by (auto simp: contents_def live_map_def items m_get_filter [OF assms] KVEntry_expired_def alive_def fun_eq_iff split: option.splits)
  show "km_closed ?st = km_closed st" by (simp add: KVMemoryStore_cleanupLocked_def split_beta)
  have "dom (contents ?st) = fst ` set (km_items ?st)" by (simp add: contents_def dom_def dom_map_of_conv_image_fst [symmetric])
  then show "length (km_items ?st) = card (dom (live_map now (contents st)))"
    using wf distinct_card [of "map fst (km_items ?st)"] by (simp add: gomap_wf_def flip: c)
qed

lemma kv_sim_exec:
  assumes "kv_sim s m"
  shows "fst (KVMemoryStore_exec op ctxErr now later s) = fst (kv_spec op ctxErr now later m) \<and>
     kv_sim (snd (KVMemoryStore_exec op ctxErr now later s)) (snd (kv_spec op ctxErr now later m))"
proof -
  obtain st where s: "s = Some st" "gomap_wf (km_items st)" using assms by (auto simp: kv_sim_def)
  show ?thesis
  proof (cases "op = KClose \<or> op = KSnapshot")
    case True
    then show ?thesis
    proof
      assume "op = KClose"
      then show ?thesis using s by (simp add: kv_spec_def kv_sim_def KVMemoryStore_Close_def)
    next
      assume op: "op = KSnapshot"
      show ?thesis
      proof (cases "km_closed st")
        case closed: True
        then have m: "m = None" and i: "km_items st = []" using assms s by (auto simp: kv_sim_def)
        have "km_items (KVMemoryStore_cleanupLocked now st) = []" using m_sweep_eq [OF s(2)] i by (simp add: KVMemoryStore_cleanupLocked_def split_beta)
        then show ?thesis using op closed m s cleanup_contents(3) [OF s(2)] by (simp add: kv_spec_def kv_sim_def KVMemoryStore_Snapshot_def Let_def)
      next
        case False
        then have "m = Some (contents st)" using assms s by (simp add: kv_sim_def)
        then show ?thesis using op False s cleanup_contents [OF s(2), of now]
          by (simp add: kv_spec_def kv_sim_def KVMemoryStore_Snapshot_def Let_def)
      qed
    qed
  next
    case False
    show ?thesis
    proof (cases "ctxErr = None \<and> \<not> km_closed st")
      case failing: False
      then obtain e where "KV_guard ctxErr s = Inl e" "kv_spec op ctxErr now later m = (kv_error op e, m)"
        using False assms s
        by (cases ctxErr) (auto simp: KV_guard_def KVMemoryStore_checkOpenLocked_def kv_spec_def kv_sim_def)
      then show ?thesis using False assms
        by (cases op) (simp_all add: KVMemoryStore_Get_def KVMemoryStore_Set_def KVMemoryStore_SetNX_def KVMemoryStore_Delete_def
          KVMemoryStore_Exists_def KVMemoryStore_TTL_def)
    next
      case True
      then have m: "m = Some (contents st)" and guard: "KV_guard ctxErr s = Inr st" and ctx: "ctxErr = None" and o: "\<not> km_closed st"
        using assms s by (auto simp: kv_sim_def KV_guard_def KVMemoryStore_checkOpenLocked_def)
      define r where "r k = fst (KVMemoryStore_getLocked k now st)" for k
      define st' where "st' k = snd (KVMemoryStore_getLocked k now st)" for k
      have g: "KVMemoryStore_getLocked k now st = (r k, st' k)" for k by (simp add: r_def st'_def)
      note gc = getLocked_contents [OF s(2) g]
      have spec: "kv_spec x ctxErr now later m = map_prod id Some (kv_open x now later (contents st))"
        if "x \<noteq> KClose" "x \<noteq> KSnapshot" for x
        using that by (simp add: kv_spec_def ctx m)
      have look: "live_map now (contents st) k = map_option (\<lambda>ent. (ke_value ent, ke_expiresAt ent)) (r k)" for k using gc(1) by simp
      show ?thesis
      proof (cases op)
        case (KGet k)
        then show ?thesis using gc [of k] o
          by (cases "r k") (simp_all add: spec KVMemoryStore_Get_def guard g look kv_sim_def)
      next
        case (KSet k x ttl)
        then show ?thesis using s(2) o by (simp add: spec KVMemoryStore_Set_def guard kv_sim_def)
      next
        case (KSetNX k x ttl)
        then show ?thesis using gc [of k] o purge_put [of now "contents st" k]
          by (cases "r k") (simp_all add: spec KVMemoryStore_SetNX_def guard g look kv_sim_def)
      next
        case (KDelete k)
        then show ?thesis using s(2) o
          by (cases "m_get (km_items st) k") (auto simp: spec KVMemoryStore_Delete_def guard kv_sim_def contents_def fun_eq_iff)
      next
        case (KExists k)
        then show ?thesis using gc [of k] o
          by (cases "r k") (simp_all add: spec KVMemoryStore_Exists_def guard g look kv_sim_def)
      next
        case (KTTL k)
        then show ?thesis using gc [of k] o
          by (cases "r k") (simp_all add: spec KVMemoryStore_TTL_def guard g look kv_sim_def)
      qed (use False in simp_all)
    qed
  qed
qed

text \<open>
  C14. The in-memory store is a map whose entries expire: any operations on a new store, under any contexts and
  with any readings of the clock, get the answers of the functional map above, Close and errors included. A Get
  returns what the last Set or successful SetNX stored, unless it was deleted since or its lifetime is over; a Delete
  answers true exactly when the key is still stored, which an expired entry is until a lookup or a snapshot meets it.
\<close>

theorem KVMemoryStore_refines_map:
  "kv_run KVMemoryStore_exec ops (Some KV_NewMemoryStore) = kv_run kv_spec ops (Some (\<lambda>k. None))"
proof -
  have run: "kv_run KVMemoryStore_exec ops s = kv_run kv_spec ops m" if "kv_sim s m" for s m
    using that
  proof (induction ops arbitrary: s m)
    case (Cons p ops)
    obtain op ctxErr now later where p: "p = (op, ctxErr, now, later)" by (cases p)
    note step = kv_sim_exec [OF Cons.prems, of op ctxErr now later]
    then show ?case
      using Cons.IH [of "snd (KVMemoryStore_exec op ctxErr now later s)" "snd (kv_spec op ctxErr now later m)"] p
      by (simp add: split_beta Let_def)
  qed simp
  have "contents KV_NewMemoryStore = (\<lambda>k. None)" by (simp add: contents_def KV_NewMemoryStore_def fun_eq_iff)
  then have "kv_sim (Some KV_NewMemoryStore) (Some (\<lambda>k. None))" by (simp add: kv_sim_def KV_NewMemoryStore_def)
  then show ?thesis by (rule run)
qed

text \<open>A Delete reports an entry that had already expired as removed, though Exists denies it.\<close>

lemma KV_Delete_counts_expired:
  "let s = snd (KVMemoryStore_Set None 1 ''k'' ''v'' 10 (Some KV_NewMemoryStore))
   in fst (KVMemoryStore_Exists None 11 ''k'' s) = Inr False \<and> fst (KVMemoryStore_Delete None ''k'' s) = Inr True"
  by (simp add: kv_defs KV_NewMemoryStore_def KV_expiresAt_def Let_def)

text \<open>A closed store answers every operation with its error and keeps nothing.\<close>

lemma KV_closed_store:
  "fst (KVMemoryStore_Get None now k (KVMemoryStore_Close os)) = Inl KV_ErrClosed"
  "fst (KVMemoryStore_SetNX None now later k v ttl (KVMemoryStore_Close os)) = Inl KV_ErrClosed"
  "KVMemoryStore_view t (KVMemoryStore_Close os) = (\<lambda>k. None)"
  by (cases os; simp add: KVMemoryStore_Close_def kv_defs KVMemoryStore_view_def fun_eq_iff)+

end
