(* ===== verification/Lock.thy ===== *)
theory Lock
  imports KV
begin

text \<open>
  The locks of \<^verbatim>\<open>core/lock\<close>: the in-process \<^verbatim>\<open>MemoryLocker\<close>, the \<^verbatim>\<open>KVLocker\<close> over any \<^verbatim>\<open>kv.Store\<close>, and
  the \<^verbatim>\<open>Guard\<close> that keeps a lease alive. A token drawn by the token generator is the argument \<open>tok\<close>
  (an error or a string); what other goroutines do between two atomic parts of a method is \<open>env\<close>.
  A wait in a select loop is a list of the events it receives; a loop whose events run out is still
  waiting and returns \<open>None\<close>.
\<close>

section \<open>Leases\<close>

definition ErrLocked :: goerror where "ErrLocked = Err ''lock already held''"
definition ErrNotHeld :: goerror where "ErrNotHeld = Err ''lock not held''"
definition ErrLeaseExpired :: goerror where "ErrLeaseExpired = Err ''lock lease expired''"

lemmas lock_errors = ErrLocked_def ErrNotHeld_def ErrLeaseExpired_def

record Lease =
  le_Key :: string
  le_Token :: string
  le_ExpiresAt :: time

record MemoryStats =
  ms_Active :: int
  ms_Acquired :: int
  ms_Contended :: int
  ms_Released :: int
  ms_Refreshed :: int
  ms_Expired :: int
  ms_Failed :: int

record lockState =
  lk_token :: string
  lk_expiresAt :: time

section \<open>The in-process locker\<close>

record MemoryLocker =
  ml_locks :: "(string, lockState) gomap"
  ml_defaultTTL :: duration
  ml_retryInterval :: duration
  ml_stats :: MemoryStats

datatype MemoryOption = WithDefaultTTL duration | WithRetryInterval duration

fun apply_MemoryOption :: "MemoryOption \<Rightarrow> MemoryLocker \<Rightarrow> MemoryLocker" where
  "apply_MemoryOption (WithDefaultTTL ttl) l = (if ttl > 0 then l\<lparr>ml_defaultTTL := ttl\<rparr> else l)"
| "apply_MemoryOption (WithRetryInterval d) l = (if d > 0 then l\<lparr>ml_retryInterval := d\<rparr> else l)"

definition NewMemoryLocker :: "MemoryOption option list \<Rightarrow> MemoryLocker" where
  "NewMemoryLocker opts =
     fold (\<lambda>opt l. case opt of None \<Rightarrow> l | Some f \<Rightarrow> apply_MemoryOption f l) opts
       \<lparr>ml_locks = [], ml_defaultTTL = 30 * Second, ml_retryInterval = 25 * Millisecond,
        ml_stats = \<lparr>ms_Active = 0, ms_Acquired = 0, ms_Contended = 0, ms_Released = 0,
                    ms_Refreshed = 0, ms_Expired = 0, ms_Failed = 0\<rparr>\<rparr>"

definition MemoryLocker_ttl :: "MemoryLocker \<Rightarrow> duration \<Rightarrow> duration" where
  "MemoryLocker_ttl l ttl = (if ttl > 0 then ttl else ml_defaultTTL l)"

definition MemoryLocker_cleanupExpiredLocked :: "time \<Rightarrow> MemoryLocker \<Rightarrow> MemoryLocker" where
  "MemoryLocker_cleanupExpiredLocked now l =
     (let (locks, n) = m_sweep (\<lambda>(key, state). \<not> now < lk_expiresAt state) (ml_locks l)
      in l\<lparr>ml_locks := locks, ml_stats := (ml_stats l)\<lparr>ms_Expired := ms_Expired (ml_stats l) + n\<rparr>\<rparr>)"

definition MemoryLocker_tryLockAt ::
  "goerror + string \<Rightarrow> string \<Rightarrow> duration \<Rightarrow> time \<Rightarrow> MemoryLocker \<Rightarrow> (goerror + Lease) \<times> MemoryLocker" where
  "MemoryLocker_tryLockAt tok key ttl now l =
     (case tok of Inl e \<Rightarrow> (Inl (Wrap ''generate lock token'' e), l)
      | Inr token \<Rightarrow>
          (let l = MemoryLocker_cleanupExpiredLocked now l in
           if (case m_get (ml_locks l) key of None \<Rightarrow> False | Some state \<Rightarrow> now < lk_expiresAt state)
           then (Inl ErrLocked, l\<lparr>ml_stats := (ml_stats l)\<lparr>ms_Contended := ms_Contended (ml_stats l) + 1\<rparr>\<rparr>)
           else
             let lease = \<lparr>le_Key = key, le_Token = token, le_ExpiresAt = now + MemoryLocker_ttl l ttl\<rparr>
             in (Inr lease,
                 l\<lparr>ml_locks := m_put key \<lparr>lk_token = token, lk_expiresAt = le_ExpiresAt lease\<rparr> (ml_locks l),
                   ml_stats := (ml_stats l)\<lparr>ms_Acquired := ms_Acquired (ml_stats l) + 1\<rparr>\<rparr>)))"

definition MemoryLocker_TryLock ::
  "goerror option \<Rightarrow> time \<Rightarrow> goerror + string \<Rightarrow> string \<Rightarrow> duration \<Rightarrow> MemoryLocker \<Rightarrow>
   (goerror + Lease) \<times> MemoryLocker" where
  "MemoryLocker_TryLock ctxErr now tok key ttl l =
     (case ctxErr of Some e \<Rightarrow> (Inl e, l)
      | None \<Rightarrow> if key = '''' then (Inl ErrNotHeld, l) else MemoryLocker_tryLockAt tok key ttl now l)"

datatype 's lock_event =
    CtxDone goerror
  | Tick "'s \<Rightarrow> 's" "goerror option" time "goerror + string"

fun MemoryLocker_Lock_loop ::
  "string \<Rightarrow> duration \<Rightarrow> MemoryLocker lock_event list \<Rightarrow> MemoryLocker \<Rightarrow>
   ((goerror + Lease) \<times> MemoryLocker) option" where
  "MemoryLocker_Lock_loop key ttl [] l = None"
| "MemoryLocker_Lock_loop key ttl (CtxDone e # evs) l = Some (Inl e, l)"
| "MemoryLocker_Lock_loop key ttl (Tick env ctxErr now tok # evs) l =
     (case MemoryLocker_TryLock ctxErr now tok key ttl (env l) of
        (Inr lease, l') \<Rightarrow> Some (Inr lease, l')
      | (Inl e, l') \<Rightarrow> if \<not> errors_Is e ErrLocked then Some (Inl e, l')
                       else MemoryLocker_Lock_loop key ttl evs l')"

definition MemoryLocker_Lock ::
  "goerror option \<Rightarrow> time \<Rightarrow> goerror + string \<Rightarrow> string \<Rightarrow> duration \<Rightarrow> MemoryLocker lock_event list \<Rightarrow>
   MemoryLocker \<Rightarrow> ((goerror + Lease) \<times> MemoryLocker) option" where
  "MemoryLocker_Lock ctxErr now tok key ttl evs l =
     (case MemoryLocker_TryLock ctxErr now tok key ttl l of
        (Inr lease, l') \<Rightarrow> Some (Inr lease, l')
      | (Inl e, l') \<Rightarrow> if \<not> errors_Is e ErrLocked then Some (Inl e, l')
                       else MemoryLocker_Lock_loop key ttl evs l')"

definition lock_failed :: "MemoryLocker \<Rightarrow> MemoryLocker" where
  "lock_failed l = l\<lparr>ml_stats := (ml_stats l)\<lparr>ms_Failed := ms_Failed (ml_stats l) + 1\<rparr>\<rparr>"

definition MemoryLocker_Unlock ::
  "goerror option \<Rightarrow> time \<Rightarrow> Lease \<Rightarrow> MemoryLocker \<Rightarrow> goerror option \<times> MemoryLocker" where
  "MemoryLocker_Unlock ctxErr now lease l =
     (case ctxErr of Some e \<Rightarrow> (Some e, l)
      | None \<Rightarrow>
          (let l = MemoryLocker_cleanupExpiredLocked now l in
           case m_get (ml_locks l) (le_Key lease) of
             None \<Rightarrow> (Some ErrNotHeld, lock_failed l)
           | Some state \<Rightarrow>
               if lk_token state \<noteq> le_Token lease then (Some ErrNotHeld, lock_failed l)
               else if \<not> now < lk_expiresAt state then
                 (Some ErrLeaseExpired, l\<lparr>ml_locks := m_del (le_Key lease) (ml_locks l),
                    ml_stats := (ml_stats l)\<lparr>ms_Expired := ms_Expired (ml_stats l) + 1\<rparr>\<rparr>)
               else (None, l\<lparr>ml_locks := m_del (le_Key lease) (ml_locks l),
                    ml_stats := (ml_stats l)\<lparr>ms_Released := ms_Released (ml_stats l) + 1\<rparr>\<rparr>)))"

definition MemoryLocker_Refresh ::
  "goerror option \<Rightarrow> time \<Rightarrow> Lease \<Rightarrow> duration \<Rightarrow> MemoryLocker \<Rightarrow> (goerror + Lease) \<times> MemoryLocker" where
  "MemoryLocker_Refresh ctxErr now lease ttl l =
     (case ctxErr of Some e \<Rightarrow> (Inl e, l)
      | None \<Rightarrow>
          (let l = MemoryLocker_cleanupExpiredLocked now l in
           case m_get (ml_locks l) (le_Key lease) of
             None \<Rightarrow> (Inl ErrNotHeld, lock_failed l)
           | Some state \<Rightarrow>
               if lk_token state \<noteq> le_Token lease then (Inl ErrNotHeld, lock_failed l)
               else if \<not> now < lk_expiresAt state then
                 (Inl ErrLeaseExpired, l\<lparr>ml_locks := m_del (le_Key lease) (ml_locks l),
                    ml_stats := (ml_stats l)\<lparr>ms_Expired := ms_Expired (ml_stats l) + 1\<rparr>\<rparr>)
               else
                 let nxt = \<lparr>le_Key = le_Key lease, le_Token = le_Token lease,
                            le_ExpiresAt = now + MemoryLocker_ttl l ttl\<rparr>
                 in (Inr nxt,
                     l\<lparr>ml_locks := m_put (le_Key lease)
                          \<lparr>lk_token = le_Token lease, lk_expiresAt = le_ExpiresAt nxt\<rparr> (ml_locks l),
                       ml_stats := (ml_stats l)\<lparr>ms_Refreshed := ms_Refreshed (ml_stats l) + 1\<rparr>\<rparr>)))"

definition MemoryLocker_Snapshot :: "time \<Rightarrow> MemoryLocker \<Rightarrow> MemoryStats \<times> MemoryLocker" where
  "MemoryLocker_Snapshot now l =
     (let l = MemoryLocker_cleanupExpiredLocked now l
      in ((ml_stats l)\<lparr>ms_Active := int (length (ml_locks l))\<rparr>, l))"

subsection \<open>Operations in sequence\<close>

datatype lock_op =
    OTry "goerror + string" string duration
  | OUnlock Lease
  | ORefresh Lease duration
  | OSnapshot

datatype lock_answer = LLease "goerror + Lease" | LErr "goerror option" | LStats MemoryStats

fun MemoryLocker_exec :: "lock_op \<Rightarrow> time \<Rightarrow> MemoryLocker \<Rightarrow> lock_answer \<times> MemoryLocker" where
  "MemoryLocker_exec (OTry tok key ttl) now l = map_prod LLease id (MemoryLocker_TryLock None now tok key ttl l)"
| "MemoryLocker_exec (OUnlock lease) now l = map_prod LErr id (MemoryLocker_Unlock None now lease l)"
| "MemoryLocker_exec (ORefresh lease ttl) now l = map_prod LLease id (MemoryLocker_Refresh None now lease ttl l)"
| "MemoryLocker_exec OSnapshot now l = map_prod LStats id (MemoryLocker_Snapshot now l)"

fun lock_run :: "(lock_op \<times> time) list \<Rightarrow> MemoryLocker \<Rightarrow> lock_answer list \<times> MemoryLocker" where
  "lock_run [] l = ([], l)"
| "lock_run ((op, t) # ops) l =
     (let (a, l1) = MemoryLocker_exec op t l; (as, l2) = lock_run ops l1 in (a # as, l2))"

lemma cleanup_locks:
  assumes "gomap_wf (ml_locks l)"
  shows "ml_locks (MemoryLocker_cleanupExpiredLocked now l) =
      filter (\<lambda>(key, state). now < lk_expiresAt state) (ml_locks l)"
    and "ms_Expired (ml_stats (MemoryLocker_cleanupExpiredLocked now l)) = ms_Expired (ml_stats l) +
      int (length (ml_locks l)) - int (length (ml_locks (MemoryLocker_cleanupExpiredLocked now l)))"
    and "m_get (ml_locks (MemoryLocker_cleanupExpiredLocked now l)) key =
      (case m_get (ml_locks l) key of None \<Rightarrow> None
       | Some state \<Rightarrow> if now < lk_expiresAt state then Some state else None)"
proof -
  let ?P = "\<lambda>(key, state). now < lk_expiresAt state"
  have sweep: "m_sweep (\<lambda>(key, state). \<not> now < lk_expiresAt state) (ml_locks l) =
      (filter ?P (ml_locks l), int (length (filter (\<lambda>p. \<not> ?P p) (ml_locks l))))"
    using m_sweep_eq [OF assms, of "\<lambda>p. \<not> ?P p"] by (simp add: split_beta')
  show locks: "ml_locks (MemoryLocker_cleanupExpiredLocked now l) = filter ?P (ml_locks l)"
    by (simp add: MemoryLocker_cleanupExpiredLocked_def sweep)
  show "ms_Expired (ml_stats (MemoryLocker_cleanupExpiredLocked now l)) = ms_Expired (ml_stats l) +
      int (length (ml_locks l)) - int (length (ml_locks (MemoryLocker_cleanupExpiredLocked now l)))"
    using sum_length_filter_compl [of ?P "ml_locks l"]
    by (simp add: MemoryLocker_cleanupExpiredLocked_def sweep)
  show "m_get (ml_locks (MemoryLocker_cleanupExpiredLocked now l)) key =
      (case m_get (ml_locks l) key of None \<Rightarrow> None
       | Some state \<Rightarrow> if now < lk_expiresAt state then Some state else None)"
    unfolding locks m_get_filter [OF assms, of ?P] by (simp split: option.split)
qed

lemma cleanup_stats [simp]:
  "ms_Acquired (ml_stats (MemoryLocker_cleanupExpiredLocked now l)) = ms_Acquired (ml_stats l)"
  "ms_Released (ml_stats (MemoryLocker_cleanupExpiredLocked now l)) = ms_Released (ml_stats l)"
  "ml_defaultTTL (MemoryLocker_cleanupExpiredLocked now l) = ml_defaultTTL l"
  by (simp_all add: MemoryLocker_cleanupExpiredLocked_def split_beta Let_def)

text \<open>Every lock ever acquired is still held, was released, or expired; none is counted twice.\<close>

definition lock_inv :: "MemoryLocker \<Rightarrow> bool" where
  "lock_inv l \<longleftrightarrow> gomap_wf (ml_locks l) \<and> 0 < ml_defaultTTL l \<and>
     ms_Acquired (ml_stats l) =
       int (length (ml_locks l)) + ms_Released (ml_stats l) + ms_Expired (ml_stats l)"

lemma cleanup_inv: "lock_inv l \<Longrightarrow> lock_inv (MemoryLocker_cleanupExpiredLocked now l)"
  using cleanup_locks [of l now] by (auto simp: lock_inv_def)

lemma length_put_new: "m_get m k = None \<Longrightarrow> length (m_put k v m) = Suc (length m)"
  by (induction m) auto

lemma length_put_old: "m_get m k = Some w \<Longrightarrow> length (m_put k v m) = length m"
  by (induction m) auto

lemma cleanup_live:
  assumes "lock_inv l" "m_get (ml_locks (MemoryLocker_cleanupExpiredLocked now l)) key = Some state"
  shows "now < lk_expiresAt state"
  using assms cleanup_locks(3) [of l now key] by (auto simp: lock_inv_def split: option.splits if_splits)

lemma exec_inv:
  assumes "lock_inv l"
  shows "lock_inv (snd (MemoryLocker_exec op now l))"
proof -
  define l1 where "l1 = MemoryLocker_cleanupExpiredLocked now l"
  have inv: "lock_inv l1" unfolding l1_def by (rule cleanup_inv [OF assms])
  have live: "now < lk_expiresAt st" if "m_get (ml_locks l1) key = Some st" for key st
    using cleanup_live [OF assms] that by (simp add: l1_def)
  have dels: "lock_inv (l1\<lparr>ml_locks := m_del key (ml_locks l1),
      ml_stats := (ml_stats l1)\<lparr>ms_Released := ms_Released (ml_stats l1) + 1\<rparr>\<rparr>)"
    if "m_get (ml_locks l1) key = Some st" for key st
    using inv that length_del [of "ml_locks l1" key st] by (auto simp: lock_inv_def)
  show ?thesis
  proof (cases op)
    case (OTry tok key ttl)
    show ?thesis
    proof (cases tok)
      case (Inr token)
      then show ?thesis
        using OTry inv assms live length_put_new [of "ml_locks l1" key]
        by (auto simp: MemoryLocker_TryLock_def MemoryLocker_tryLockAt_def lock_inv_def Let_def
            simp flip: l1_def split: option.splits)
    qed (use OTry assms in \<open>auto simp: MemoryLocker_TryLock_def MemoryLocker_tryLockAt_def\<close>)
  next
    case (OUnlock lease)
    then show ?thesis
      using inv live dels
      by (auto simp: MemoryLocker_Unlock_def lock_failed_def Let_def simp flip: l1_def
          split: option.splits) (auto simp: lock_inv_def)
  next
    case (ORefresh lease ttl)
    then show ?thesis
      using inv live length_put_old [of "ml_locks l1" "le_Key lease"]
      by (auto simp: MemoryLocker_Refresh_def lock_failed_def Let_def lock_inv_def simp flip: l1_def
          split: option.splits)
  next
    case OSnapshot
    then show ?thesis using inv by (simp add: MemoryLocker_Snapshot_def Let_def flip: l1_def)
  qed
qed

lemma lock_run_inv: "lock_inv l \<Longrightarrow> lock_inv (snd (lock_run ops l))"
  by (induction ops arbitrary: l) (auto simp: split_beta Let_def exec_inv)

lemma NewMemoryLocker_inv: "lock_inv (NewMemoryLocker opts)" "ml_locks (NewMemoryLocker opts) = []"
proof -
  have "lock_inv (fold (\<lambda>opt l. case opt of None \<Rightarrow> l | Some f \<Rightarrow> apply_MemoryOption f l) opts l) \<and>
      ml_locks (fold (\<lambda>opt l. case opt of None \<Rightarrow> l | Some f \<Rightarrow> apply_MemoryOption f l) opts l) = []"
    if "lock_inv l" "ml_locks l = []" for l
    using that
  proof (induction opts arbitrary: l)
    case (Cons opt opts)
    have "lock_inv (apply_MemoryOption f l) \<and> ml_locks (apply_MemoryOption f l) = []" for f
      using Cons.prems by (cases f) (auto simp: lock_inv_def)
    with Cons show ?case by (auto split: option.splits)
  qed simp
  from this [of "\<lparr>ml_locks = [], ml_defaultTTL = 30 * Second, ml_retryInterval = 25 * Millisecond,
      ml_stats = \<lparr>ms_Active = 0, ms_Acquired = 0, ms_Contended = 0, ms_Released = 0,
                  ms_Refreshed = 0, ms_Expired = 0, ms_Failed = 0\<rparr>\<rparr>"]
  show "lock_inv (NewMemoryLocker opts)" "ml_locks (NewMemoryLocker opts) = []"
    unfolding NewMemoryLocker_def by (auto simp: lock_inv_def)
qed

text \<open>
  The locker's statistics add up: after any operations at any times, the locks acquired are
  exactly those active, those released and those expired.
\<close>

theorem MemoryLocker_stats_add_up:
  "let st = fst (MemoryLocker_Snapshot now (snd (lock_run ops (NewMemoryLocker opts))))
   in ms_Acquired st = ms_Active st + ms_Released st + ms_Expired st"
  using cleanup_inv [OF lock_run_inv [OF NewMemoryLocker_inv(1)]]
  by (simp add: MemoryLocker_Snapshot_def lock_inv_def Let_def)

section \<open>Mutual exclusion\<close>

text \<open>The operations with which the holder of a token gives up or renews its own lease.\<close>

fun by_holder :: "string \<Rightarrow> string \<Rightarrow> lock_op \<Rightarrow> bool" where
  "by_holder key token (OUnlock ls) = (le_Key ls = key \<and> le_Token ls = token)"
| "by_holder key token (ORefresh ls ttl) = (le_Key ls = key \<and> le_Token ls = token)"
| "by_holder key token _ = False"

text \<open>How an operation of somebody else on a held key must be answered.\<close>

fun turned_away :: "string \<Rightarrow> lock_op \<Rightarrow> lock_answer \<Rightarrow> bool" where
  "turned_away key (OTry tok k ttl) a = (k = key \<longrightarrow> (case tok of Inl e \<Rightarrow> True | Inr x \<Rightarrow> a = LLease (Inl ErrLocked)))"
| "turned_away key (OUnlock ls) a = (le_Key ls = key \<longrightarrow> a = LErr (Some ErrNotHeld))"
| "turned_away key (ORefresh ls ttl) a = (le_Key ls = key \<longrightarrow> a = LLease (Inl ErrNotHeld))"
| "turned_away key OSnapshot a = True"

lemma held_step:
  assumes "lock_inv l" "m_get (ml_locks l) key = Some state" "key \<noteq> ''''" "now < lk_expiresAt state"
    and "\<not> by_holder key (lk_token state) op"
  shows "turned_away key op (fst (MemoryLocker_exec op now l)) \<and>
     m_get (ml_locks (snd (MemoryLocker_exec op now l))) key = Some state"
proof -
  define l1 where "l1 = MemoryLocker_cleanupExpiredLocked now l"
  have held: "m_get (ml_locks l1) key = Some state"
    using assms cleanup_locks(3) [of l now key] by (simp add: l1_def lock_inv_def)
  show ?thesis
  proof (cases op)
    case (OTry tok k ttl)
    show ?thesis
      using OTry held assms
      by (cases tok; cases "k = key")
        (auto simp: MemoryLocker_TryLock_def MemoryLocker_tryLockAt_def Let_def simp flip: l1_def
          split: option.splits)
  next
    case (OUnlock ls)
    show ?thesis
      using OUnlock held assms
      by (cases "le_Key ls = key")
        (auto simp: MemoryLocker_Unlock_def lock_failed_def Let_def simp flip: l1_def split: option.splits)
  next
    case (ORefresh ls ttl)
    show ?thesis
      using ORefresh held assms
      by (cases "le_Key ls = key")
        (auto simp: MemoryLocker_Refresh_def lock_failed_def Let_def simp flip: l1_def split: option.splits)
  next
    case OSnapshot
    then show ?thesis using held by (simp add: MemoryLocker_Snapshot_def Let_def flip: l1_def)
  qed
qed

lemma held_run:
  assumes "lock_inv l" "m_get (ml_locks l) key = Some state" "key \<noteq> ''''"
    and "\<forall>(op, t) \<in> set ops. t < lk_expiresAt state \<and> \<not> by_holder key (lk_token state) op"
  shows "list_all2 (\<lambda>p a. turned_away key (fst p) a) ops (fst (lock_run ops l)) \<and>
     m_get (ml_locks (snd (lock_run ops l))) key = Some state"
  using assms
proof (induction ops arbitrary: l)
  case (Cons p ops)
  obtain op t where p: "p = (op, t)" by (cases p)
  note step = held_step [OF Cons.prems(1-3), of t op]
  have "list_all2 (\<lambda>p a. turned_away key (fst p) a) ops (fst (lock_run ops (snd (MemoryLocker_exec op t l)))) \<and>
      m_get (ml_locks (snd (lock_run ops (snd (MemoryLocker_exec op t l))))) key = Some state"
    using Cons.IH [OF exec_inv [OF Cons.prems(1)]] step Cons.prems p by auto
  then show ?case using step Cons.prems p by (simp add: split_beta Let_def)
qed simp

lemma TryLock_granted:
  assumes "lock_inv l" "MemoryLocker_TryLock ctxErr t tok key ttl l = (Inr lease, l1)"
  shows "lock_inv l1" "key \<noteq> ''''" "le_Key lease = key" "tok = Inr (le_Token lease)"
    "le_ExpiresAt lease = t + MemoryLocker_ttl l ttl"
    "m_get (ml_locks l1) key = Some \<lparr>lk_token = le_Token lease, lk_expiresAt = le_ExpiresAt lease\<rparr>"
  using assms exec_inv [OF assms(1), of "OTry tok key ttl" t]
  by (auto simp: MemoryLocker_TryLock_def MemoryLocker_tryLockAt_def MemoryLocker_ttl_def Let_def
      split: option.splits if_splits sum.splits)

text \<open>
  C15. Mutual exclusion: once a lease has been granted, then until it expires, and whatever anybody
  else does (any number of calls in any order, with any other tokens), every TryLock of its key is
  refused with ErrLocked, every Unlock or Refresh that does not carry its token is refused with
  ErrNotHeld, and the lock stays with the lease.
\<close>

theorem MemoryLocker_mutual_exclusion:
  assumes "lock_inv l" and "MemoryLocker_TryLock None t tok key ttl l = (Inr lease, l1)"
    and "\<forall>(op, u) \<in> set ops. u < le_ExpiresAt lease \<and> \<not> by_holder key (le_Token lease) op"
  shows "let (answers, l2) = lock_run ops l1
     in list_all2 (\<lambda>p a. turned_away key (fst p) a) ops answers \<and>
        m_get (ml_locks l2) key = Some \<lparr>lk_token = le_Token lease, lk_expiresAt = le_ExpiresAt lease\<rparr>"
  using held_run [OF TryLock_granted(1,6,2) [OF assms(1,2)], of ops] assms(3) by (auto simp: split_beta)

theorem MemoryLocker_mutual_exclusion_witness:
  "let l1 = snd (MemoryLocker_TryLock None 1 (Inr ''a'') ''k'' 10 (NewMemoryLocker []));
       ops = [(OTry (Inr ''b'') ''k'' 10, 5), (OUnlock \<lparr>le_Key = ''k'', le_Token = ''b'', le_ExpiresAt = 0\<rparr>, 6)]
   in m_get (ml_locks (snd (lock_run ops l1))) ''k'' = Some \<lparr>lk_token = ''a'', lk_expiresAt = 11\<rparr>"
proof -
  define l1 where "l1 = snd (MemoryLocker_TryLock None 1 (Inr ''a'') ''k'' 10 (NewMemoryLocker []))"
  let ?lease = "\<lparr>le_Key = ''k'', le_Token = ''a'', le_ExpiresAt = 11\<rparr>"
  let ?ops = "[(OTry (Inr ''b'') ''k'' 10, 5), (OUnlock \<lparr>le_Key = ''k'', le_Token = ''b'', le_ExpiresAt = 0\<rparr>, 6)]"
  have got: "MemoryLocker_TryLock None 1 (Inr ''a'') ''k'' 10 (NewMemoryLocker []) = (Inr ?lease, l1)"
    by (simp add: l1_def MemoryLocker_TryLock_def MemoryLocker_tryLockAt_def NewMemoryLocker_def
        MemoryLocker_cleanupExpiredLocked_def m_sweep_def MemoryLocker_ttl_def)
  have "\<forall>(op, u) \<in> set ?ops. u < le_ExpiresAt ?lease \<and> \<not> by_holder ''k'' (le_Token ?lease) op" by simp
  from MemoryLocker_mutual_exclusion [OF NewMemoryLocker_inv(1) got this]
  show ?thesis unfolding Let_def l1_def [symmetric] by (simp add: split_beta del: lock_run.simps)
qed

text \<open>
  Progress: a TryLock with a good token is granted exactly when no unexpired lock is held on its
  key, for the time to live asked for (or the default), and the holder's Unlock before the expiry
  succeeds and frees the key at once.
\<close>

theorem MemoryLocker_progress:
  assumes "lock_inv l" and "key \<noteq> ''''"
  shows "(fst (MemoryLocker_TryLock None now (Inr token) key ttl l) =
       (if (\<exists>state. m_get (ml_locks l) key = Some state \<and> now < lk_expiresAt state) then Inl ErrLocked
        else Inr \<lparr>le_Key = key, le_Token = token, le_ExpiresAt = now + MemoryLocker_ttl l ttl\<rparr>)) \<and>
     (\<forall>lease. m_get (ml_locks l) (le_Key lease) = Some \<lparr>lk_token = le_Token lease, lk_expiresAt = le_ExpiresAt lease\<rparr> \<longrightarrow>
        now < le_ExpiresAt lease \<longrightarrow>
        fst (MemoryLocker_Unlock None now lease l) = None \<and>
        m_get (ml_locks (snd (MemoryLocker_Unlock None now lease l))) (le_Key lease) = None)"
proof -
  have wf: "gomap_wf (ml_locks l)" using assms(1) by (simp add: lock_inv_def)
  have "MemoryLocker_ttl (MemoryLocker_cleanupExpiredLocked now l) ttl = MemoryLocker_ttl l ttl"
    by (simp add: MemoryLocker_ttl_def)
  then show ?thesis
    using assms(2)
    by (auto simp: MemoryLocker_TryLock_def MemoryLocker_tryLockAt_def MemoryLocker_Unlock_def Let_def
        cleanup_locks(3) [OF wf] split: option.splits if_splits)
qed

theorem MemoryLocker_progress_witness:
  "fst (MemoryLocker_TryLock None 7 (Inr ''b'') ''k'' 3 (NewMemoryLocker [])) =
   Inr \<lparr>le_Key = ''k'', le_Token = ''b'', le_ExpiresAt = 10\<rparr>"
  using MemoryLocker_progress [OF NewMemoryLocker_inv(1) [of "[]"], of "''k''" 7 "''b''" 3]
  by (simp add: NewMemoryLocker_inv(2) MemoryLocker_ttl_def)

section \<open>The lock over a key-value store\<close>

record KVLocker =
  kl_defaultTTL :: duration
  kl_retryInterval :: duration

datatype KVOption = WithKVDefaultTTL duration | WithKVRetryInterval duration

fun apply_KVOption :: "KVOption \<Rightarrow> KVLocker \<Rightarrow> KVLocker" where
  "apply_KVOption (WithKVDefaultTTL ttl) l = (if ttl > 0 then l\<lparr>kl_defaultTTL := ttl\<rparr> else l)"
| "apply_KVOption (WithKVRetryInterval d) l = (if d > 0 then l\<lparr>kl_retryInterval := d\<rparr> else l)"

definition NewKVLocker :: "KVOption option list \<Rightarrow> KVLocker" where
  "NewKVLocker opts =
     fold (\<lambda>opt l. case opt of None \<Rightarrow> l | Some f \<Rightarrow> apply_KVOption f l) opts
       \<lparr>kl_defaultTTL = 30 * Second, kl_retryInterval = 25 * Millisecond\<rparr>"

definition KVLocker_ttl :: "KVLocker \<Rightarrow> duration \<Rightarrow> duration" where
  "KVLocker_ttl l ttl =
     (if ttl > 0 then ttl else if kl_defaultTTL l \<le> 0 then 30 * Second else kl_defaultTTL l)"

text \<open>
  A nil locker or a locker without a store is \<open>None\<close>. \<open>ctxErr'\<close> is the context's error when the
  store looks at it; \<open>now\<close>, \<open>later\<close> and \<open>fin\<close> are the successive readings of the clock.
\<close>

definition KVLocker_TryLock ::
  "'s KVStore \<Rightarrow> goerror option \<Rightarrow> goerror option \<Rightarrow> time \<Rightarrow> time \<Rightarrow> time \<Rightarrow> goerror + string \<Rightarrow>
   string \<Rightarrow> duration \<Rightarrow> KVLocker option \<Rightarrow> 's \<Rightarrow> (goerror + Lease) \<times> 's" where
  "KVLocker_TryLock ops ctxErr ctxErr' now later fin tok key ttl ol s =
     (case ctxErr of Some e \<Rightarrow> (Inl e, s)
      | None \<Rightarrow>
        (case ol of None \<Rightarrow> (Inl ErrNotHeld, s)
         | Some l \<Rightarrow>
             if key = '''' then (Inl ErrNotHeld, s)
             else (case tok of Inl e \<Rightarrow> (Inl (Wrap ''generate lock token'' e), s)
               | Inr token \<Rightarrow>
                   (let ttl = KVLocker_ttl l ttl in
                    case kv_SetNX ops ctxErr' now later key token ttl s of
                      (Inl e, s') \<Rightarrow> (Inl e, s')
                    | (Inr ok, s') \<Rightarrow>
                        if \<not> ok then (Inl ErrLocked, s')
                        else (Inr \<lparr>le_Key = key, le_Token = token, le_ExpiresAt = fin + ttl\<rparr>, s')))))"

datatype 's kv_lock_event = KVDone goerror
  | KVTick "'s \<Rightarrow> 's" "goerror option" "goerror option" time time time "goerror + string"

fun KVLocker_Lock_loop ::
  "'s KVStore \<Rightarrow> string \<Rightarrow> duration \<Rightarrow> KVLocker option \<Rightarrow> 's kv_lock_event list \<Rightarrow> 's \<Rightarrow>
   ((goerror + Lease) \<times> 's) option" where
  "KVLocker_Lock_loop ops key ttl ol [] s = None"
| "KVLocker_Lock_loop ops key ttl ol (KVDone e # evs) s = Some (Inl e, s)"
| "KVLocker_Lock_loop ops key ttl ol (KVTick env ctxErr ctxErr' now later fin tok # evs) s =
     (case KVLocker_TryLock ops ctxErr ctxErr' now later fin tok key ttl ol (env s) of
        (Inr lease, s') \<Rightarrow> Some (Inr lease, s')
      | (Inl e, s') \<Rightarrow> if \<not> errors_Is e ErrLocked then Some (Inl e, s')
                       else KVLocker_Lock_loop ops key ttl ol evs s')"

definition KVLocker_Lock ::
  "'s KVStore \<Rightarrow> goerror option \<Rightarrow> goerror option \<Rightarrow> time \<Rightarrow> time \<Rightarrow> time \<Rightarrow> goerror + string \<Rightarrow> string \<Rightarrow> duration \<Rightarrow>
   KVLocker option \<Rightarrow> 's kv_lock_event list \<Rightarrow> 's \<Rightarrow> ((goerror + Lease) \<times> 's) option" where
  "KVLocker_Lock ops ctxErr ctxErr' now later fin tok key ttl ol evs s =
     (case KVLocker_TryLock ops ctxErr ctxErr' now later fin tok key ttl ol s of
        (Inr lease, s') \<Rightarrow> Some (Inr lease, s')
      | (Inl e, s') \<Rightarrow> if \<not> errors_Is e ErrLocked then Some (Inl e, s')
                       else KVLocker_Lock_loop ops key ttl ol evs s')"

definition KVLocker_Unlock ::
  "'s KVStore \<Rightarrow> goerror option \<Rightarrow> goerror option \<Rightarrow> time \<Rightarrow> ('s \<Rightarrow> 's) \<Rightarrow> Lease \<Rightarrow> KVLocker option \<Rightarrow> 's \<Rightarrow>
   goerror option \<times> 's" where
  "KVLocker_Unlock ops ctxErr ctxErr' now env lease ol s =
     (case ctxErr of Some e \<Rightarrow> (Some e, s)
      | None \<Rightarrow>
          if ol = None \<or> le_Key lease = '''' \<or> le_Token lease = '''' then (Some ErrNotHeld, s)
          else (case kv_Get ops ctxErr' now (le_Key lease) s of
            (Inl e, s1) \<Rightarrow> if errors_Is e KV_ErrNotFound then (Some ErrNotHeld, s1) else (Some e, s1)
          | (Inr val, s1) \<Rightarrow>
              if val \<noteq> le_Token lease then (Some ErrNotHeld, s1)
              else (case kv_Delete ops ctxErr' (le_Key lease) (env s1) of
                  (Inl e, s2) \<Rightarrow> (Some e, s2) | (Inr b, s2) \<Rightarrow> (None, s2))))"

definition KVLocker_Refresh ::
  "'s KVStore \<Rightarrow> goerror option \<Rightarrow> goerror option \<Rightarrow> time \<Rightarrow> ('s \<Rightarrow> 's) \<Rightarrow> time \<Rightarrow> time \<Rightarrow> Lease \<Rightarrow>
   duration \<Rightarrow> KVLocker option \<Rightarrow> 's \<Rightarrow> (goerror + Lease) \<times> 's" where
  "KVLocker_Refresh ops ctxErr ctxErr' now env later fin lease ttl ol s =
     (case ctxErr of Some e \<Rightarrow> (Inl e, s)
      | None \<Rightarrow>
        (case ol of None \<Rightarrow> (Inl ErrNotHeld, s)
         | Some l \<Rightarrow>
          if le_Key lease = '''' \<or> le_Token lease = '''' then (Inl ErrNotHeld, s)
          else (case kv_Get ops ctxErr' now (le_Key lease) s of
            (Inl e, s1) \<Rightarrow> if errors_Is e KV_ErrNotFound then (Inl ErrLeaseExpired, s1) else (Inl e, s1)
          | (Inr val, s1) \<Rightarrow>
              if val \<noteq> le_Token lease then (Inl ErrNotHeld, s1)
              else let ttl = KVLocker_ttl l ttl in
                (case kv_Set ops ctxErr' later (le_Key lease) (le_Token lease) ttl (env s1) of
                   (Some e, s2) \<Rightarrow> (Inl e, s2)
                 | (None, s2) \<Rightarrow> (Inr \<lparr>le_Key = le_Key lease, le_Token = le_Token lease,
                                     le_ExpiresAt = fin + ttl\<rparr>, s2)))))"

lemma KVLocker_ttl_pos: "0 < KVLocker_ttl l ttl"
  by (simp add: KVLocker_ttl_def)

text \<open>
  What others may do to the lock without holding its token, one atomic call after the other. A call comes with the
  successive readings of the clock it makes.
\<close>

datatype kv_call = CTry "goerror + string" string duration | CUnlock Lease | CRefresh Lease duration

type_synonym readings = "time \<times> time \<times> time"

fun call_key :: "kv_call \<Rightarrow> string" where
  "call_key (CTry tok k ttl) = k"
| "call_key (CUnlock ls) = le_Key ls"
| "call_key (CRefresh ls ttl) = le_Key ls"

fun not_holding :: "string \<Rightarrow> string \<Rightarrow> kv_call \<Rightarrow> bool" where
  "not_holding key token (CTry tok k ttl) = True"
| "not_holding key token (CUnlock ls) = (\<not> (le_Key ls = key \<and> le_Token ls = token))"
| "not_holding key token (CRefresh ls ttl) = (\<not> (le_Key ls = key \<and> le_Token ls = token))"

fun kv_call_exec :: "'s KVStore \<Rightarrow> KVLocker \<Rightarrow> kv_call \<times> readings \<Rightarrow> 's \<Rightarrow> (goerror + Lease option) \<times> 's" where
  "kv_call_exec ops l (CTry tok k ttl, now, later, fin) s =
     map_prod (map_sum id Some) id (KVLocker_TryLock ops None None now later fin tok k ttl (Some l) s)"
| "kv_call_exec ops l (CUnlock ls, now, later, fin) s =
     map_prod (case_option (Inr None) Inl) id (KVLocker_Unlock ops None None now id ls (Some l) s)"
| "kv_call_exec ops l (CRefresh ls ttl, now, later, fin) s =
     map_prod (map_sum id Some) id (KVLocker_Refresh ops None None now id later fin ls ttl (Some l) s)"

fun kv_call_run :: "'s KVStore \<Rightarrow> KVLocker \<Rightarrow> (kv_call \<times> readings) list \<Rightarrow> 's \<Rightarrow> (goerror + Lease option) list \<times> 's" where
  "kv_call_run ops l [] s = ([], s)"
| "kv_call_run ops l (c # cs) s =
     (let (a, s1) = kv_call_exec ops l c s; (as, s2) = kv_call_run ops l cs s1 in (a # as, s2))"

definition refused :: "string \<Rightarrow> kv_call \<Rightarrow> goerror + Lease option \<Rightarrow> bool" where
  "refused key c a = (call_key c = key \<longrightarrow> (\<exists>e. a = Inl e))"

definition starts :: "(kv_call \<times> readings) list \<Rightarrow> time list" where
  "starts cs = map (\<lambda>(c, now, later, fin). now) cs"

context kv_store
begin

lemma TryLock_takes:
  assumes "opened s" "KVLocker_TryLock ops None None now later fin tok key ttl (Some l) s = (Inr lease, s')" "now \<le> later"
  shows "opened s' \<and> le_Key lease = key \<and> tok = Inr (le_Token lease) \<and> le_ExpiresAt lease = fin + KVLocker_ttl l ttl \<and>
     (0 \<le> later \<longrightarrow> view now s' key = Some (le_Token lease, later + KVLocker_ttl l ttl))"
proof -
  obtain token where tok: "tok = Inr token" "key \<noteq> ''''"
    using assms(2) by (auto simp: KVLocker_TryLock_def split: sum.splits if_splits)
  obtain r where nx: "kv_SetNX ops None now later key token (KVLocker_ttl l ttl) s = (r, s')"
    and r: "r = Inr True" and lease: "lease = \<lparr>le_Key = key, le_Token = token, le_ExpiresAt = fin + KVLocker_ttl l ttl\<rparr>"
    using assms(2) tok by (auto simp: KVLocker_TryLock_def Let_def split: sum.splits prod.splits if_splits)
  from setnx_law [OF assms(1) nx] r
  have "opened s'" "view now s' key = alive now (token, KV_expiresAt later (KVLocker_ttl l ttl))" by auto
  then show ?thesis
    using tok lease assms(3) KVLocker_ttl_pos [of l ttl] by (auto simp: alive_def KV_expiresAt_def)
qed

lemma other_call_step:
  assumes "opened s" "view now s key = Some (token, e)" "not_holding key token c" "e \<noteq> 0"
  shows "refused key c (fst (kv_call_exec ops l (c, now, later, fin) s)) \<and>
     opened (snd (kv_call_exec ops l (c, now, later, fin) s)) \<and>
     view now (snd (kv_call_exec ops l (c, now, later, fin) s)) key = Some (token, e)"
proof (cases c)
  case (CTry tok k ttl)
  show ?thesis
  proof (cases "\<exists>x. tok = Inr x \<and> k \<noteq> ''''")
    case True
    then obtain x where x: "tok = Inr x" "k \<noteq> ''''" by blast
    obtain r s' where nx: "kv_SetNX ops None now later k x (KVLocker_ttl l ttl) s = (r, s')" by fastforce
    from setnx_law [OF assms(1) nx] assms(2) x nx show ?thesis
      by (auto simp: CTry KVLocker_TryLock_def Let_def refused_def split: if_splits)
  next
    case False
    then show ?thesis
      using assms(1,2) by (cases tok) (auto simp: CTry KVLocker_TryLock_def refused_def)
  qed
next
  case (CUnlock ls)
  obtain r s1 where g: "kv_Get ops None now (le_Key ls) s = (r, s1)" by fastforce
  obtain r2 s2 where d: "kv_Delete ops None (le_Key ls) s1 = (r2, s2)" by fastforce
  note gl = get_law [OF assms(1) g]
  note dl = delete_law [OF _ d]
  show ?thesis
    using assms gl dl g d
    by (cases "le_Key ls = key")
      (auto simp: CUnlock KVLocker_Unlock_def refused_def split: sum.splits option.splits if_splits)
next
  case (CRefresh ls ttl)
  obtain r s1 where g: "kv_Get ops None now (le_Key ls) s = (r, s1)" by fastforce
  obtain r2 s2 where d: "kv_Set ops None later (le_Key ls) (le_Token ls) (KVLocker_ttl l ttl) s1 = (r2, s2)" by fastforce
  note gl = get_law [OF assms(1) g]
  note sl = set_law [OF _ d]
  show ?thesis
    using assms gl sl g d
    by (cases "le_Key ls = key")
      (auto simp: CRefresh KVLocker_Refresh_def Let_def refused_def split: sum.splits option.splits if_splits)
qed

lemma held_against_calls:
  assumes "opened s" "view t s key = Some (token, e)" "e \<noteq> 0" "sorted (t # starts cs)"
    and "\<forall>(c, now, later, fin) \<in> set cs. now < e \<and> not_holding key token c"
  shows "list_all2 (\<lambda>c a. refused key (fst c) a) cs (fst (kv_call_run ops l cs s)) \<and>
     view (last (t # starts cs)) (snd (kv_call_run ops l cs s)) key = Some (token, e)"
  using assms
proof (induction cs arbitrary: s t)
  case Nil
  then show ?case by (simp add: starts_def)
next
  case (Cons p cs)
  obtain c now later fin where p: "p = (c, now, later, fin)" by (cases p)
  have st: "starts (p # cs) = now # starts cs" by (simp add: starts_def p)
  have v: "view now s key = Some (token, e)"
    using view_kept [OF Cons.prems(1,2)] Cons.prems(4,5) st p by auto
  have nh: "not_holding key token c" using Cons.prems(5) p by auto
  note step = other_call_step [OF Cons.prems(1) v nh Cons.prems(3), of l later fin]
  have srt: "sorted (now # starts cs)" using Cons.prems(4) st by simp
  have rest: "\<forall>(c, now, later, fin) \<in> set cs. now < e \<and> not_holding key token c" using Cons.prems(5) by auto
  from Cons.IH [OF _ _ Cons.prems(3) srt rest, of "snd (kv_call_exec ops l p s)"] step
  show ?case unfolding st by (simp add: p split_beta Let_def)
qed

end

text \<open>
  C16. Mutual exclusion of the lock over the in-memory store. A granted TryLock reads the clock three times: when
  SetNX looks for a live entry, when it stores the new one, and when the expiry of the lease is computed from the last
  reading. From the grant until the stored entry expires, its lifetime after the second reading, whatever sequence of
  atomic calls with live contexts is made by callers that do not hold its token, each with readings of its own, every
  TryLock, Unlock and Refresh of the key fails and the store keeps the token with that expiry. The lease names its
  lifetime after the third reading, so it is protected for its whole life only if that reading equals the second one.
\<close>

theorem KVLocker_mutual_exclusion:
  assumes "KVMemoryStore_open s" and "0 \<le> later" and "now \<le> later"
    and "KVLocker_TryLock KVMemoryStore_ops None None now later fin tok key ttl (Some l) s = (Inr lease, s1)"
    and "sorted (now # starts cs)"
    and "\<forall>(c, start, mid, stop) \<in> set cs. start < later + KVLocker_ttl l ttl \<and> not_holding key (le_Token lease) c"
  shows "let (answers, s2) = kv_call_run KVMemoryStore_ops l' cs s1
     in list_all2 (\<lambda>c a. refused key (fst c) a) cs answers \<and>
        KVMemoryStore_view (last (now # starts cs)) s2 key = Some (le_Token lease, later + KVLocker_ttl l ttl) \<and>
        tok = Inr (le_Token lease) \<and> le_Key lease = key \<and> le_ExpiresAt lease = fin + KVLocker_ttl l ttl"
proof -
  have got: "KVMemoryStore_open s1" "KVMemoryStore_view now s1 key = Some (le_Token lease, later + KVLocker_ttl l ttl)"
    "later + KVLocker_ttl l ttl \<noteq> 0"
    and lease: "tok = Inr (le_Token lease)" "le_Key lease = key" "le_ExpiresAt lease = fin + KVLocker_ttl l ttl"
    using kvm.TryLock_takes [OF assms(1,4,3)] assms(2) KVLocker_ttl_pos [of l ttl] by auto
  from kvm.held_against_calls [OF got assms(5,6), of l'] lease show ?thesis by (simp add: split_beta)
qed

theorem KVLocker_mutual_exclusion_witness:
  "let s1 = snd (KVLocker_TryLock KVMemoryStore_ops None None 1 2 5 (Inr ''a'') ''k'' 10 (Some (NewKVLocker []))
                  (Some KV_NewMemoryStore));
       cs = [(CTry (Inr ''b'') ''k'' 10, 5, 6, 7), (CUnlock \<lparr>le_Key = ''k'', le_Token = ''b'', le_ExpiresAt = 0\<rparr>, 11, 11, 30)];
       (answers, s2) = kv_call_run KVMemoryStore_ops (NewKVLocker []) cs s1
   in list_all2 (\<lambda>c a. refused ''k'' (fst c) a) cs answers \<and> KVMemoryStore_view 11 s2 ''k'' = Some (''a'', 12)"
proof -
  define s1 where "s1 = snd (KVLocker_TryLock KVMemoryStore_ops None None 1 2 5 (Inr ''a'') ''k'' 10
      (Some (NewKVLocker [])) (Some KV_NewMemoryStore))"
  let ?lease = "\<lparr>le_Key = ''k'', le_Token = ''a'', le_ExpiresAt = 15\<rparr>"
  define cs :: "(kv_call \<times> readings) list" where "cs = [(CTry (Inr ''b'') ''k'' 10, 5, 6, 7),
    (CUnlock \<lparr>le_Key = ''k'', le_Token = ''b'', le_ExpiresAt = 0\<rparr>, 11, 11, 30)]"
  have ttl: "KVLocker_ttl (NewKVLocker []) 10 = 10" by (simp add: KVLocker_ttl_def)
  have opn: "KVMemoryStore_open (Some KV_NewMemoryStore)"
    by (simp add: KVMemoryStore_open_def KV_NewMemoryStore_def)
  have got: "KVLocker_TryLock KVMemoryStore_ops None None 1 2 5 (Inr ''a'') ''k'' 10 (Some (NewKVLocker []))
      (Some KV_NewMemoryStore) = (Inr ?lease, s1)"
    by (simp add: s1_def KVLocker_TryLock_def KVMemoryStore_ops_def kv_defs KV_NewMemoryStore_def KVLocker_ttl_def)
  have "sorted (1 # starts cs)" "last (1 # starts cs) = 11" by (simp_all add: cs_def starts_def)
  moreover have "\<forall>(c, start, mid, stop) \<in> set cs. start < 2 + KVLocker_ttl (NewKVLocker []) 10 \<and> not_holding ''k'' (le_Token ?lease) c"
    by (simp add: cs_def ttl)
  ultimately show ?thesis
    using KVLocker_mutual_exclusion [OF opn _ _ got, of cs "NewKVLocker []"]
    unfolding Let_def s1_def [symmetric] cs_def [symmetric] by (simp add: split_beta ttl)
qed

text \<open>
  The lease can outlive the entry that protects it: \<open>a\<close> stores its entry at time 1 and computes the expiry of its
  lease at time 5. The lease says 15, the entry expires at 11, and \<open>b\<close> takes the lock at 11.
\<close>

lemma KVLocker_lease_outlives_entry:
  "let try = (\<lambda>now later fin x. KVLocker_TryLock KVMemoryStore_ops None None now later fin (Inr x) ''k'' 10 (Some (NewKVLocker [])));
       (la, s1) = try 1 1 5 ''a'' (Some KV_NewMemoryStore)
   in la = Inr \<lparr>le_Key = ''k'', le_Token = ''a'', le_ExpiresAt = 15\<rparr> \<and>
      fst (try 11 11 11 ''b'' s1) = Inr \<lparr>le_Key = ''k'', le_Token = ''b'', le_ExpiresAt = 21\<rparr>"
  by (simp add: KVLocker_TryLock_def KVMemoryStore_ops_def kv_defs KV_NewMemoryStore_def KVLocker_ttl_def
      KV_expiresAt_def Let_def)

text \<open>
  The Unlock of the KV lock is a Get followed by a Delete, and another caller can get in between: the
  lease of \<open>a\<close> expires after its Get has read its own token, \<open>b\<close> takes the lock, and \<open>a\<close>'s Delete
  removes the lock of \<open>b\<close>, which \<open>c\<close> then takes while the lease of \<open>b\<close> runs until time 22.
\<close>

lemma KVLocker_unlock_race:
  "let try = (\<lambda>t x. KVLocker_TryLock KVMemoryStore_ops None None t t t (Inr x) ''k'' 10 (Some (NewKVLocker [])));
       (la, s1) = try 1 ''a'' (Some KV_NewMemoryStore);
       (r, s2) = KVLocker_Unlock KVMemoryStore_ops None None 10 (\<lambda>s. snd (try 12 ''b'' s))
                   \<lparr>le_Key = ''k'', le_Token = ''a'', le_ExpiresAt = 11\<rparr> (Some (NewKVLocker [])) s1
   in r = None \<and>
      fst (try 13 ''c'' s2) = Inr \<lparr>le_Key = ''k'', le_Token = ''c'', le_ExpiresAt = 23\<rparr>"
  by (simp add: KVLocker_TryLock_def KVLocker_Unlock_def KVMemoryStore_ops_def kv_defs KV_NewMemoryStore_def
      KVLocker_ttl_def KV_expiresAt_def Let_def)

section \<open>The guard\<close>

text \<open>
  \<open>gd_err\<close> is the content of the error channel of capacity one, \<open>gd_done\<close> whether the goroutine has
  ended. A round of its select is an event; a tick carries the time of the refresh and what others
  did to the locker since the last round.
\<close>

record Guard =
  gd_ttl :: duration
  gd_interval :: duration
  gd_lease :: Lease
  gd_stopped :: bool
  gd_err :: "goerror option"
  gd_refreshes :: int
  gd_done :: bool

datatype GuardOption = WithGuardInterval duration

fun apply_GuardOption :: "GuardOption \<Rightarrow> Guard \<Rightarrow> Guard" where
  "apply_GuardOption (WithGuardInterval d) g = (if d > 0 then g\<lparr>gd_interval := d\<rparr> else g)"

definition guardInterval :: "time \<Rightarrow> duration \<Rightarrow> Lease \<Rightarrow> duration" where
  "guardInterval now ttl lease =
     (let base = (if ttl \<le> 0 then time_Sub (le_ExpiresAt lease) now else ttl)
      in if base \<le> 0 then 10 * Second else base sdiv 3)"

definition Keepalive :: "time \<Rightarrow> Lease \<Rightarrow> duration \<Rightarrow> GuardOption option list \<Rightarrow> Guard" where
  "Keepalive now lease ttl opts =
     (let g = fold (\<lambda>opt g. case opt of None \<Rightarrow> g | Some f \<Rightarrow> apply_GuardOption f g) opts
        \<lparr>gd_ttl = ttl, gd_interval = guardInterval now ttl lease, gd_lease = lease, gd_stopped = False,
         gd_err = None, gd_refreshes = 0, gd_done = False\<rparr>
      in if gd_interval g \<le> 0 then g\<lparr>gd_interval := 10 * Second\<rparr> else g)"

definition Guard_fail :: "goerror option \<Rightarrow> Guard \<Rightarrow> Guard" where
  "Guard_fail err g =
     (let g = g\<lparr>gd_stopped := True\<rparr>
      in case err of None \<Rightarrow> g
         | Some e \<Rightarrow> (case gd_err g of None \<Rightarrow> g\<lparr>gd_err := Some e\<rparr> | Some _ \<Rightarrow> g))"

datatype 's guard_event = GCtxDone goerror | GStop | GTick "'s \<Rightarrow> 's" "goerror option" time

fun Guard_run ::
  "(goerror option \<Rightarrow> time \<Rightarrow> Lease \<Rightarrow> duration \<Rightarrow> 's \<Rightarrow> (goerror + Lease) \<times> 's) \<Rightarrow>
   's guard_event list \<Rightarrow> Guard \<times> 's \<Rightarrow> Guard \<times> 's" where
  "Guard_run refresh [] (g, s) = (g, s)"
| "Guard_run refresh (GCtxDone e # evs) (g, s) = ((Guard_fail (Some e) g)\<lparr>gd_done := True\<rparr>, s)"
| "Guard_run refresh (GStop # evs) (g, s) = (g\<lparr>gd_done := True\<rparr>, s)"
| "Guard_run refresh (GTick env ctxErr now # evs) (g, s) =
     (case refresh ctxErr now (gd_lease g) (gd_ttl g) (env s) of
        (Inl e, s') \<Rightarrow> ((Guard_fail (Some e) g)\<lparr>gd_done := True\<rparr>, s')
      | (Inr nxt, s') \<Rightarrow> Guard_run refresh evs (g\<lparr>gd_lease := nxt, gd_refreshes := gd_refreshes g + 1\<rparr>, s'))"

definition Guard_Stop :: "Guard \<Rightarrow> Guard" where
  "Guard_Stop g = g\<lparr>gd_done := True, gd_stopped := True\<rparr>"

text \<open>
  A round of the guard: the calls others make (never with the guarded token), then the tick. Every
  call and every tick comes before the lease of the previous round expires.
\<close>

type_synonym guard_round = "(lock_op \<times> time) list \<times> time"

fun in_time :: "string \<Rightarrow> string \<Rightarrow> duration \<Rightarrow> time \<Rightarrow> guard_round list \<Rightarrow> bool" where
  "in_time key token ttl e [] = True"
| "in_time key token ttl e ((ops, now) # rs) =
     ((\<forall>(op, t) \<in> set ops. t < e \<and> \<not> by_holder key token op) \<and> now < e \<and>
      in_time key token ttl (now + ttl) rs)"

definition guard_events :: "guard_round list \<Rightarrow> MemoryLocker guard_event list" where
  "guard_events rs = map (\<lambda>(ops, now). GTick (\<lambda>l. snd (lock_run ops l)) None now) rs"

lemma Refresh_held:
  assumes "lock_inv l" "m_get (ml_locks l) (le_Key lease) = Some \<lparr>lk_token = le_Token lease, lk_expiresAt = e\<rparr>"
    and "now < e" "0 < ttl"
  shows "\<exists>l'. MemoryLocker_Refresh None now lease ttl l = (Inr (lease\<lparr>le_ExpiresAt := now + ttl\<rparr>), l') \<and>
     lock_inv l' \<and>
     m_get (ml_locks l') (le_Key lease) = Some \<lparr>lk_token = le_Token lease, lk_expiresAt = now + ttl\<rparr>"
proof -
  have "gomap_wf (ml_locks l)" using assms(1) by (simp add: lock_inv_def)
  note look = cleanup_locks(3) [OF this, of now "le_Key lease"]
  have "lock_inv (snd (MemoryLocker_Refresh None now lease ttl l))"
    using exec_inv [OF assms(1), of "ORefresh lease ttl" now] by simp
  then show ?thesis
    using assms(2-4) look by (auto simp: MemoryLocker_Refresh_def MemoryLocker_ttl_def Let_def)
qed

text \<open>
  C17. The guard keeps the lock: as long as each tick comes before the lease of the previous one
  expires, then whatever others do in between, every refresh succeeds, the guard does not stop and
  reports no error, and the lock is still held by its token with a full time to live from the last
  tick.
\<close>

theorem Guard_keeps_lock:
  assumes "lock_inv l" and "le_Key lease \<noteq> ''''" and "0 < ttl"
    and "m_get (ml_locks l) (le_Key lease) = Some \<lparr>lk_token = le_Token lease, lk_expiresAt = e\<rparr>"
    and "in_time (le_Key lease) (le_Token lease) ttl e rs"
  shows "let (g, l') = Guard_run MemoryLocker_Refresh (guard_events rs) (Keepalive now lease ttl opts, l)
     in \<not> gd_stopped g \<and> \<not> gd_done g \<and> gd_err g = None \<and> gd_refreshes g = int (length rs) \<and>
        m_get (ml_locks l') (le_Key lease) = Some \<lparr>lk_token = le_Token lease,
          lk_expiresAt = (if rs = [] then e else snd (last rs) + ttl)\<rparr>"
proof -
  define g0 where "g0 = Keepalive now lease ttl opts"
  have "(\<lambda>g. (gd_ttl g, gd_lease g, gd_stopped g, gd_done g, gd_err g, gd_refreshes g))
      (fold (\<lambda>opt g. case opt of None \<Rightarrow> g | Some f \<Rightarrow> apply_GuardOption f g) opts g) =
    (gd_ttl g, gd_lease g, gd_stopped g, gd_done g, gd_err g, gd_refreshes g)" for g
  proof (induction opts arbitrary: g)
    case (Cons opt opts)
    have "gd_ttl (apply_GuardOption f g) = gd_ttl g" "gd_lease (apply_GuardOption f g) = gd_lease g"
      "gd_stopped (apply_GuardOption f g) = gd_stopped g" "gd_done (apply_GuardOption f g) = gd_done g"
      "gd_err (apply_GuardOption f g) = gd_err g" "gd_refreshes (apply_GuardOption f g) = gd_refreshes g" for f
      by (cases f; simp)+
    with Cons show ?case by (auto split: option.splits)
  qed simp
  then have g0: "gd_ttl g0 = ttl" "le_Key (gd_lease g0) = le_Key lease" "le_Token (gd_lease g0) = le_Token lease"
    "\<not> gd_stopped g0" "\<not> gd_done g0" "gd_err g0 = None" "gd_refreshes g0 = 0"
    by (simp_all add: g0_def Keepalive_def Let_def)
  have run: "let (g', l') = Guard_run MemoryLocker_Refresh (guard_events rs) (g, l)
     in \<not> gd_stopped g' \<and> \<not> gd_done g' \<and> gd_err g' = None \<and> gd_refreshes g' = gd_refreshes g + int (length rs) \<and>
        m_get (ml_locks l') (le_Key lease) = Some \<lparr>lk_token = le_Token lease,
          lk_expiresAt = (if rs = [] then e else snd (last rs) + ttl)\<rparr>"
    if "lock_inv l" "m_get (ml_locks l) (le_Key lease) = Some \<lparr>lk_token = le_Token lease, lk_expiresAt = e\<rparr>"
      "in_time (le_Key lease) (le_Token lease) ttl e rs" "gd_ttl g = ttl"
      "le_Key (gd_lease g) = le_Key lease" "le_Token (gd_lease g) = le_Token lease"
      "\<not> gd_stopped g" "\<not> gd_done g" "gd_err g = None" for l e g
    using that
  proof (induction rs arbitrary: l e g)
    case (Cons r rs)
    obtain ops now where r: "r = (ops, now)" by (cases r)
    let ?l1 = "snd (lock_run ops l)"
    have "m_get (ml_locks ?l1) (le_Key lease) = Some \<lparr>lk_token = le_Token lease, lk_expiresAt = e\<rparr>"
      using held_run [OF Cons.prems(1,2) assms(2), of ops] Cons.prems(3) r by auto
    then obtain l2 where l2: "MemoryLocker_Refresh None now (gd_lease g) ttl ?l1 =
        (Inr ((gd_lease g)\<lparr>le_ExpiresAt := now + ttl\<rparr>), l2)" "lock_inv l2"
      "m_get (ml_locks l2) (le_Key lease) = Some \<lparr>lk_token = le_Token lease, lk_expiresAt = now + ttl\<rparr>"
      using Refresh_held [OF lock_run_inv [OF Cons.prems(1)], of ops "gd_lease g" e now ttl]
        Cons.prems(3,5,6) r assms(3) by auto
    let ?g = "g\<lparr>gd_lease := (gd_lease g)\<lparr>le_ExpiresAt := now + ttl\<rparr>, gd_refreshes := gd_refreshes g + 1\<rparr>"
    have "in_time (le_Key lease) (le_Token lease) ttl (now + ttl) rs" using Cons.prems(3) r by simp
    from Cons.IH [OF l2(2,3) this, of ?g] Cons.prems l2(1) show ?case
      by (simp add: r guard_events_def split_beta Let_def)
  qed (simp add: guard_events_def)
  from run [OF assms(1,4,5) g0(1-6)] g0(7) show ?thesis by (simp add: g0_def)
qed

theorem Guard_keeps_lock_witness:
  "let l = snd (MemoryLocker_TryLock None 0 (Inr ''a'') ''k'' 9 (NewMemoryLocker []));
       lease = \<lparr>le_Key = ''k'', le_Token = ''a'', le_ExpiresAt = 9\<rparr>;
       (g, l') = Guard_run MemoryLocker_Refresh (guard_events [([(OTry (Inr ''b'') ''k'' 9, 2)], 3), ([], 6)])
                   (Keepalive 0 lease 9 [], l)
   in gd_refreshes g = 2 \<and> m_get (ml_locks l') ''k'' = Some \<lparr>lk_token = ''a'', lk_expiresAt = 15\<rparr>"
proof -
  define l where "l = snd (MemoryLocker_TryLock None 0 (Inr ''a'') ''k'' 9 (NewMemoryLocker []))"
  let ?lease = "\<lparr>le_Key = ''k'', le_Token = ''a'', le_ExpiresAt = 9\<rparr>"
  have "MemoryLocker_TryLock None 0 (Inr ''a'') ''k'' 9 (NewMemoryLocker []) = (Inr ?lease, l)"
    by (simp add: l_def MemoryLocker_TryLock_def MemoryLocker_tryLockAt_def NewMemoryLocker_def
        MemoryLocker_cleanupExpiredLocked_def m_sweep_def MemoryLocker_ttl_def)
  note got = TryLock_granted [OF NewMemoryLocker_inv(1) this]
  have "in_time ''k'' ''a'' 9 9 [([(OTry (Inr ''b'') ''k'' 9, 2)], 3), ([], 6)]" by simp
  then show ?thesis
    using Guard_keeps_lock [of l ?lease 9 9 "[([(OTry (Inr ''b'') ''k'' 9, 2)], 3), ([], 6)]" 0 "[]"] got(1,6)
    unfolding Let_def l_def [symmetric] by (simp add: split_beta del: Guard_run.simps)
qed

end
