(* ===== verification/Saga.thy ===== *)
theory Saga
  imports Prelude
begin

text \<open>
  The saga orchestrator of \<^verbatim>\<open>core/saga\<close>: \<^verbatim>\<open>Execute\<close> of \<^verbatim>\<open>saga.go\<close>, and \<^verbatim>\<open>ExecutePersist\<close> with its store
  of \<^verbatim>\<open>store.go\<close>. Actions and compensations act on a world \<open>'s\<close>, of which the context's error and
  the clock are functions; the trace lists the actions and compensations that ran, with their
  outcome. A step name is put between quotes for \<^verbatim>\<open>%q\<close> (names without characters to escape).

  Interface: \<open>saga_store\<close> is what \<^verbatim>\<open>ExecutePersist\<close> relies on of a store; the in-memory store
  interprets it.
\<close>

section \<open>Execute\<close>

type_synonym 's action = "'s \<Rightarrow> goerror option \<times> 's"

record 's Step =
  st_Name :: string
  st_Do :: "'s action option"
  st_Compensate :: "'s action option"

record 's Saga =
  sg_steps :: "'s Step list"

record CompensationError =
  ce_Step :: string
  ce_Index :: nat
  ce_Err :: goerror

record ExecutionError =
  xe_Step :: string
  xe_Index :: nat
  xe_Err :: goerror
  xe_Compensations :: "CompensationError list"

datatype saga_event = Did nat "goerror option" | Undid nat "goerror option"

definition Saga_New :: "'s Saga" where "Saga_New = \<lparr>sg_steps = []\<rparr>"

definition Saga_Add :: "'s Step \<Rightarrow> 's Saga \<Rightarrow> 's Saga" where
  "Saga_Add step s = s\<lparr>sg_steps := sg_steps s @ [step]\<rparr>"

definition Saga_Step :: "string \<Rightarrow> 's action option \<Rightarrow> 's action option \<Rightarrow> 's Saga \<Rightarrow> 's Saga" where
  "Saga_Step name act undo s = Saga_Add \<lparr>st_Name = name, st_Do = act, st_Compensate = undo\<rparr> s"

definition stepName :: "'s Step \<Rightarrow> nat \<Rightarrow> string" where
  "stepName step index =
     (if st_Name step \<noteq> '''' then st_Name step else ''step['' @ strconv_Itoa (int index) @ '']'')"

text \<open>\<open>todo\<close> holds the completed indices still to compensate, last first.\<close>

fun compensate_loop :: "'s Step list \<Rightarrow> nat list \<Rightarrow> 's \<Rightarrow> CompensationError list \<times> saga_event list \<times> 's" where
  "compensate_loop steps [] s = ([], [], s)"
| "compensate_loop steps (idx # todo) s =
     (case st_Compensate (steps ! idx) of
        None \<Rightarrow> compensate_loop steps todo s
      | Some undo \<Rightarrow>
          (case undo s of
             (None, s1) \<Rightarrow>
               (let (fs, tr, s2) = compensate_loop steps todo s1 in (fs, Undid idx None # tr, s2))
           | (Some e, s1) \<Rightarrow>
               (let (fs, tr, s2) = compensate_loop steps todo s1
                in (\<lparr>ce_Step = stepName (steps ! idx) idx, ce_Index = idx, ce_Err = e\<rparr> # fs,
                    Undid idx (Some e) # tr, s2))))"

definition Saga_compensate ::
  "'s Saga \<Rightarrow> nat list \<Rightarrow> 's \<Rightarrow> CompensationError list \<times> saga_event list \<times> 's" where
  "Saga_compensate g completed s = compensate_loop (sg_steps g) (rev completed) s"

definition nil_action :: "string \<Rightarrow> goerror" where
  "nil_action name = Err (''saga: step '' @ [CHR 0x22] @ name @ [CHR 0x22] @ '' has nil action'')"

text \<open>Aborting at a step: the compensations run, then the error is built.\<close>

definition Saga_abort :: "'s Saga \<Rightarrow> nat list \<Rightarrow> nat \<Rightarrow> 's Step \<Rightarrow> goerror \<Rightarrow> 's \<Rightarrow>
    ExecutionError option \<times> saga_event list \<times> 's" where
  "Saga_abort g completed i step err s =
     (let (fs, tr, s') = Saga_compensate g completed s
      in (Some \<lparr>xe_Step = stepName step i, xe_Index = i, xe_Err = err, xe_Compensations = fs\<rparr>, tr, s'))"

fun execute_loop :: "('s \<Rightarrow> goerror option) \<Rightarrow> 's Saga \<Rightarrow> 's Step list \<Rightarrow> nat \<Rightarrow> nat list \<Rightarrow> 's \<Rightarrow>
    ExecutionError option \<times> saga_event list \<times> 's" where
  "execute_loop ctx g [] i completed s = (None, [], s)"
| "execute_loop ctx g (step # rest) i completed s =
     (case st_Do step of
        None \<Rightarrow> Saga_abort g completed i step (nil_action (stepName step i)) s
      | Some act \<Rightarrow>
          (case ctx s of Some cerr \<Rightarrow> Saga_abort g completed i step cerr s
           | None \<Rightarrow>
               (case act s of
                  (Some err, s1) \<Rightarrow>
                    (let (r, tr, s2) = Saga_abort g completed i step err s1
                     in (r, Did i (Some err) # tr, s2))
                | (None, s1) \<Rightarrow>
                    (let (r, tr, s2) = execute_loop ctx g rest (i + 1) (completed @ [i]) s1
                     in (r, Did i None # tr, s2)))))"

definition Saga_Execute :: "('s \<Rightarrow> goerror option) \<Rightarrow> 's Saga \<Rightarrow> 's \<Rightarrow>
    ExecutionError option \<times> saga_event list \<times> 's" where
  "Saga_Execute ctx g s = execute_loop ctx g (sg_steps g) 0 [] s"

definition CompensationError_Error :: "CompensationError \<Rightarrow> string" where
  "CompensationError_Error e = ''saga: compensation for step '' @ [CHR 0x22] @ ce_Step e @ [CHR 0x22] @
     '' failed: '' @ error_text (ce_Err e)"

definition ExecutionError_Error :: "ExecutionError \<Rightarrow> string" where
  "ExecutionError_Error e =
     (let base = ''saga: step '' @ [CHR 0x22] @ xe_Step e @ [CHR 0x22] @ '' failed: '' @ error_text (xe_Err e)
      in if xe_Compensations e = [] then base
         else base @ ''; '' @ strconv_Itoa (int (length (xe_Compensations e))) @ '' compensation(s) failed'')"

definition ExecutionError_CompensationErr :: "ExecutionError \<Rightarrow> string list option" where
  "ExecutionError_CompensationErr e =
     (if xe_Compensations e = [] then None else Some (map CompensationError_Error (xe_Compensations e)))"

section \<open>What Execute does\<close>

text \<open>The compensations of the completed steps, in reverse order, with the outcomes \<open>res\<close>.\<close>

definition rollback :: "'s Step list \<Rightarrow> nat \<Rightarrow> (nat \<Rightarrow> goerror option) \<Rightarrow> saga_event list" where
  "rollback steps k res =
     map (\<lambda>j. Undid j (res j)) (filter (\<lambda>j. st_Compensate (steps ! j) \<noteq> None) (rev [0..<k]))"

definition rollback_failures :: "'s Step list \<Rightarrow> nat \<Rightarrow> (nat \<Rightarrow> goerror option) \<Rightarrow> (nat \<times> goerror) list" where
  "rollback_failures steps k res =
     List.map_filter (\<lambda>j. case res j of None \<Rightarrow> None | Some e \<Rightarrow> Some (j, e))
       (filter (\<lambda>j. st_Compensate (steps ! j) \<noteq> None) (rev [0..<k]))"

lemma compensate_loop_spec:
  assumes "distinct todo"
  shows "\<exists>res. fst (snd (compensate_loop steps todo s)) =
       map (\<lambda>j. Undid j (res j)) (filter (\<lambda>j. st_Compensate (steps ! j) \<noteq> None) todo) \<and>
     fst (compensate_loop steps todo s) =
       map (\<lambda>(j, e). \<lparr>ce_Step = stepName (steps ! j) j, ce_Index = j, ce_Err = e\<rparr>)
         (List.map_filter (\<lambda>j. case res j of None \<Rightarrow> None | Some e \<Rightarrow> Some (j, e))
            (filter (\<lambda>j. st_Compensate (steps ! j) \<noteq> None) todo))"
  using assms
proof (induction todo arbitrary: s)
  case Nil
  then show ?case by (simp add: List.map_filter_simps)
next
  case (Cons idx todo)
  show ?case
  proof (cases "st_Compensate (steps ! idx)")
    case None
    with Cons show ?thesis by simp
  next
    case (Some undo)
    obtain r s1 where c: "undo s = (r, s1)" by (cases "undo s")
    from Cons obtain res where res:
      "fst (snd (compensate_loop steps todo s1)) =
         map (\<lambda>j. Undid j (res j)) (filter (\<lambda>j. st_Compensate (steps ! j) \<noteq> None) todo)"
      "fst (compensate_loop steps todo s1) =
         map (\<lambda>(j, e). \<lparr>ce_Step = stepName (steps ! j) j, ce_Index = j, ce_Err = e\<rparr>)
           (List.map_filter (\<lambda>j. case res j of None \<Rightarrow> None | Some e \<Rightarrow> Some (j, e))
              (filter (\<lambda>j. st_Compensate (steps ! j) \<noteq> None) todo))"
      by fastforce
    have same: "(res(idx := r)) j = res j" if "j \<in> set (filter (\<lambda>j. st_Compensate (steps ! j) \<noteq> None) todo)" for j
      using that Cons.prems by auto
    show ?thesis
    proof (intro exI [of _ "res(idx := r)"] conjI)
      show "fst (snd (compensate_loop steps (idx # todo) s)) = map (\<lambda>j. Undid j ((res(idx := r)) j))
          (filter (\<lambda>j. st_Compensate (steps ! j) \<noteq> None) (idx # todo))"
        using Some c res(1) same by (cases r) (auto simp: split_beta Let_def)
      show "fst (compensate_loop steps (idx # todo) s) =
         map (\<lambda>(j, e). \<lparr>ce_Step = stepName (steps ! j) j, ce_Index = j, ce_Err = e\<rparr>)
           (List.map_filter (\<lambda>j. case (res(idx := r)) j of None \<Rightarrow> None | Some e \<Rightarrow> Some (j, e))
              (filter (\<lambda>j. st_Compensate (steps ! j) \<noteq> None) (idx # todo)))"
      proof -
        have "List.map_filter (\<lambda>j. case (res(idx := r)) j of None \<Rightarrow> None | Some e \<Rightarrow> Some (j, e))
            (filter (\<lambda>j. st_Compensate (steps ! j) \<noteq> None) todo) =
          List.map_filter (\<lambda>j. case res j of None \<Rightarrow> None | Some e \<Rightarrow> Some (j, e))
            (filter (\<lambda>j. st_Compensate (steps ! j) \<noteq> None) todo)"
          using same by (intro map_filter_cong) simp
        then show ?thesis
          using Some c res(2) by (cases r) (simp_all add: split_beta Let_def List.map_filter_simps)
      qed
    qed
  qed
qed

definition as_compensation_errors :: "'s Step list \<Rightarrow> (nat \<times> goerror) list \<Rightarrow> CompensationError list" where
  "as_compensation_errors steps = map (\<lambda>(j, e). \<lparr>ce_Step = stepName (steps ! j) j, ce_Index = j, ce_Err = e\<rparr>)"

lemma Saga_compensate_spec:
  "\<exists>res. fst (snd (Saga_compensate g [0..<k] s)) = rollback (sg_steps g) k res \<and>
     fst (Saga_compensate g [0..<k] s) =
       as_compensation_errors (sg_steps g) (rollback_failures (sg_steps g) k res)"
  using compensate_loop_spec [of "rev [0..<k]" "sg_steps g" s]
  by (simp add: Saga_compensate_def rollback_def rollback_failures_def as_compensation_errors_def)

text \<open>How a saga that aborted at step \<open>k\<close> with the trace \<open>tr\<close> unwound.\<close>

definition aborted_at :: "'s Saga \<Rightarrow> ('s \<Rightarrow> goerror option) \<Rightarrow> nat \<Rightarrow> ExecutionError \<Rightarrow> saga_event list \<Rightarrow> bool" where
  "aborted_at g ctx k e tr \<longleftrightarrow>
     k < length (sg_steps g) \<and> xe_Index e = k \<and> xe_Step e = stepName (sg_steps g ! k) k \<and>
     (\<exists>res tried.
        tr = map (\<lambda>i. Did i None) [0..<k] @ tried @ rollback (sg_steps g) k res \<and>
        (tried = [Did k (Some (xe_Err e))] \<or>
         tried = [] \<and> (st_Do (sg_steps g ! k) = None \<or> (\<exists>s. ctx s = Some (xe_Err e)))) \<and>
        xe_Compensations e = as_compensation_errors (sg_steps g) (rollback_failures (sg_steps g) k res))"

lemma execute_loop_spec:
  assumes "rest = drop i (sg_steps g)" "i \<le> length (sg_steps g)"
    and "execute_loop ctx g rest i [0..<i] s = (r, tr, s')"
  shows "(r = None \<longrightarrow> tr = map (\<lambda>j. Did j None) [i..<length (sg_steps g)]) \<and>
     (\<forall>e. r = Some e \<longrightarrow> i \<le> xe_Index e \<and>
        aborted_at g ctx (xe_Index e) e (map (\<lambda>j. Did j None) [0..<i] @ tr))"
  using assms
proof (induction rest arbitrary: i s r tr s')
  case (Cons step rest)
  have i: "i < length (sg_steps g)" using Cons.prems(1) by (metis drop_all linorder_not_less list.distinct(1))
  have step: "sg_steps g ! i = step" "rest = drop (i + 1) (sg_steps g)"
    using Cons.prems(1) i by (metis Cons_nth_drop_Suc list.inject Suc_eq_plus1)+
  have abort: "aborted_at g ctx i e (map (\<lambda>j. Did j None) [0..<i] @ tried @ tr1) \<and> xe_Index e = i"
    if "Saga_abort g [0..<i] i step err s1 = (Some e, tr1, s2)"
      "tried = [Did i (Some err)] \<or> tried = [] \<and> (st_Do step = None \<or> (\<exists>s. ctx s = Some err))"
    for err s1 e tr1 s2 tried
  proof -
    obtain res where res: "fst (snd (Saga_compensate g [0..<i] s1)) = rollback (sg_steps g) i res"
      "fst (Saga_compensate g [0..<i] s1) =
         as_compensation_errors (sg_steps g) (rollback_failures (sg_steps g) i res)"
      using Saga_compensate_spec [of g i s1] by auto
    then have e: "tr1 = rollback (sg_steps g) i res" "xe_Index e = i" "xe_Err e = err"
      "xe_Step e = stepName step i"
      "xe_Compensations e = as_compensation_errors (sg_steps g) (rollback_failures (sg_steps g) i res)"
      using that(1) by (auto simp: Saga_abort_def split_beta Let_def)
    have "\<exists>res tried'. map (\<lambda>j. Did j None) [0..<i] @ tried @ tr1 =
          map (\<lambda>j. Did j None) [0..<i] @ tried' @ rollback (sg_steps g) i res \<and>
        (tried' = [Did i (Some (xe_Err e))] \<or>
         tried' = [] \<and> (st_Do (sg_steps g ! i) = None \<or> (\<exists>s. ctx s = Some (xe_Err e)))) \<and>
        xe_Compensations e = as_compensation_errors (sg_steps g) (rollback_failures (sg_steps g) i res)"
      using that(2) by (intro exI [of _ res] exI [of _ tried]) (simp add: e step(1))
    then show ?thesis using i unfolding aborted_at_def by (simp add: e step(1))
  qed
  have fails: "\<exists>e tr1 s2. Saga_abort g [0..<i] i step err s1 = (Some e, tr1, s2)" for err s1
    by (simp add: Saga_abort_def split_beta Let_def)
  show ?case
  proof (cases "st_Do step")
    case None
    obtain e tr1 s2 where ab: "Saga_abort g [0..<i] i step (nil_action (stepName step i)) s = (Some e, tr1, s2)"
      using fails by blast
    then show ?thesis using None Cons.prems(3) abort [OF ab, of "[]"] by auto
  next
    case (Some act)
    show ?thesis
    proof (cases "ctx s")
      case cerr: (Some err)
      obtain e tr1 s2 where ab: "Saga_abort g [0..<i] i step err s = (Some e, tr1, s2)"
        using fails by blast
      then show ?thesis using Some cerr Cons.prems(3) abort [OF ab, of "[]"] by auto
    next
      case ctx: None
      obtain a s1 where a: "act s = (a, s1)" by (cases "act s")
      show ?thesis
      proof (cases a)
        case err: (Some err)
        obtain e tr1 s2 where ab: "Saga_abort g [0..<i] i step err s1 = (Some e, tr1, s2)"
          using fails by blast
        then show ?thesis
          using Some ctx a err Cons.prems(3) abort [OF ab, of "[Did i (Some err)]"] by auto
      next
        case None
        obtain r1 tr1 s2 where rec: "execute_loop ctx g rest (i + 1) ([0..<i] @ [i]) s1 = (r1, tr1, s2)"
          by (cases "execute_loop ctx g rest (i + 1) ([0..<i] @ [i]) s1")
        have "[0..<i + 1] = [0..<i] @ [i]" by simp
        note IH = Cons.IH [OF step(2) _ rec [folded this]]
        have tr: "tr = Did i None # tr1" "r = r1" using Some ctx a None rec Cons.prems(3) by auto
        show ?thesis using IH i unfolding tr by (auto simp: upt_conv_Cons)
      qed
    qed
  qed
qed auto

text \<open>
  C18. A saga that succeeds has run every step once, in order. A saga that fails at a step has run the
  steps before it once, in order and with success, has tried that step unless its action is missing
  or the context had ended, and has then run exactly the compensations of the steps before it, in
  reverse order; the error names the step and lists exactly the compensations that failed.
\<close>

theorem Saga_Execute_spec:
  "let (r, tr, s') = Saga_Execute ctx g s in
   (r = None \<longrightarrow> tr = map (\<lambda>i. Did i None) [0..<length (sg_steps g)]) \<and>
   (\<forall>e. r = Some e \<longrightarrow> aborted_at g ctx (xe_Index e) e tr)"
proof -
  obtain r tr s' where run: "Saga_Execute ctx g s = (r, tr, s')" by (cases "Saga_Execute ctx g s")
  then have "execute_loop ctx g (sg_steps g) 0 [0..<0] s = (r, tr, s')" by (simp add: Saga_Execute_def)
  from execute_loop_spec [OF _ _ this] run show ?thesis by auto
qed

theorem Saga_Execute_spec_witness:
  "let g = Saga_Step ''b'' (Some (\<lambda>n. (Some (Err ''x''), n))) None
             (Saga_Step ''a'' (Some (\<lambda>n. (None, n + 1))) (Some (\<lambda>n. (None, n - 1))) Saga_New);
       (r, tr, s') = Saga_Execute (\<lambda>n. None) g (0 :: int)
   in (\<forall>e. r = Some e \<longrightarrow> aborted_at g (\<lambda>n. None) (xe_Index e) e tr) \<and>
      tr = [Did 0 None, Did 1 (Some (Err ''x'')), Undid 0 None]"
proof -
  let ?g = "Saga_Step ''b'' (Some (\<lambda>n. (Some (Err ''x''), n))) None
             (Saga_Step ''a'' (Some (\<lambda>n. (None, n + 1))) (Some (\<lambda>n. (None, n - 1))) Saga_New)"
  obtain r tr s' where run: "Saga_Execute (\<lambda>n. None) ?g (0 :: int) = (r, tr, s')"
    by (cases "Saga_Execute (\<lambda>n. None) ?g (0 :: int)")
  have "tr = [Did 0 None, Did 1 (Some (Err ''x'')), Undid 0 None]"
    using run by (simp add: Saga_Execute_def Saga_Step_def Saga_Add_def Saga_New_def Saga_abort_def
        Saga_compensate_def Let_def)
  then show ?thesis
    using Saga_Execute_spec [of "\<lambda>n. None" ?g "0 :: int"] run by (simp add: Let_def)
qed

section \<open>Persisted state\<close>

datatype StepStatus = StepPending | StepCompleted | StepFailed | StepCompensated
datatype SagaStatus = StatusRunning | StatusCompleted | StatusCompensating | StatusCompensated

record StepRecord =
  sr_Name :: string
  sr_Index :: nat
  sr_Status :: StepStatus
  sr_Error :: string

record SagaState =
  ss_ID :: string
  ss_Status :: SagaStatus
  ss_Steps :: "StepRecord list"
  ss_UpdatedAt :: time

definition SagaState_Clone :: "SagaState \<Rightarrow> SagaState" where
  "SagaState_Clone s = s\<lparr>ss_Steps := map id (ss_Steps s)\<rparr>"

definition Saga_ErrNotFound :: goerror where "Saga_ErrNotFound = Err ''saga: state not found''"

record SagaMemoryStore =
  sm_states :: "(string, SagaState) gomap"

definition Saga_NewMemoryStore :: SagaMemoryStore where "Saga_NewMemoryStore = \<lparr>sm_states = []\<rparr>"

definition SagaMemoryStore_Save ::
  "goerror option \<Rightarrow> SagaState \<Rightarrow> SagaMemoryStore \<Rightarrow> goerror option \<times> SagaMemoryStore" where
  "SagaMemoryStore_Save ctxErr state m =
     (case ctxErr of Some e \<Rightarrow> (Some e, m)
      | None \<Rightarrow> if ss_ID state = '''' then (Some (Err ''saga: state ID required''), m)
                else (None, m\<lparr>sm_states := m_put (ss_ID state) (SagaState_Clone state) (sm_states m)\<rparr>))"

definition SagaMemoryStore_Load :: "goerror option \<Rightarrow> string \<Rightarrow> SagaMemoryStore \<Rightarrow> goerror + SagaState" where
  "SagaMemoryStore_Load ctxErr key m =
     (case ctxErr of Some e \<Rightarrow> Inl e
      | None \<Rightarrow> (case m_get (sm_states m) key of None \<Rightarrow> Inl Saga_ErrNotFound
                 | Some state \<Rightarrow> Inr (SagaState_Clone state)))"

definition SagaMemoryStore_Delete ::
  "goerror option \<Rightarrow> string \<Rightarrow> SagaMemoryStore \<Rightarrow> goerror option \<times> SagaMemoryStore" where
  "SagaMemoryStore_Delete ctxErr key m =
     (case ctxErr of Some e \<Rightarrow> (Some e, m)
      | None \<Rightarrow> (None, m\<lparr>sm_states := m_del key (sm_states m)\<rparr>))"

section \<open>ExecutePersist\<close>

datatype saga_error = SPersist goerror | SExec ExecutionError

type_synonym 'st saver = "goerror option \<Rightarrow> SagaState \<Rightarrow> 'st \<Rightarrow> goerror option \<times> 'st"

definition Saga_persist :: "'st saver \<Rightarrow> ('s \<Rightarrow> goerror option) \<Rightarrow> ('s \<Rightarrow> time) \<Rightarrow> SagaState \<Rightarrow> 's \<Rightarrow> 'st \<Rightarrow>
    goerror option \<times> SagaState \<times> 'st" where
  "Saga_persist save ctx clock state s st =
     (let state = state\<lparr>ss_UpdatedAt := clock s\<rparr>; (err, st') = save (ctx s) (SagaState_Clone state) st
      in (err, state, st'))"

definition set_step :: "nat \<Rightarrow> (StepRecord \<Rightarrow> StepRecord) \<Rightarrow> SagaState \<Rightarrow> SagaState" where
  "set_step i f state = state\<lparr>ss_Steps := (ss_Steps state)[i := f (ss_Steps state ! i)]\<rparr>"

definition failed_messages :: "CompensationError list \<Rightarrow> (nat, string) gomap" where
  "failed_messages comps = fold (\<lambda>c m. m_put (ce_Index c) (error_text (ce_Err c)) m) comps []"

definition mark_compensated :: "'s Saga \<Rightarrow> (nat, string) gomap \<Rightarrow> nat \<Rightarrow> StepRecord \<Rightarrow> StepRecord" where
  "mark_compensated g failed cidx r =
     (if st_Compensate (sg_steps g ! cidx) = None then r
      else case m_get failed cidx of
        Some msg \<Rightarrow> r\<lparr>sr_Error := msg\<rparr> | None \<Rightarrow> r\<lparr>sr_Status := StepCompensated\<rparr>)"

definition Saga_persistFailure :: "'st saver \<Rightarrow> ('s \<Rightarrow> goerror option) \<Rightarrow> ('s \<Rightarrow> time) \<Rightarrow> 's Saga \<Rightarrow> SagaState \<Rightarrow>
    nat list \<Rightarrow> nat \<Rightarrow> 's Step \<Rightarrow> goerror \<Rightarrow> 's \<Rightarrow> 'st \<Rightarrow>
    saga_error option \<times> saga_event list \<times> 's \<times> 'st" where
  "Saga_persistFailure save ctx clock g state completed idx step cause s st =
     (let state = set_step idx (\<lambda>r. r\<lparr>sr_Status := StepFailed, sr_Error := error_text cause\<rparr>) state;
          state = state\<lparr>ss_Status := StatusCompensating\<rparr>;
          (ignored, state, st) = Saga_persist save ctx clock state s st;
          (comps, tr, s) = Saga_compensate g completed s;
          failed = failed_messages comps;
          state = fold (\<lambda>cidx. set_step cidx (mark_compensated g failed cidx)) (rev completed) state;
          state = state\<lparr>ss_Status := StatusCompensated\<rparr>;
          (ignored, state, st) = Saga_persist save ctx clock state s st
      in (Some (SExec \<lparr>xe_Step = stepName step idx, xe_Index = idx, xe_Err = cause, xe_Compensations = comps\<rparr>),
          tr, s, st))"

fun persist_loop :: "'st saver \<Rightarrow> ('s \<Rightarrow> goerror option) \<Rightarrow> ('s \<Rightarrow> time) \<Rightarrow> 's Saga \<Rightarrow> 's Step list \<Rightarrow> nat \<Rightarrow>
    nat list \<Rightarrow> SagaState \<Rightarrow> 's \<Rightarrow> 'st \<Rightarrow> saga_error option \<times> saga_event list \<times> 's \<times> 'st" where
  "persist_loop save ctx clock g [] i completed state s st =
     (let state = state\<lparr>ss_Status := StatusCompleted\<rparr>;
          (err, state, st') = Saga_persist save ctx clock state s st
      in (map_option SPersist err, [], s, st'))"
| "persist_loop save ctx clock g (step # rest) i completed state s st =
     (case st_Do step of
        None \<Rightarrow> Saga_persistFailure save ctx clock g state completed i step
                  (Err (''saga: step '' @ stepName step i @ '' has nil action'')) s st
      | Some act \<Rightarrow>
          (case ctx s of Some cerr \<Rightarrow> Saga_persistFailure save ctx clock g state completed i step cerr s st
           | None \<Rightarrow>
               (case act s of
                  (Some err, s1) \<Rightarrow>
                    (let (r, tr, s2, st2) = Saga_persistFailure save ctx clock g state completed i step err s1 st
                     in (r, Did i (Some err) # tr, s2, st2))
                | (None, s1) \<Rightarrow>
                    (let state = set_step i (\<lambda>r. r\<lparr>sr_Status := StepCompleted\<rparr>) state;
                         (err, state, st1) = Saga_persist save ctx clock state s1 st
                     in case err of
                          Some e \<Rightarrow> (Some (SPersist e), [Did i None], s1, st1)
                        | None \<Rightarrow>
                            (let (r, tr, s2, st2) =
                               persist_loop save ctx clock g rest (i + 1) (completed @ [i]) state s1 st1
                             in (r, Did i None # tr, s2, st2))))))"

definition initial_state :: "'s Saga \<Rightarrow> string \<Rightarrow> SagaState" where
  "initial_state g key =
     \<lparr>ss_ID = key, ss_Status = StatusRunning,
      ss_Steps = map (\<lambda>i. \<lparr>sr_Name = stepName (sg_steps g ! i) i, sr_Index = i, sr_Status = StepPending,
                          sr_Error = ''''\<rparr>) [0..<length (sg_steps g)],
      ss_UpdatedAt = 0\<rparr>"

definition Saga_ExecutePersist :: "'st saver option \<Rightarrow> ('s \<Rightarrow> goerror option) \<Rightarrow> ('s \<Rightarrow> time) \<Rightarrow> 's Saga \<Rightarrow>
    string \<Rightarrow> 's \<Rightarrow> 'st \<Rightarrow> saga_error option \<times> saga_event list \<times> 's \<times> 'st" where
  "Saga_ExecutePersist store ctx clock g key s st =
     (case store of
        None \<Rightarrow> (let (r, tr, s') = Saga_Execute ctx g s in (map_option SExec r, tr, s', st))
      | Some save \<Rightarrow>
          (let (err, state, st1) = Saga_persist save ctx clock (initial_state g key) s st
           in case err of Some e \<Rightarrow> (Some (SPersist e), [], s, st1)
              | None \<Rightarrow> persist_loop save ctx clock g (sg_steps g) 0 [] state s st1))"

section \<open>What ExecutePersist records\<close>

locale saga_store =
  fixes save :: "'st saver"
    and load :: "'st \<Rightarrow> string \<Rightarrow> SagaState option"
  assumes save_law: "ss_ID state \<noteq> '''' \<Longrightarrow> save None state st = (err, st') \<Longrightarrow>
      err = None \<and> load st' = (load st)(ss_ID state \<mapsto> state)"
    and save_ctx: "save (Some e) state st = (Some e, st)"
begin

lemma persist_saves:
  assumes "ss_ID state \<noteq> ''''" "\<forall>s. ctx s = None" "Saga_persist save ctx clock state s st = (err, state', st')"
  shows "err = None \<and> state' = state\<lparr>ss_UpdatedAt := clock s\<rparr> \<and> load st' = (load st)(ss_ID state \<mapsto> state')"
  using assms save_law [of "state\<lparr>ss_UpdatedAt := clock s\<rparr>" st]
  by (auto simp: Saga_persist_def Let_def SagaState_Clone_def split: prod.splits)

end

lemma SagaState_Clone_id [simp]: "SagaState_Clone s = s"
  by (simp add: SagaState_Clone_def)

interpretation saga_mem: saga_store SagaMemoryStore_Save "\<lambda>st. m_get (sm_states st)"
  by unfold_locales (auto simp: SagaMemoryStore_Save_def)

text \<open>The record that the code leaves of each step, in terms of the result \<open>r\<close> of the orchestration.\<close>

definition expected_record :: "'s Saga \<Rightarrow> ExecutionError option \<Rightarrow> nat \<Rightarrow> StepRecord" where
  "expected_record g r j =
     (let base = \<lparr>sr_Name = stepName (sg_steps g ! j) j, sr_Index = j, sr_Status = StepCompleted, sr_Error = ''''\<rparr> in
      case r of None \<Rightarrow> base
      | Some e \<Rightarrow>
          if j < xe_Index e then mark_compensated g (failed_messages (xe_Compensations e)) j base
          else if j = xe_Index e then base\<lparr>sr_Status := StepFailed, sr_Error := error_text (xe_Err e)\<rparr>
          else base\<lparr>sr_Status := StepPending\<rparr>)"

definition records :: "'s Saga \<Rightarrow> ExecutionError option \<Rightarrow> SagaState \<Rightarrow> bool" where
  "records g r state \<longleftrightarrow>
     ss_Status state = (if r = None then StatusCompleted else StatusCompensated) \<and>
     ss_Steps state = map (expected_record g r) [0..<length (sg_steps g)]"

lemma fold_set_step:
  assumes "distinct xs" "\<forall>i \<in> set xs. i < length (ss_Steps state)"
  shows "fold (\<lambda>i. set_step i (f i)) xs state = state\<lparr>ss_Steps :=
     map (\<lambda>i. if i \<in> set xs then f i (ss_Steps state ! i) else ss_Steps state ! i) [0..<length (ss_Steps state)]\<rparr>"
  using assms
proof (induction xs arbitrary: state)
  case Nil
  then show ?case by (simp add: map_nth)
next
  case (Cons x xs)
  let ?st = "set_step x (f x) state"
  have "fold (\<lambda>i. set_step i (f i)) xs ?st = ?st\<lparr>ss_Steps :=
     map (\<lambda>i. if i \<in> set xs then f i (ss_Steps ?st ! i) else ss_Steps ?st ! i) [0..<length (ss_Steps ?st)]\<rparr>"
    using Cons.prems by (intro Cons.IH) (auto simp: set_step_def)
  also have "\<dots> = state\<lparr>ss_Steps := map (\<lambda>i. if i \<in> set (x # xs) then f i (ss_Steps state ! i)
      else ss_Steps state ! i) [0..<length (ss_Steps state)]\<rparr>"
    using Cons.prems by (auto simp: set_step_def nth_list_update intro!: map_cong)
  finally show ?case by simp
qed

definition progress_steps :: "'s Saga \<Rightarrow> nat \<Rightarrow> StepRecord list" where
  "progress_steps g i = map (\<lambda>j. \<lparr>sr_Name = stepName (sg_steps g ! j) j, sr_Index = j,
     sr_Status = (if j < i then StepCompleted else StepPending), sr_Error = ''''\<rparr>) [0..<length (sg_steps g)]"

lemma failure_steps:
  assumes "ss_Steps state = progress_steps g i" "i < length (sg_steps g)"
  shows "ss_Steps (fold (\<lambda>c. set_step c (mark_compensated g failed c)) (rev [0..<i])
      ((set_step i (\<lambda>r. r\<lparr>sr_Status := StepFailed, sr_Error := error_text cause\<rparr>) state)\<lparr>ss_Status := st, ss_UpdatedAt := t\<rparr>)) =
    map (\<lambda>j. if j < i then mark_compensated g failed j (progress_steps g i ! j)
             else if j = i then (progress_steps g i ! j)\<lparr>sr_Status := StepFailed, sr_Error := error_text cause\<rparr>
             else progress_steps g i ! j) [0..<length (sg_steps g)]"
  using assms
  by (subst fold_set_step) (auto simp: set_step_def progress_steps_def nth_list_update)

lemma fold_set_step_fields:
  "ss_ID (fold (\<lambda>c. set_step c (f c)) xs state) = ss_ID state"
  by (induction xs arbitrary: state) (simp_all add: set_step_def)

context saga_store
begin

lemma persistFailure_records:
  assumes "key \<noteq> ''''" "\<forall>s. ctx s = None" "ss_ID state = key" "ss_Steps state = progress_steps g i"
    and "i < length (sg_steps g)" "step = sg_steps g ! i"
    and "Saga_persistFailure save ctx clock g state [0..<i] i step cause s st = (r, tr, s', st')"
  shows "\<exists>e fin. Saga_abort g [0..<i] i step cause s = (Some e, tr, s') \<and> r = Some (SExec e) \<and>
     load st' key = Some fin \<and> records g (Some e) fin"
proof -
  obtain comps tr0 s0 where c: "Saga_compensate g [0..<i] s = (comps, tr0, s0)"
    by (cases "Saga_compensate g [0..<i] s")
  define e where "e = \<lparr>xe_Step = stepName step i, xe_Index = i, xe_Err = cause, xe_Compensations = comps\<rparr>"
  define state1 where "state1 = (set_step i (\<lambda>r. r\<lparr>sr_Status := StepFailed, sr_Error := error_text cause\<rparr>) state)
      \<lparr>ss_Status := StatusCompensating\<rparr>"
  obtain err1 state2 st1 where p1: "Saga_persist save ctx clock state1 s st = (err1, state2, st1)"
    by (cases "Saga_persist save ctx clock state1 s st")
  have id1: "ss_ID state1 \<noteq> ''''" using assms(1,3) by (simp add: state1_def set_step_def)
  from persist_saves [OF id1 assms(2) p1] have s2: "state2 = state1\<lparr>ss_UpdatedAt := clock s\<rparr>" by simp
  define state3 where "state3 = (fold (\<lambda>c. set_step c (mark_compensated g (failed_messages comps) c)) (rev [0..<i]) state2)
      \<lparr>ss_Status := StatusCompensated\<rparr>"
  obtain err2 state4 st2 where p2: "Saga_persist save ctx clock state3 s0 st1 = (err2, state4, st2)"
    by (cases "Saga_persist save ctx clock state3 s0 st1")
  have id3: "ss_ID state3 = key"
    using assms(3) by (simp add: state3_def fold_set_step_fields s2 state1_def set_step_def)
  from persist_saves [of state3 ctx, OF _ assms(2) p2] id3 assms(1)
  have fin: "state4 = state3\<lparr>ss_UpdatedAt := clock s0\<rparr>" "load st2 key = Some state4" by auto
  have "ss_Steps state3 = map (expected_record g (Some e)) [0..<length (sg_steps g)]"
    using failure_steps [OF assms(4,5), of "failed_messages comps" "clock s" StatusCompensating cause] assms(5)
    by (auto simp: state3_def s2 state1_def expected_record_def e_def Let_def progress_steps_def)
  then have "records g (Some e) state4"
    by (simp add: records_def fin(1) state3_def)
  moreover have "(r, tr, s', st') = (Some (SExec e), tr0, s0, st2)"
    using assms(7) c p1 p2 unfolding Saga_persistFailure_def Let_def
    by (simp add: e_def flip: state1_def state3_def)
  moreover have "Saga_abort g [0..<i] i step cause s = (Some e, tr0, s0)"
    by (simp add: Saga_abort_def c e_def)
  ultimately show ?thesis using fin(2) by auto
qed

lemma persist_loop_records:
  assumes "key \<noteq> ''''" "\<forall>s. ctx s = None" "\<forall>step \<in> set (sg_steps g). st_Do step \<noteq> None"
    and "rest = drop i (sg_steps g)" "i \<le> length (sg_steps g)"
    and "ss_ID state = key" "ss_Steps state = progress_steps g i"
    and "persist_loop save ctx clock g rest i [0..<i] state s st = (r, tr, s', st')"
  shows "\<exists>rE fin. execute_loop ctx g rest i [0..<i] s = (rE, tr, s') \<and> r = map_option SExec rE \<and>
     load st' key = Some fin \<and> records g rE fin"
  using assms(4-8)
proof (induction rest arbitrary: i state s st r tr s' st')
  case Nil
  then have i: "i = length (sg_steps g)" by simp
  let ?state = "state\<lparr>ss_Status := StatusCompleted\<rparr>"
  obtain err st2 state2 where p: "Saga_persist save ctx clock ?state s st = (err, state2, st2)"
    by (cases "Saga_persist save ctx clock ?state s st")
  from persist_saves [OF _ assms(2) p] assms(1) Nil.prems(3)
  have "err = None" "state2 = ?state\<lparr>ss_UpdatedAt := clock s\<rparr>" "load st2 key = Some state2" by auto
  moreover have "records g None state2"
    using Nil.prems(4) i calculation(2) by (simp add: records_def expected_record_def progress_steps_def)
  ultimately show ?case using Nil.prems(5) p by auto
next
  case (Cons step rest)
  have i: "i < length (sg_steps g)" using Cons.prems(1) by (metis drop_all linorder_not_less list.distinct(1))
  have "step # rest = sg_steps g ! i # drop (Suc i) (sg_steps g)"
    using Cons.prems(1) Cons_nth_drop_Suc [OF i] by (rule trans [OF _ sym])
  then have step: "step = sg_steps g ! i" "rest = drop (i + 1) (sg_steps g)" by simp_all
  have "step \<in> set (sg_steps g)" using i step(1) by simp
  then obtain act where act: "st_Do step = Some act" using assms(3) by auto
  have ctx: "ctx s = None" using assms(2) by simp
  obtain a s1 where a: "act s = (a, s1)" by (cases "act s")
  show ?case
  proof (cases a)
    case (Some err)
    obtain r0 tr0 s2 st2 where f: "Saga_persistFailure save ctx clock g state [0..<i] i step err s1 st = (r0, tr0, s2, st2)"
      by (cases "Saga_persistFailure save ctx clock g state [0..<i] i step err s1 st")
    from persistFailure_records [OF assms(1,2) Cons.prems(3,4) i step(1) f] obtain e fin where
      "Saga_abort g [0..<i] i step err s1 = (Some e, tr0, s2)" "r0 = Some (SExec e)"
      "load st2 key = Some fin" "records g (Some e) fin" by blast
    moreover from this(1) have "execute_loop ctx g (step # rest) i [0..<i] s = (Some e, Did i (Some err) # tr0, s2)"
      using act ctx a Some by simp
    moreover have "(r, tr, s', st') = (r0, Did i (Some err) # tr0, s2, st2)"
      using Cons.prems(5) act ctx a Some f by simp
    ultimately show ?thesis by auto
  next
    case None
    let ?state = "set_step i (\<lambda>r. r\<lparr>sr_Status := StepCompleted\<rparr>) state"
    obtain err state2 st2 where p: "Saga_persist save ctx clock ?state s1 st = (err, state2, st2)"
      by (cases "Saga_persist save ctx clock ?state s1 st")
    from persist_saves [OF _ assms(2) p] assms(1) Cons.prems(3)
    have p2: "err = None" "state2 = ?state\<lparr>ss_UpdatedAt := clock s1\<rparr>" by (auto simp: set_step_def)
    have "ss_Steps state2 = (progress_steps g i)[i := (progress_steps g i ! i)\<lparr>sr_Status := StepCompleted\<rparr>]"
      using Cons.prems(4) by (simp add: p2(2) set_step_def)
    also have "\<dots> = progress_steps g (i + 1)"
      using i by (intro nth_equalityI) (auto simp: progress_steps_def nth_list_update)
    finally have steps: "ss_Steps state2 = progress_steps g (i + 1)" .
    have id2: "ss_ID state2 = key" using Cons.prems(3) by (simp add: p2(2) set_step_def)
    have i1: "[0..<i + 1] = [0..<i] @ [i]" "i + 1 \<le> length (sg_steps g)" using i by simp_all
    obtain r1 tr1 s2 st3 where rec:
      "persist_loop save ctx clock g rest (i + 1) [0..<i + 1] state2 s1 st2 = (r1, tr1, s2, st3)"
      by (cases "persist_loop save ctx clock g rest (i + 1) [0..<i + 1] state2 s1 st2")
    from Cons.IH [OF step(2) i1(2) id2 steps rec] obtain rE fin where
      "execute_loop ctx g rest (i + 1) [0..<i + 1] s1 = (rE, tr1, s2)" "r1 = map_option SExec rE"
      "load st3 key = Some fin" "records g rE fin" by blast
    moreover from this(1) have "execute_loop ctx g (step # rest) i [0..<i] s = (rE, Did i None # tr1, s2)"
      using act ctx a None i1(1) by simp
    moreover have "(r, tr, s', st') = (r1, Did i None # tr1, s2, st3)"
      using Cons.prems(5) act ctx a None p p2(1) rec i1(1) by simp
    ultimately show ?thesis by blast
  qed
qed

lemma ExecutePersist_records:
  assumes "key \<noteq> ''''" "\<forall>s. ctx s = None" "\<forall>step \<in> set (sg_steps g). st_Do step \<noteq> None"
    and "Saga_ExecutePersist (Some save) ctx clock g key s st = (r, tr, s', st')"
  shows "\<exists>rE fin. Saga_Execute ctx g s = (rE, tr, s') \<and> r = map_option SExec rE \<and>
     load st' key = Some fin \<and> records g rE fin"
proof -
  obtain err state st1 where p: "Saga_persist save ctx clock (initial_state g key) s st = (err, state, st1)"
    by (cases "Saga_persist save ctx clock (initial_state g key) s st")
  from persist_saves [OF _ assms(2) p] assms(1)
  have "err = None" "ss_ID state = key" "ss_Steps state = progress_steps g 0"
    by (simp_all add: initial_state_def progress_steps_def)
  moreover have "persist_loop save ctx clock g (sg_steps g) 0 [0..<0] state s st1 = (r, tr, s', st')"
    using assms(4) p calculation(1) by (simp add: Saga_ExecutePersist_def)
  ultimately show ?thesis
    using persist_loop_records [OF assms(1-3), of "sg_steps g" 0 state clock s st1 r tr s' st']
    by (simp add: Saga_Execute_def)
qed

end

text \<open>
  What the trace of a run tells about the step \<open>j\<close>, independently of how the record is made: pending until its
  action ran, then completed or failed with the error of the action; compensated once its compensation
  succeeded, and still completed, with the error of the compensation, if that failed.
\<close>

fun tell :: "nat \<Rightarrow> saga_event \<Rightarrow> StepStatus \<times> string \<Rightarrow> StepStatus \<times> string" where
  "tell j (Did i r) p =
     (if i = j then (case r of None \<Rightarrow> (StepCompleted, '''') | Some e \<Rightarrow> (StepFailed, error_text e)) else p)"
| "tell j (Undid i r) p =
     (if i = j then (case r of None \<Rightarrow> (StepCompensated, '''') | Some e \<Rightarrow> (StepCompleted, error_text e)) else p)"

definition told :: "nat \<Rightarrow> saga_event list \<Rightarrow> StepStatus \<times> string" where
  "told j tr = fold (tell j) tr (StepPending, '''')"

definition truthful :: "'s Saga \<Rightarrow> ExecutionError option \<Rightarrow> saga_event list \<Rightarrow> SagaState \<Rightarrow> bool" where
  "truthful g r tr state \<longleftrightarrow>
     ss_Status state = (if r = None then StatusCompleted else StatusCompensated) \<and>
     ss_Steps state = map (\<lambda>j. \<lparr>sr_Name = stepName (sg_steps g ! j) j, sr_Index = j, sr_Status = fst (told j tr),
       sr_Error = snd (told j tr)\<rparr>) [0..<length (sg_steps g)]"

lemma tell_did: "fold (tell j) (map (\<lambda>i. Did i None) xs) p = (if j \<in> set xs then (StepCompleted, '''') else p)"
  by (induction xs arbitrary: p) auto

lemma tell_undid: "fold (tell j) (map (\<lambda>i. Undid i (res i)) xs) p = (if j \<in> set xs then tell j (Undid j (res j)) p else p)"
  by (induction xs arbitrary: p) (auto split: option.split)

lemma failed_messages_get:
  "m_get (fold (\<lambda>c m. m_put (ce_Index c) (error_text (ce_Err c)) m)
      (as_compensation_errors steps (List.map_filter (\<lambda>j. case res j of None \<Rightarrow> None | Some e \<Rightarrow> Some (j, e)) xs)) m) j =
    (if j \<in> set xs \<and> res j \<noteq> None then map_option error_text (res j) else m_get m j)"
  by (induction xs arbitrary: m)
     (auto simp: as_compensation_errors_def List.map_filter_simps split: option.splits)

lemma expected_told:
  assumes "aborted_at g ctx (xe_Index e) e tr" "\<forall>s. ctx s = None" "\<forall>step \<in> set (sg_steps g). st_Do step \<noteq> None"
  shows "expected_record g (Some e) j =
    \<lparr>sr_Name = stepName (sg_steps g ! j) j, sr_Index = j, sr_Status = fst (told j tr), sr_Error = snd (told j tr)\<rparr>"
proof -
  let ?k = "xe_Index e"
  have "st_Do (sg_steps g ! ?k) \<noteq> None" using assms(1,3) by (simp add: aborted_at_def)
  then obtain res where
    tr: "tr = map (\<lambda>i. Did i None) [0..<?k] @ [Did ?k (Some (xe_Err e))] @ rollback (sg_steps g) ?k res"
    and comps: "xe_Compensations e = as_compensation_errors (sg_steps g) (rollback_failures (sg_steps g) ?k res)"
    using assms(1,2) by (auto simp: aborted_at_def)
  let ?undone = "j < ?k \<and> st_Compensate (sg_steps g ! j) \<noteq> None"
  have msg: "m_get (failed_messages (xe_Compensations e)) j =
      (if ?undone \<and> res j \<noteq> None then map_option error_text (res j) else None)"
    unfolding comps failed_messages_def rollback_failures_def failed_messages_get by auto
  have tells: "told j tr = (if ?undone then tell j (Undid j (res j)) (StepCompleted, '''')
      else if j < ?k then (StepCompleted, '''') else if j = ?k then (StepFailed, error_text (xe_Err e)) else (StepPending, ''''))"
    unfolding told_def tr rollback_def fold_append comp_def tell_did tell_undid by auto
  show ?thesis
    by (cases "res j") (auto simp: expected_record_def mark_compensated_def msg tells Let_def)
qed

text \<open>
  C19. With a context that stays alive, ExecutePersist behaves exactly like Execute (same result, same
  actions and compensations in the same order), and the store then holds a truthful record, as the trace of
  what was run tells it: every step completed on success; on failure the failed step with its error, the
  steps whose compensation succeeded compensated, those without a compensation completed, those whose compensation
  failed completed with the error of the compensation, and the later steps pending.
\<close>

theorem Saga_ExecutePersist_records:
  assumes "key \<noteq> ''''" and "\<forall>s. ctx s = None" and "\<forall>step \<in> set (sg_steps g). st_Do step \<noteq> None"
    and "Saga_ExecutePersist (Some SagaMemoryStore_Save) ctx clock g key s st = (r, tr, s', st')"
  shows "\<exists>rE fin. Saga_Execute ctx g s = (rE, tr, s') \<and> r = map_option SExec rE \<and>
     SagaMemoryStore_Load None key st' = Inr fin \<and> truthful g rE tr fin"
proof -
  obtain rE fin where e: "Saga_Execute ctx g s = (rE, tr, s')" "r = map_option SExec rE"
      "m_get (sm_states st') key = Some fin" "records g rE fin"
    using saga_mem.ExecutePersist_records [OF assms] by blast
  have "execute_loop ctx g (sg_steps g) 0 [0..<0] s = (rE, tr, s')" using e(1) by (simp add: Saga_Execute_def)
  note spec = execute_loop_spec [OF _ _ this, simplified]
  have "truthful g rE tr fin"
  proof (cases rE)
    case None
    then show ?thesis using e(4) spec
      by (simp add: truthful_def records_def expected_record_def told_def tell_did)
  next
    case (Some x)
    then have "aborted_at g ctx (xe_Index x) x tr" using spec by simp
    then show ?thesis using e(4) Some expected_told [OF _ assms(2,3)] by (simp add: truthful_def records_def)
  qed
  then show ?thesis using e by (simp add: SagaMemoryStore_Load_def)
qed

text \<open>
  A saga whose last step fails, whose first step has no compensation, whose second is compensated and the
  compensation of whose third fails.
\<close>

definition witness_saga :: "int Saga" where
  "witness_saga =
     Saga_Step ''d'' (Some (\<lambda>n. (Some (Err ''boom''), n))) None
       (Saga_Step ''c'' (Some (\<lambda>n. (None, n + 1))) (Some (\<lambda>n. (Some (Err ''stuck''), n)))
         (Saga_Step ''b'' (Some (\<lambda>n. (None, n + 1))) (Some (\<lambda>n. (None, n - 1)))
           (Saga_Step ''a'' (Some (\<lambda>n. (None, n + 1))) None Saga_New)))"

theorem Saga_ExecutePersist_records_witness:
  "let (r, tr, s', st') = Saga_ExecutePersist (Some SagaMemoryStore_Save) (\<lambda>n. None) (\<lambda>n. 5) witness_saga ''id'' 0 Saga_NewMemoryStore
   in r \<noteq> None \<and> (\<exists>fin. SagaMemoryStore_Load None ''id'' st' = Inr fin \<and>
        map (\<lambda>r. (sr_Status r, sr_Error r)) (ss_Steps fin) =
          [(StepCompleted, ''''), (StepCompensated, ''''), (StepCompleted, ''stuck''), (StepFailed, ''boom'')])"
proof -
  let ?g = witness_saga
  obtain r tr s' st' where run:
    "Saga_ExecutePersist (Some SagaMemoryStore_Save) (\<lambda>n. None) (\<lambda>n. 5) ?g ''id'' 0 Saga_NewMemoryStore = (r, tr, s', st')"
    by (cases "Saga_ExecutePersist (Some SagaMemoryStore_Save) (\<lambda>n. None) (\<lambda>n. 5) ?g ''id'' 0 Saga_NewMemoryStore")
  have "\<forall>step \<in> set (sg_steps ?g). st_Do step \<noteq> None" by (simp add: witness_saga_def Saga_Step_def Saga_Add_def Saga_New_def)
  from Saga_ExecutePersist_records [OF _ _ this run] obtain rE fin where
    e: "Saga_Execute (\<lambda>n. None) ?g 0 = (rE, tr, s')" "r = map_option SExec rE"
    "SagaMemoryStore_Load None ''id'' st' = Inr fin" "truthful ?g rE tr fin" by auto
  have tr: "tr = [Did 0 None, Did 1 None, Did 2 None, Did 3 (Some (Err ''boom'')), Undid 2 (Some (Err ''stuck'')), Undid 1 None]"
    and "rE \<noteq> None" and len: "length (sg_steps ?g) = 4"
    using e(1) by (auto simp: witness_saga_def Saga_Execute_def Saga_Step_def Saga_Add_def Saga_New_def Saga_abort_def
        Saga_compensate_def Let_def)
  moreover have "[0..<4] = [0, 1, 2, 3 :: nat]" by (simp add: upt_rec)
  ultimately show ?thesis using e(2,3,4) run by (simp add: truthful_def told_def)
qed

section \<open>When the context ends\<close>

lemmas saga_eval = Saga_ExecutePersist_def Saga_persist_def Saga_persistFailure_def Saga_compensate_def
  Saga_Execute_def Saga_abort_def initial_state_def SagaMemoryStore_Save_def SagaMemoryStore_Load_def
  Saga_NewMemoryStore_def Saga_Step_def Saga_Add_def Saga_New_def set_step_def stepName_def

text \<open>
  The saves use the caller's context. If it ends while a step runs that then succeeds, the save after
  the step fails and ExecutePersist returns at once, without compensating the completed step; Execute
  compensates it. The world counts the actions that have run.
\<close>

lemma Saga_save_failure_skips_compensation:
  "let g = Saga_Step ''b'' (Some (\<lambda>n :: int. (None, n + 1))) None
             (Saga_Step ''a'' (Some (\<lambda>n. (None, n + 1))) (Some (\<lambda>n. (None, n + 1))) Saga_New);
       ctx = (\<lambda>n. if n < 1 then None else Some (Err ''context canceled''))
   in fst (snd (Saga_ExecutePersist (Some SagaMemoryStore_Save) ctx (\<lambda>n. 5) g ''id'' 0 Saga_NewMemoryStore)) =
        [Did 0 None] \<and>
      fst (snd (Saga_Execute ctx g 0)) = [Did 0 None, Undid 0 None]"
  by (simp add: saga_eval Let_def)

text \<open>
  If it ends during a step that fails for that reason, the completed steps are compensated, but
  neither the failure nor the compensation is recorded: the store still says the saga is running,
  its first step completed and its second pending.
\<close>

lemma Saga_cancelled_not_recorded:
  "let g = Saga_Step ''b'' (Some (\<lambda>n :: int. (Some (Err ''context canceled''), n + 1))) None
             (Saga_Step ''a'' (Some (\<lambda>n. (None, n + 1))) (Some (\<lambda>n. (None, n + 1))) Saga_New);
       ctx = (\<lambda>n. if n < 2 then None else Some (Err ''context canceled''));
       (r, tr, s', st') = Saga_ExecutePersist (Some SagaMemoryStore_Save) ctx (\<lambda>n. 5) g ''id'' 0 Saga_NewMemoryStore
   in tr = [Did 0 None, Did 1 (Some (Err ''context canceled'')), Undid 0 None] \<and>
      map_sum id (\<lambda>st. (ss_Status st, map sr_Status (ss_Steps st))) (SagaMemoryStore_Load None ''id'' st') =
        Inr (StatusRunning, [StepCompleted, StepPending])"
  by (simp add: saga_eval Let_def)

end
