(* ===== verification/Outbox.thy ===== *)
theory Outbox
  imports Prelude "HOL-Library.Word" "HOL-Library.Product_Lexorder"
begin

text \<open>
  The transactional outbox (\<^verbatim>\<open>core/outbox\<close>): messages stored as records, the in-memory store that
  leases them to relays (\<^verbatim>\<open>outbox.go\<close>, \<^verbatim>\<open>memory.go\<close>), and the relay that publishes what it claimed,
  reschedules failures with a doubling backoff and gives up after a number of attempts
  (\<^verbatim>\<open>relay.go\<close>). Every store method holds the mutex throughout, so each is one function; several
  relays working on one store are the step relation \<open>outbox_reachable\<close>.
\<close>

section \<open>Records\<close>

datatype Status = StatusPending | StatusDelivered | StatusDead

record Message =
  Topic :: string
  Key :: string
  Body :: "8 word list"
  Headers :: "(string, string) gomap"

record Record =
  r_ID :: string
  r_Message :: Message
  r_Status :: Status
  r_Attempts :: int
  r_CreatedAt :: time
  r_AvailableAt :: time
  r_DeliveredAt :: time
  r_LastError :: string

definition Outbox_ErrClosed :: goerror where
  "Outbox_ErrClosed = Err ''outbox: store closed''"

definition ErrEmptyTopic :: goerror where
  "ErrEmptyTopic = Err ''outbox: message topic is empty''"

definition validateMessage :: "Message \<Rightarrow> goerror option" where
  "validateMessage msg = (if Topic msg = '''' then Some ErrEmptyTopic else None)"

definition cloneMessage :: "Message \<Rightarrow> Message" where
  "cloneMessage msg =
     (if 0 < length (Headers msg)
      then msg\<lparr>Headers := fold (\<lambda>(k, v) headers. m_put k v headers) (Headers msg) []\<rparr> else msg)"

definition copyRecord :: "Record \<Rightarrow> Record" where
  "copyRecord rec = rec\<lparr>r_Message := cloneMessage (r_Message rec)\<rparr>"

section \<open>The in-memory store\<close>

record OutboxMemoryStore =
  om_records :: "(string, Record) gomap"
  om_leases :: "(string, time) gomap"
  om_closed :: bool

definition Outbox_NewMemoryStore :: OutboxMemoryStore where
  "Outbox_NewMemoryStore = \<lparr>om_records = [], om_leases = [], om_closed = False\<rparr>"

text \<open>\<open>newID\<close> is what the call of \<^verbatim>\<open>s.newID\<close> (random bytes in hexadecimal) returned.\<close>

definition OutboxMemoryStore_Enqueue ::
  "Message \<Rightarrow> goerror + string \<Rightarrow> time \<Rightarrow> OutboxMemoryStore \<Rightarrow> (goerror + string) \<times> OutboxMemoryStore" where
  "OutboxMemoryStore_Enqueue msg newID now st =
     (case validateMessage msg of
        Some err \<Rightarrow> (Inl err, st)
      | None \<Rightarrow>
          if om_closed st then (Inl Outbox_ErrClosed, st)
          else case newID of
              Inl err \<Rightarrow> (Inl err, st)
            | Inr id' \<Rightarrow>
                (Inr id', st\<lparr>om_records := m_put id'
                   \<lparr>r_ID = id', r_Message = cloneMessage msg, r_Status = StatusPending, r_Attempts = 0,
                    r_CreatedAt = now, r_AvailableAt = now, r_DeliveredAt = 0, r_LastError = ''''\<rparr>
                   (om_records st)\<rparr>))"

text \<open>The three \<^verbatim>\<open>continue\<close> tests of the scan in \<^verbatim>\<open>Fetch\<close>.\<close>

definition due :: "OutboxMemoryStore \<Rightarrow> time \<Rightarrow> string \<Rightarrow> bool" where
  "due st now id' =
     (case m_get (om_records st) id' of
        None \<Rightarrow> False
      | Some rec \<Rightarrow> r_Status rec = StatusPending \<and> \<not> r_AvailableAt rec > now \<and>
          (case m_get (om_leases st) id' of None \<Rightarrow> True | Some lease \<Rightarrow> \<not> lease > now))"

text \<open>The comparison of \<^verbatim>\<open>sort.Slice\<close>: available first, then created first.\<close>

definition fetch_key :: "OutboxMemoryStore \<Rightarrow> string \<Rightarrow> time \<times> time" where
  "fetch_key st id' =
     (case m_get (om_records st) id' of None \<Rightarrow> (0, 0) | Some rec \<Rightarrow> (r_AvailableAt rec, r_CreatedAt rec))"

text \<open>The loop that leases the chosen identifiers; all of them are keys of the records.\<close>

fun claim :: "time \<Rightarrow> string list \<Rightarrow> OutboxMemoryStore \<Rightarrow> Record list \<times> OutboxMemoryStore" where
  "claim until [] st = ([], st)"
| "claim until (id' # ids) st =
     (case m_get (om_records st) id' of
        None \<Rightarrow> claim until ids st
      | Some rec \<Rightarrow>
          let rec' = rec\<lparr>r_Attempts := r_Attempts rec + 1\<rparr>;
              st' = st\<lparr>om_records := m_put id' rec' (om_records st), om_leases := m_put id' until (om_leases st)\<rparr>;
              (out, st'') = claim until ids st'
          in (copyRecord rec' # out, st''))"

text \<open>
  \<open>order\<close> lists the identifiers in the order in which \<^verbatim>\<open>range s.records\<close> visits them; the sort below
  is stable, so over all orders it has every result the unstable \<^verbatim>\<open>sort.Slice\<close> can have.
\<close>

definition visits :: "string list \<Rightarrow> OutboxMemoryStore \<Rightarrow> bool" where
  "visits order st \<longleftrightarrow> distinct order \<and> set order = dom (m_get (om_records st))"

definition OutboxMemoryStore_Fetch ::
  "string list \<Rightarrow> int \<Rightarrow> duration \<Rightarrow> time \<Rightarrow> OutboxMemoryStore \<Rightarrow> (goerror + Record list) \<times> OutboxMemoryStore" where
  "OutboxMemoryStore_Fetch order limit visibility now st =
     (if limit \<le> 0 then (Inr [], st)
      else if om_closed st then (Inl Outbox_ErrClosed, st)
      else
        let ids = sort_key (fetch_key st) (filter (due st now) order);
            ids = (if int (length ids) > limit then take (nat limit) ids else ids);
            (out, st') = claim (now + visibility) ids st
        in (Inr out, st'))"

definition OutboxMemoryStore_MarkDelivered ::
  "string \<Rightarrow> time \<Rightarrow> OutboxMemoryStore \<Rightarrow> goerror option \<times> OutboxMemoryStore" where
  "OutboxMemoryStore_MarkDelivered id' now st =
     (if om_closed st then (Some Outbox_ErrClosed, st)
      else case m_get (om_records st) id' of
          None \<Rightarrow> (None, st)
        | Some rec \<Rightarrow>
            (None, st\<lparr>om_records := m_put id'
                        (rec\<lparr>r_Status := StatusDelivered, r_DeliveredAt := now, r_LastError := ''''\<rparr>) (om_records st),
                      om_leases := m_del id' (om_leases st)\<rparr>))"

definition OutboxMemoryStore_Retry ::
  "string \<Rightarrow> time \<Rightarrow> string \<Rightarrow> OutboxMemoryStore \<Rightarrow> goerror option \<times> OutboxMemoryStore" where
  "OutboxMemoryStore_Retry id' availableAt lastErr st =
     (if om_closed st then (Some Outbox_ErrClosed, st)
      else case m_get (om_records st) id' of
          None \<Rightarrow> (None, st)
        | Some rec \<Rightarrow>
            (None, st\<lparr>om_records := m_put id' (rec\<lparr>r_AvailableAt := availableAt, r_LastError := lastErr\<rparr>) (om_records st),
                      om_leases := m_del id' (om_leases st)\<rparr>))"

definition OutboxMemoryStore_MarkDead ::
  "string \<Rightarrow> string \<Rightarrow> OutboxMemoryStore \<Rightarrow> goerror option \<times> OutboxMemoryStore" where
  "OutboxMemoryStore_MarkDead id' lastErr st =
     (if om_closed st then (Some Outbox_ErrClosed, st)
      else case m_get (om_records st) id' of
          None \<Rightarrow> (None, st)
        | Some rec \<Rightarrow>
            (None, st\<lparr>om_records := m_put id' (rec\<lparr>r_Status := StatusDead, r_LastError := lastErr\<rparr>) (om_records st),
                      om_leases := m_del id' (om_leases st)\<rparr>))"

definition OutboxMemoryStore_Get :: "string \<Rightarrow> OutboxMemoryStore \<Rightarrow> Record option" where
  "OutboxMemoryStore_Get id' st = map_option copyRecord (m_get (om_records st) id')"

definition OutboxMemoryStore_Len :: "OutboxMemoryStore \<Rightarrow> int" where
  "OutboxMemoryStore_Len st = int (length (om_records st))"

definition OutboxMemoryStore_Close :: "OutboxMemoryStore \<Rightarrow> OutboxMemoryStore" where
  "OutboxMemoryStore_Close st = st\<lparr>om_closed := True\<rparr>"

section \<open>The relay\<close>

record RelayConfig =
  BatchSize :: int
  PollInterval :: duration
  Visibility :: duration
  MaxAttempts :: int
  BaseBackoff :: duration
  MaxBackoff :: duration

definition RelayConfig_withDefaults :: "RelayConfig \<Rightarrow> RelayConfig" where
  "RelayConfig_withDefaults c =
     \<lparr>BatchSize = (if BatchSize c \<le> 0 then 100 else BatchSize c),
      PollInterval = (if PollInterval c \<le> 0 then Second else PollInterval c),
      Visibility = (if Visibility c \<le> 0 then 30 * Second else Visibility c),
      MaxAttempts = (if MaxAttempts c \<le> 0 then 5 else MaxAttempts c),
      BaseBackoff = (if BaseBackoff c \<le> 0 then Second else BaseBackoff c),
      MaxBackoff = (if MaxBackoff c \<le> 0 then Minute else MaxBackoff c)\<rparr>"

text \<open>The loop of \<^verbatim>\<open>backoff\<close> with \<open>n\<close> doublings left; \<open>Inl\<close> is the early return.\<close>

fun backoff_loop :: "duration \<Rightarrow> nat \<Rightarrow> duration \<Rightarrow> duration + duration" where
  "backoff_loop mx 0 delay = Inr delay"
| "backoff_loop mx (Suc n) delay =
     (let delay = wrap64 (delay * 2) in if delay \<ge> mx then Inl mx else backoff_loop mx n delay)"

definition Relay_backoff :: "RelayConfig \<Rightarrow> int \<Rightarrow> duration" where
  "Relay_backoff cfg attempts =
     (let attempts = (if attempts < 1 then 1 else attempts) in
      case backoff_loop (MaxBackoff cfg) (nat (attempts - 1)) (BaseBackoff cfg) of
        Inl r \<Rightarrow> r
      | Inr delay \<Rightarrow> if delay > MaxBackoff cfg then MaxBackoff cfg else delay)"

text \<open>
  The \<^verbatim>\<open>Store\<close> interface over a world \<open>'s\<close> (the store, the clock, other goroutines), and what else
  a relay calls: the publisher, the clock and the context.
\<close>

record 's Store =
  st_Fetch :: "int \<Rightarrow> duration \<Rightarrow> 's \<Rightarrow> (goerror + Record list) \<times> 's"
  st_MarkDelivered :: "string \<Rightarrow> 's \<Rightarrow> goerror option \<times> 's"
  st_Retry :: "string \<Rightarrow> time \<Rightarrow> string \<Rightarrow> 's \<Rightarrow> goerror option \<times> 's"
  st_MarkDead :: "string \<Rightarrow> string \<Rightarrow> 's \<Rightarrow> goerror option \<times> 's"

record 's relay_env =
  re_Publish :: "Message \<Rightarrow> 's \<Rightarrow> goerror option \<times> 's"
  re_now :: "'s \<Rightarrow> time"
  re_ctxErr :: "'s \<Rightarrow> goerror option"

text \<open>What \<^verbatim>\<open>deliver\<close> does once \<^verbatim>\<open>Publish\<close> has answered \<open>err\<close>; the errors of the store are only logged.\<close>

definition Relay_settle :: "'s Store \<Rightarrow> RelayConfig \<Rightarrow> time \<Rightarrow> Record \<Rightarrow> goerror option \<Rightarrow> 's \<Rightarrow> 's" where
  "Relay_settle S cfg now rec err s =
     (case err of
        None \<Rightarrow> snd (st_MarkDelivered S (r_ID rec) s)
      | Some e \<Rightarrow>
          if r_Attempts rec \<ge> MaxAttempts cfg then snd (st_MarkDead S (r_ID rec) (error_text e) s)
          else snd (st_Retry S (r_ID rec) (now + Relay_backoff cfg (r_Attempts rec)) (error_text e) s))"

definition Relay_deliver :: "'s Store \<Rightarrow> 's relay_env \<Rightarrow> RelayConfig \<Rightarrow> Record \<Rightarrow> 's \<Rightarrow>
    (goerror option \<times> time) \<times> 's" where
  "Relay_deliver S E cfg rec s =
     (let (err, s1) = re_Publish E (r_Message rec) s
      in ((err, re_now E s1), Relay_settle S cfg (re_now E s1) rec err s1))"

text \<open>
  The loop of \<^verbatim>\<open>ProcessBatch\<close> returns its count and error and, beside them, which record was published
  with which outcome, and when that was known.
\<close>

fun process_loop :: "'s Store \<Rightarrow> 's relay_env \<Rightarrow> RelayConfig \<Rightarrow> Record list \<Rightarrow> int \<Rightarrow> 's \<Rightarrow>
    (int \<times> goerror option) \<times> (Record \<times> goerror option \<times> time) list \<times> 's" where
  "process_loop S E cfg [] processed s = ((processed, None), [], s)"
| "process_loop S E cfg (rec # records) processed s =
     (case re_ctxErr E s of
        Some err \<Rightarrow> ((processed, Some err), [], s)
      | None \<Rightarrow>
          let (out, s1) = Relay_deliver S E cfg rec s;
              (r, tr, s2) = process_loop S E cfg records (processed + 1) s1
          in (r, (rec, out) # tr, s2))"

definition Relay_ProcessBatch :: "'s Store \<Rightarrow> 's relay_env \<Rightarrow> RelayConfig \<Rightarrow> 's \<Rightarrow>
    (int \<times> goerror option) \<times> (Record \<times> goerror option \<times> time) list \<times> 's" where
  "Relay_ProcessBatch S E cfg s =
     (case re_ctxErr E s of
        Some err \<Rightarrow> ((0, Some err), [], s)
      | None \<Rightarrow>
          (case st_Fetch S (BatchSize cfg) (Visibility cfg) s of
             (Inl err, s1) \<Rightarrow> ((0, Some err), [], s1)
           | (Inr records, s1) \<Rightarrow> process_loop S E cfg records 0 s1))"

text \<open>
  The polling loop over the events its \<^verbatim>\<open>select\<close> sees, with the waits it sets the timer to; a timer
  event stands for the timer firing after the wait. An empty list is a loop still waiting.
\<close>

datatype relay_event = CtxDone | StopRequested | TimerFired

fun Relay_loop :: "'s Store \<Rightarrow> 's relay_env \<Rightarrow> RelayConfig \<Rightarrow> relay_event list \<Rightarrow> 's \<Rightarrow> bool \<times> duration list \<times> 's" where
  "Relay_loop S E cfg [] s = (False, [], s)"
| "Relay_loop S E cfg (CtxDone # evs) s = (True, [], s)"
| "Relay_loop S E cfg (StopRequested # evs) s = (True, [], s)"
| "Relay_loop S E cfg (TimerFired # evs) s =
     (let ((processed, err), tr, s1) = Relay_ProcessBatch S E cfg s;
          wait = (if processed \<ge> BatchSize cfg then 0 else PollInterval cfg);
          (stopped, waits, s2) = Relay_loop S E cfg evs s1
      in (stopped, wait # waits, s2))"

section \<open>What the store does\<close>

lemma cloneMessage_id: "gomap_wf (Headers msg) \<Longrightarrow> cloneMessage msg = msg"
  using fold_put_id [of "[]" "Headers msg"] by (simp add: cloneMessage_def)

lemma cloneMessage_clone [simp]: "cloneMessage (cloneMessage msg) = cloneMessage msg"
  by (rule cloneMessage_id) (auto simp: cloneMessage_def intro: fold_put_wf)

text \<open>A store is well formed when records sit under their identifiers and own their headers.\<close>

definition om_wf :: "OutboxMemoryStore \<Rightarrow> bool" where
  "om_wf st \<longleftrightarrow> gomap_wf (om_records st) \<and> gomap_wf (om_leases st) \<and>
     (\<forall>k rec. m_get (om_records st) k = Some rec \<longrightarrow>
        r_ID rec = k \<and> cloneMessage (r_Message rec) = r_Message rec)"

definition attempted :: "Record \<Rightarrow> Record" where
  "attempted rec = rec\<lparr>r_Attempts := r_Attempts rec + 1\<rparr>"

lemma attempted_sel [simp]:
  "r_ID (attempted rec) = r_ID rec" "r_Message (attempted rec) = r_Message rec"
  "r_Status (attempted rec) = r_Status rec" "r_AvailableAt (attempted rec) = r_AvailableAt rec"
  "r_CreatedAt (attempted rec) = r_CreatedAt rec" "r_Attempts (attempted rec) = r_Attempts rec + 1"
  by (simp_all add: attempted_def)

lemma copyRecord_id: "cloneMessage (r_Message rec) = r_Message rec \<Longrightarrow> copyRecord rec = rec"
  by (simp add: copyRecord_def)

lemma om_wf_put:
  assumes "om_wf st" "r_ID rec = k" "cloneMessage (r_Message rec) = r_Message rec" "gomap_wf l"
  shows "om_wf (st\<lparr>om_records := m_put k rec (om_records st), om_leases := l\<rparr>)"
  using assms by (auto simp: om_wf_def)

lemma claim_spec:
  assumes "om_wf st" "distinct ids" "set ids \<subseteq> dom (m_get (om_records st))"
  shows "\<exists>st'. claim until ids st = (map (\<lambda>k. attempted (the (m_get (om_records st) k))) ids, st') \<and>
     om_wf st' \<and> om_closed st' = om_closed st \<and>
     (\<forall>k. m_get (om_records st') k =
        (if k \<in> set ids then map_option attempted (m_get (om_records st) k) else m_get (om_records st) k)) \<and>
     (\<forall>k. m_get (om_leases st') k = (if k \<in> set ids then Some until else m_get (om_leases st) k))"
  using assms
proof (induction ids arbitrary: st)
  case (Cons k ids)
  from Cons.prems(3) obtain rec where rec: "m_get (om_records st) k = Some rec" by auto
  let ?st = "st\<lparr>om_records := m_put k (attempted rec) (om_records st), om_leases := m_put k until (om_leases st)\<rparr>"
  have own: "r_ID rec = k" "cloneMessage (r_Message rec) = r_Message rec"
    using Cons.prems(1) rec by (auto simp: om_wf_def)
  have "om_wf ?st"
    using Cons.prems(1) own by (intro om_wf_put) (auto simp: om_wf_def)
  moreover have "distinct ids" "set ids \<subseteq> dom (m_get (om_records ?st))" using Cons.prems(2,3) by auto
  ultimately obtain st' where st': "claim until ids ?st = (map (\<lambda>k. attempted (the (m_get (om_records ?st) k))) ids, st')"
     "om_wf st'" "om_closed st' = om_closed ?st"
     "\<And>k. m_get (om_records st') k =
        (if k \<in> set ids then map_option attempted (m_get (om_records ?st) k) else m_get (om_records ?st) k)"
     "\<And>k. m_get (om_leases st') k = (if k \<in> set ids then Some until else m_get (om_leases ?st) k)"
    using Cons.IH [of ?st] by blast
  have k: "k \<notin> set ids" using Cons.prems(2) by simp
  have "map (\<lambda>k. attempted (the (m_get (om_records ?st) k))) ids = map (\<lambda>k. attempted (the (m_get (om_records st) k))) ids"
    using k by (intro map_cong) auto
  moreover have "copyRecord (attempted rec) = attempted rec" using own by (simp add: copyRecord_id)
  ultimately have "claim until (k # ids) st = (map (\<lambda>k. attempted (the (m_get (om_records st) k))) (k # ids), st')"
    using rec st'(1) by (simp add: Let_def attempted_def)
  then show ?case using st'(2-5) rec k by auto
qed simp

lemma take_if_longer: "0 < limit \<Longrightarrow> (if int (length xs) > limit then take (nat limit) xs else xs) = take (nat limit) xs"
  by (auto simp: not_less)

lemma due_stored: "due st now k \<Longrightarrow> \<exists>rec. m_get (om_records st) k = Some rec \<and> r_Status rec = StatusPending \<and>
    r_AvailableAt rec \<le> now"
  by (auto simp: due_def split: option.splits)

text \<open>The identifiers a fetch claims.\<close>

definition fetched :: "string list \<Rightarrow> int \<Rightarrow> time \<Rightarrow> OutboxMemoryStore \<Rightarrow> string list" where
  "fetched order limit now st = take (nat limit) (sort_key (fetch_key st) (filter (due st now) order))"

lemma fetched_due: "k \<in> set (fetched order limit now st) \<Longrightarrow> due st now k"
  unfolding fetched_def by (auto dest: in_set_takeD)

lemma Fetch_run:
  assumes "om_wf st" "distinct order" "\<not> om_closed st" "0 < limit"
    and fetch: "OutboxMemoryStore_Fetch order limit visibility now st = (res, st')"
  shows "res = Inr (map (\<lambda>k. attempted (the (m_get (om_records st) k))) (fetched order limit now st))"
    and "om_wf st'" and "om_closed st' = om_closed st"
    and "m_get (om_records st') k = (if k \<in> set (fetched order limit now st)
        then map_option attempted (m_get (om_records st) k) else m_get (om_records st) k)"
    and "m_get (om_leases st') k = (if k \<in> set (fetched order limit now st) then Some (now + visibility)
        else m_get (om_leases st) k)"
proof -
  have "set (fetched order limit now st) \<subseteq> dom (m_get (om_records st))"
    using fetched_due due_stored by blast
  moreover have "distinct (fetched order limit now st)"
    using assms(2) by (simp add: fetched_def)
  moreover obtain out where "claim (now + visibility) (fetched order limit now st) st = (out, st')" "res = Inr out"
    using assms(3,4) fetch
    by (auto simp: OutboxMemoryStore_Fetch_def Let_def take_if_longer simp flip: fetched_def split: prod.splits)
  ultimately show "res = Inr (map (\<lambda>k. attempted (the (m_get (om_records st) k))) (fetched order limit now st))"
    and "om_wf st'" and "om_closed st' = om_closed st"
    and "m_get (om_records st') k = (if k \<in> set (fetched order limit now st)
        then map_option attempted (m_get (om_records st) k) else m_get (om_records st) k)"
    and "m_get (om_leases st') k = (if k \<in> set (fetched order limit now st) then Some (now + visibility)
        else m_get (om_leases st) k)"
    using claim_spec [OF assms(1), of "fetched order limit now st" "now + visibility"] by auto
qed

lemma fetch_key_attempted:
  "due st now k \<Longrightarrow> r = attempted (the (m_get (om_records st) k)) \<Longrightarrow> (r_AvailableAt r, r_CreatedAt r) = fetch_key st k"
  by (auto simp: fetch_key_def dest: due_stored)

lemma fetched_oldest:
  assumes "set order = dom (m_get (om_records st))" "due st now k" "k \<notin> set (fetched order limit now st)" "0 < limit"
  shows "length (fetched order limit now st) = nat limit"
    and "k' \<in> set (fetched order limit now st) \<Longrightarrow> fetch_key st k' \<le> fetch_key st k"
proof -
  let ?xs = "sort_key (fetch_key st) (filter (due st now) order)"
  have "k \<in> set ?xs" using assms(1,2) due_stored by fastforce
  then have drop: "k \<in> set (drop (nat limit) ?xs)"
    using assms(3) set_append [of "take (nat limit) ?xs" "drop (nat limit) ?xs"] by (auto simp: fetched_def)
  then show "length (fetched order limit now st) = nat limit"
    by (cases "nat limit \<le> length ?xs") (auto simp: fetched_def)
  have "sorted (map (fetch_key st) (take (nat limit) ?xs) @ map (fetch_key st) (drop (nat limit) ?xs))"
    by (simp flip: map_append)
  with drop show "k' \<in> set (fetched order limit now st) \<Longrightarrow> fetch_key st k' \<le> fetch_key st k"
    unfolding sorted_append fetched_def by auto
qed

text \<open>
  \<^verbatim>\<open>Fetch\<close> on an open store returns at most \<^verbatim>\<open>limit\<close> different records, oldest available first; each
  was pending, due and not under a live lease, and comes back (and stays stored) with one more
  attempt; a due record is left behind only when the limit is reached, and then it is not older than any claimed
  one; all other records are as before.
\<close>

theorem Outbox_Fetch_spec:
  assumes "om_wf st" "visits order st" "\<not> om_closed st" "0 < limit"
    and fetch: "OutboxMemoryStore_Fetch order limit visibility now st = (res, st')"
  shows "\<exists>out. res = Inr out \<and> distinct (map r_ID out) \<and> int (length out) \<le> limit \<and>
     sorted (map (\<lambda>r. (r_AvailableAt r, r_CreatedAt r)) out) \<and>
     (\<forall>r \<in> set out. due st now (r_ID r) \<and> m_get (om_records st') (r_ID r) = Some r \<and>
        map_option attempted (m_get (om_records st) (r_ID r)) = Some r) \<and>
     (\<forall>k. due st now k \<and> k \<notin> r_ID ` set out \<longrightarrow> int (length out) = limit \<and>
        (\<forall>r \<in> set out. (r_AvailableAt r, r_CreatedAt r) \<le> fetch_key st k)) \<and>
     (\<forall>k. k \<notin> r_ID ` set out \<longrightarrow> m_get (om_records st') k = m_get (om_records st) k)"
proof -
  let ?ids = "fetched order limit now st"
  let ?rec = "\<lambda>k. attempted (the (m_get (om_records st) k))"
  have order: "distinct order" "set order = dom (m_get (om_records st))"
    using assms(2) by (auto simp: visits_def)
  note run = Fetch_run [OF assms(1) order(1) assms(3-5)]
  note res = run(1) and recs = run(4)
  have rec: "r_ID (?rec k) = k \<and> map_option attempted (m_get (om_records st) k) = Some (?rec k)" if "k \<in> set ?ids" for k
    using due_stored [OF fetched_due [OF that]] assms(1) by (auto simp: om_wf_def)
  have ids: "map r_ID (map ?rec ?ids) = ?ids" using rec by (simp add: map_idI)
  have keys: "map (\<lambda>r. (r_AvailableAt r, r_CreatedAt r)) (map ?rec ?ids) = map (fetch_key st) ?ids"
    using fetch_key_attempted [OF fetched_due] by auto
  have "sorted (map (fetch_key st) ?ids)"
    unfolding fetched_def by (simp add: take_map [symmetric] sorted_wrt_take)
  moreover have "distinct ?ids" using order(1) by (simp add: fetched_def)
  moreover have "int (length ?ids) \<le> limit" using assms(4) by (simp add: fetched_def)
  moreover have set: "r_ID ` set (map ?rec ?ids) = set ?ids" using ids by (metis set_map)
  moreover have "due st now (r_ID r) \<and> m_get (om_records st') (r_ID r) = Some r \<and>
      map_option attempted (m_get (om_records st) (r_ID r)) = Some r" if "r \<in> set (map ?rec ?ids)" for r
    using that rec recs fetched_due by auto
  moreover have "int (length (map ?rec ?ids)) = limit \<and>
      (\<forall>r \<in> set (map ?rec ?ids). (r_AvailableAt r, r_CreatedAt r) \<le> fetch_key st k)"
    if "due st now k" "k \<notin> r_ID ` set (map ?rec ?ids)" for k
  proof -
    have "k \<notin> set ?ids" using that(2) unfolding set .
    note old = fetched_oldest [OF order(2) that(1) this assms(4)]
    show ?thesis
      using old assms(4) fetch_key_attempted [OF fetched_due [of _ order limit now st]] by auto
  qed
  ultimately show ?thesis
    unfolding res by (intro exI [of _ "map ?rec ?ids"] conjI) (auto simp only: ids keys length_map recs if_False)
qed

theorem Outbox_Fetch_spec_witness:
  "let rec = \<lparr>r_ID = ''a'', r_Message = \<lparr>Topic = ''t'', Key = '''', Body = [], Headers = []\<rparr>, r_Status = StatusPending,
              r_Attempts = 0, r_CreatedAt = 1, r_AvailableAt = 1, r_DeliveredAt = 0, r_LastError = ''''\<rparr>;
       st = \<lparr>om_records = [(''b'', rec\<lparr>r_ID := ''b'', r_AvailableAt := 3\<rparr>), (''a'', rec)], om_leases = [], om_closed = False\<rparr>;
       (res, st') = OutboxMemoryStore_Fetch [''b'', ''a''] 1 10 5 st
   in \<exists>out. res = Inr out \<and> length out \<le> 1 \<and> (due st 5 ''b'' \<and> ''b'' \<notin> r_ID ` set out \<longrightarrow> length out = 1)"
proof -
  define rec where "rec = \<lparr>r_ID = ''a'', r_Message = \<lparr>Topic = ''t'', Key = '''', Body = [], Headers = []\<rparr>, r_Status = StatusPending,
              r_Attempts = 0, r_CreatedAt = 1, r_AvailableAt = 1, r_DeliveredAt = 0, r_LastError = ''''\<rparr>"
  define st where "st = \<lparr>om_records = [(''b'', rec\<lparr>r_ID := ''b'', r_AvailableAt := 3\<rparr>), (''a'', rec)], om_leases = [], om_closed = False\<rparr>"
  obtain res st' where f: "OutboxMemoryStore_Fetch [''b'', ''a''] 1 10 5 st = (res, st')" by (cases "OutboxMemoryStore_Fetch [''b'', ''a''] 1 10 5 st")
  have "om_wf st" "visits [''b'', ''a''] st" "\<not> om_closed st" "0 < (1 :: int)"
    by (auto simp: om_wf_def visits_def st_def rec_def gomap_wf_def cloneMessage_def split: if_splits)
  from Outbox_Fetch_spec [OF this f] obtain out where "res = Inr out" "int (length out) \<le> 1"
    "due st 5 ''b'' \<and> ''b'' \<notin> r_ID ` set out \<longrightarrow> int (length out) = 1" by blast
  then show ?thesis
    unfolding Let_def rec_def [symmetric] st_def [symmetric] f by auto
qed

section \<open>Leases\<close>

text \<open>The calls other goroutines may make between two fetches.\<close>

datatype outbox_op = OEnqueue Message "goerror + string" time
  | OFetch "string list" int duration time
  | OMarkDelivered string time | ORetry string time string | OMarkDead string string | OClose

fun outbox_run :: "outbox_op \<Rightarrow> OutboxMemoryStore \<Rightarrow> OutboxMemoryStore" where
  "outbox_run (OEnqueue msg newID now) st = snd (OutboxMemoryStore_Enqueue msg newID now st)"
| "outbox_run (OFetch order limit visibility now) st = snd (OutboxMemoryStore_Fetch order limit visibility now st)"
| "outbox_run (OMarkDelivered k now) st = snd (OutboxMemoryStore_MarkDelivered k now st)"
| "outbox_run (ORetry k availableAt e) st = snd (OutboxMemoryStore_Retry k availableAt e st)"
| "outbox_run (OMarkDead k e) st = snd (OutboxMemoryStore_MarkDead k e st)"
| "outbox_run OClose st = OutboxMemoryStore_Close st"

text \<open>
  Calls made before the time \<open>now\<close>: fetches read the clock no later, and the identifiers of new messages are new
  (so not \<open>k\<close>).
\<close>

fun made_before :: "string \<Rightarrow> time \<Rightarrow> outbox_op \<Rightarrow> bool" where
  "made_before k now (OEnqueue msg newID t) \<longleftrightarrow> newID \<noteq> Inr k"
| "made_before k now (OFetch order limit visibility t) \<longleftrightarrow> t \<le> now \<and> distinct order"
| "made_before k now _ \<longleftrightarrow> True"

lemmas outbox_op_defs = OutboxMemoryStore_Enqueue_def OutboxMemoryStore_MarkDelivered_def
  OutboxMemoryStore_Retry_def OutboxMemoryStore_MarkDead_def OutboxMemoryStore_Close_def

lemma Fetch_trivial:
  "limit \<le> 0 \<or> om_closed st \<Longrightarrow> snd (OutboxMemoryStore_Fetch order limit visibility now st) = st"
  by (auto simp: OutboxMemoryStore_Fetch_def)

lemma outbox_run_wf:
  assumes "om_wf st" "made_before k now' op"
  shows "om_wf (outbox_run op st)"
proof (cases op)
  case (OEnqueue msg newID now)
  then show ?thesis
    using assms(1) by (auto simp: outbox_op_defs om_wf_def split: option.split sum.split)
next
  case (OFetch order limit visibility now)
  show ?thesis
  proof (cases "limit \<le> 0 \<or> om_closed st")
    case True
    then show ?thesis using Fetch_trivial [OF True] OFetch assms(1) by simp
  next
    case False
    then show ?thesis
      using Fetch_run(2) [OF assms(1) _ _ _ prod.collapse [symmetric]] OFetch assms(2) by simp
  qed
qed (use assms(1) in \<open>auto simp: outbox_op_defs om_wf_def split: option.split\<close>)

text \<open>
  The record \<open>k\<close> cannot be handed out up to the time \<open>now\<close>: it is settled, or leased for longer, or scheduled for
  later.
\<close>

definition withheld :: "string \<Rightarrow> time \<Rightarrow> OutboxMemoryStore \<Rightarrow> bool" where
  "withheld k now st \<longleftrightarrow>
     (case m_get (om_records st) k of None \<Rightarrow> True | Some rec \<Rightarrow> r_Status rec \<noteq> StatusPending \<or> now < r_AvailableAt rec) \<or>
     (\<exists>until. m_get (om_leases st) k = Some until \<and> now < until)"

lemma withheld_not_due: "withheld k now st \<Longrightarrow> t \<le> now \<Longrightarrow> \<not> due st t k"
  by (auto simp: withheld_def due_def split: option.splits)

lemma outbox_run_withheld:
  assumes "om_wf st" "withheld k now st" "made_before k now op" "\<And>availableAt e. op = ORetry k availableAt e \<Longrightarrow> now < availableAt"
  shows "withheld k now (outbox_run op st)"
proof (cases op)
  case (OFetch order limit visibility t)
  show ?thesis
  proof (cases "limit \<le> 0 \<or> om_closed st")
    case True
    then show ?thesis using Fetch_trivial [OF True] OFetch assms(2) by simp
  next
    case False
    have "k \<notin> set (fetched order limit t st)"
      using withheld_not_due [OF assms(2)] OFetch assms(3) fetched_due [of k order limit t st] by auto
    then show ?thesis
      using Fetch_run(4,5) [OF assms(1) _ _ _ prod.collapse [symmetric], where k = k] False OFetch assms(2,3)
      by (simp add: withheld_def)
  qed
qed (use assms(2-4) in \<open>auto simp: outbox_op_defs withheld_def split: option.splits sum.splits if_splits\<close>)

lemma outbox_runs_withheld:
  assumes "om_wf st" "withheld k now st" "\<forall>op \<in> set ops. made_before k now op"
    and "\<forall>availableAt e. ORetry k availableAt e \<in> set ops \<longrightarrow> now < availableAt"
  shows "om_wf (fold outbox_run ops st) \<and> withheld k now (fold outbox_run ops st)"
  using assms
proof (induction ops arbitrary: st)
  case (Cons op ops)
  then show ?case
    using outbox_run_wf [of st k now op] outbox_run_withheld [of st k now op] by auto
qed simp

text \<open>
  C21. A record claimed by one fetch is not handed out by another fetch while its visibility window
  lasts, whatever calls are made in between: enqueues, fetches of other relays, settlements of this and of other
  records, closing. The one exception is a \<^verbatim>\<open>Retry\<close> of this record, which gives the claim up: then it is not
  handed out before the time that \<^verbatim>\<open>Retry\<close> sets.
\<close>

theorem Outbox_lease_exclusive:
  assumes "om_wf st" "distinct order" "distinct order'"
    and fetch: "OutboxMemoryStore_Fetch order limit visibility now st = (Inr out, st1)" "r \<in> set out"
    and ops: "\<forall>op \<in> set ops. made_before (r_ID r) now' op"
      "\<forall>availableAt e. ORetry (r_ID r) availableAt e \<in> set ops \<longrightarrow> now' < availableAt"
    and later: "now' < now + visibility"
    and again: "OutboxMemoryStore_Fetch order' limit' visibility' now' (fold outbox_run ops st1) = (Inr out', st2)"
  shows "r_ID r \<notin> r_ID ` set out'"
proof -
  have open1: "\<not> om_closed st" "0 < limit"
    using fetch by (auto simp: OutboxMemoryStore_Fetch_def split: if_splits)
  note run = Fetch_run [OF assms(1,2) open1 fetch(1)]
  obtain k where k: "k \<in> set (fetched order limit now st)" "r = attempted (the (m_get (om_records st) k))"
    using run(1) fetch(2) by auto
  then have id: "r_ID r = k"
    using due_stored [OF fetched_due [OF k(1)]] assms(1) by (auto simp: om_wf_def)
  have "m_get (om_leases st1) k = Some (now + visibility)" using run(5) k(1) by simp
  then have "withheld k now' st1" using later by (simp add: withheld_def)
  from outbox_runs_withheld [OF run(2) this ops [unfolded id]]
  have wf: "om_wf (fold outbox_run ops st1)" and "\<not> due (fold outbox_run ops st1) now' k"
    using withheld_not_due by blast+
  then have new: "k \<notin> set (fetched order' limit' now' (fold outbox_run ops st1))" using fetched_due by blast
  show ?thesis
  proof (cases "limit' \<le> 0 \<or> om_closed (fold outbox_run ops st1)")
    case True
    then show ?thesis using again by (auto simp: OutboxMemoryStore_Fetch_def split: if_splits)
  next
    case False
    then have "out' = map (\<lambda>k. attempted (the (m_get (om_records (fold outbox_run ops st1)) k)))
        (fetched order' limit' now' (fold outbox_run ops st1))"
      using Fetch_run(1) [OF wf assms(3) _ _ again] by simp
    moreover have "r_ID (attempted (the (m_get (om_records (fold outbox_run ops st1)) k'))) = k'"
      if "k' \<in> set (fetched order' limit' now' (fold outbox_run ops st1))" for k'
      using due_stored [OF fetched_due [OF that]] wf by (auto simp: om_wf_def)
    ultimately show ?thesis using new id by auto
  qed
qed

theorem Outbox_lease_exclusive_witness:
  "let rec = \<lparr>r_ID = ''a'', r_Message = \<lparr>Topic = ''t'', Key = '''', Body = [], Headers = []\<rparr>, r_Status = StatusPending,
              r_Attempts = 0, r_CreatedAt = 1, r_AvailableAt = 1, r_DeliveredAt = 0, r_LastError = ''''\<rparr>;
       st = \<lparr>om_records = [(''a'', rec)], om_leases = [], om_closed = False\<rparr>;
       (res, st1) = OutboxMemoryStore_Fetch [''a''] 1 10 5 st;
       (res', st2) = OutboxMemoryStore_Fetch [''a''] 1 10 14 (fold outbox_run [OFetch [''a''] 1 10 7, ORetry ''a'' 20 ''x''] st1)
   in res = Inr [attempted rec] \<and> (\<exists>out'. res' = Inr out' \<and> ''a'' \<notin> r_ID ` set out')"
proof -
  define rec where "rec = \<lparr>r_ID = ''a'', r_Message = \<lparr>Topic = ''t'', Key = '''', Body = [], Headers = []\<rparr>, r_Status = StatusPending,
              r_Attempts = 0, r_CreatedAt = 1, r_AvailableAt = 1, r_DeliveredAt = 0, r_LastError = ''''\<rparr>"
  define st where "st = \<lparr>om_records = [(''a'', rec)], om_leases = [], om_closed = False\<rparr>"
  obtain res st1 where f: "OutboxMemoryStore_Fetch [''a''] 1 10 5 st = (res, st1)"
    by (cases "OutboxMemoryStore_Fetch [''a''] 1 10 5 st")
  let ?st = "fold outbox_run [OFetch [''a''] 1 10 7, ORetry ''a'' 20 ''x''] st1"
  obtain res' st2 where g: "OutboxMemoryStore_Fetch [''a''] 1 10 14 ?st = (res', st2)"
    by (cases "OutboxMemoryStore_Fetch [''a''] 1 10 14 ?st")
  have wf: "om_wf st"
    by (auto simp: om_wf_def st_def rec_def gomap_wf_def cloneMessage_def split: if_splits)
  have res: "res = Inr [attempted rec]"
    using Fetch_run(1) [OF wf _ _ _ f] by (simp add: fetched_def due_def st_def rec_def)
  have "\<not> om_closed ?st"
    using f g by (auto simp: OutboxMemoryStore_Fetch_def OutboxMemoryStore_Retry_def st_def rec_def due_def Let_def)
  then obtain out' where out': "res' = Inr out'" using g by (auto simp: OutboxMemoryStore_Fetch_def Let_def split: prod.splits)
  have "r_ID (attempted rec) \<notin> r_ID ` set out'"
    by (rule Outbox_lease_exclusive [OF wf _ _ f [unfolded res] _ _ _ _ g [unfolded out']]) simp_all
  then have "''a'' \<notin> r_ID ` set out'" by (simp add: rec_def)
  with res out' show ?thesis
    unfolding Let_def rec_def [symmetric] st_def [symmetric] f split_conv g by blast
qed

section \<open>At least once\<close>

text \<open>The in-memory store as the interface the relay uses, over a world that also carries the clock.\<close>

definition memory_Store ::
  "(OutboxMemoryStore \<Rightarrow> string list) \<Rightarrow> ('w \<Rightarrow> time) \<Rightarrow> (OutboxMemoryStore \<times> 'w) Store" where
  "memory_Store order clock =
     \<lparr>st_Fetch = (\<lambda>limit visibility (st, w).
        let (r, st') = OutboxMemoryStore_Fetch (order st) limit visibility (clock w) st in (r, st', w)),
      st_MarkDelivered = (\<lambda>k (st, w). let (r, st') = OutboxMemoryStore_MarkDelivered k (clock w) st in (r, st', w)),
      st_Retry = (\<lambda>k t e (st, w). let (r, st') = OutboxMemoryStore_Retry k t e st in (r, st', w)),
      st_MarkDead = (\<lambda>k e (st, w). let (r, st') = OutboxMemoryStore_MarkDead k e st in (r, st', w))\<rparr>"

text \<open>
  Any number of relays on one store. A record is claimed by a fetch, then its publication is
  answered, then the answer is settled in the store; other goroutines act between any two of these,
  and a relay may stop (its context ends, the process dies) before either. \<open>accepted\<close> are the
  messages whose enqueue returned an identifier, \<open>published\<close> those the publisher took. Identifiers
  are random; \<open>fresh\<close> says that a new one is not in use.
\<close>

record outbox_system =
  sys_store :: OutboxMemoryStore
  sys_claimed :: "Record list"
  sys_answered :: "(Record \<times> goerror option) list"
  sys_accepted :: "(string \<times> Message) set"
  sys_published :: "(string \<times> Message) set"

inductive outbox_reachable :: "RelayConfig \<Rightarrow> outbox_system \<Rightarrow> bool" for cfg where
  init: "outbox_reachable cfg \<lparr>sys_store = Outbox_NewMemoryStore, sys_claimed = [], sys_answered = [],
           sys_accepted = {}, sys_published = {}\<rparr>"
| enqueue: "outbox_reachable cfg s \<Longrightarrow> OutboxMemoryStore_Enqueue msg newID now (sys_store s) = (r, st') \<Longrightarrow>
     (\<forall>k. newID = Inr k \<longrightarrow> m_get (om_records (sys_store s)) k = None) \<Longrightarrow>
     outbox_reachable cfg (s\<lparr>sys_store := st',
       sys_accepted := sys_accepted s \<union> (case r of Inl e \<Rightarrow> {} | Inr k \<Rightarrow> {(k, msg)})\<rparr>)"
| fetch: "outbox_reachable cfg s \<Longrightarrow> visits order (sys_store s) \<Longrightarrow>
     OutboxMemoryStore_Fetch order (BatchSize cfg) (Visibility cfg) now (sys_store s) = (Inr out, st') \<Longrightarrow>
     outbox_reachable cfg (s\<lparr>sys_store := st', sys_claimed := sys_claimed s @ out\<rparr>)"
| publish: "outbox_reachable cfg s \<Longrightarrow> rec \<in> set (sys_claimed s) \<Longrightarrow>
     outbox_reachable cfg (s\<lparr>sys_claimed := remove1 rec (sys_claimed s), sys_answered := (rec, err) # sys_answered s,
       sys_published := sys_published s \<union> (if err = None then {(r_ID rec, r_Message rec)} else {})\<rparr>)"
| settle: "outbox_reachable cfg s \<Longrightarrow> (rec, err) \<in> set (sys_answered s) \<Longrightarrow>
     outbox_reachable cfg (s\<lparr>sys_store := fst (Relay_settle (memory_Store order (\<lambda>t. t)) cfg now rec err (sys_store s, now')),
       sys_answered := remove1 (rec, err) (sys_answered s)\<rparr>)"
| stop: "outbox_reachable cfg s \<Longrightarrow> set claimed \<subseteq> set (sys_claimed s) \<Longrightarrow> set answered \<subseteq> set (sys_answered s) \<Longrightarrow>
     outbox_reachable cfg (s\<lparr>sys_claimed := claimed, sys_answered := answered\<rparr>)"
| close: "outbox_reachable cfg s \<Longrightarrow> outbox_reachable cfg (s\<lparr>sys_store := OutboxMemoryStore_Close (sys_store s)\<rparr>)"

text \<open>
  The invariant: accepted messages are stored; a stored record was accepted and its status is
  justified; what relays hold is an earlier version of what is stored; a positive answer means
  published; and what is published is stored.
\<close>

definition accepted_stored :: "outbox_system \<Rightarrow> bool" where
  "accepted_stored s \<longleftrightarrow> (\<forall>k msg. (k, msg) \<in> sys_accepted s \<longrightarrow>
     (\<exists>rec. m_get (om_records (sys_store s)) k = Some rec \<and> r_Message rec = cloneMessage msg))"

definition justified :: "RelayConfig \<Rightarrow> outbox_system \<Rightarrow> string \<Rightarrow> Record \<Rightarrow> bool" where
  "justified cfg s k rec \<longleftrightarrow> (\<exists>msg. (k, msg) \<in> sys_accepted s \<and> r_Message rec = cloneMessage msg) \<and>
     (r_Status rec = StatusDelivered \<longrightarrow> (k, r_Message rec) \<in> sys_published s) \<and>
     (r_Status rec = StatusDead \<longrightarrow> MaxAttempts cfg \<le> r_Attempts rec)"

definition stored_justified :: "RelayConfig \<Rightarrow> outbox_system \<Rightarrow> bool" where
  "stored_justified cfg s \<longleftrightarrow> (\<forall>k rec. m_get (om_records (sys_store s)) k = Some rec \<longrightarrow> justified cfg s k rec)"

definition version_of :: "outbox_system \<Rightarrow> Record \<Rightarrow> bool" where
  "version_of s rec \<longleftrightarrow> (\<exists>cur. m_get (om_records (sys_store s)) (r_ID rec) = Some cur \<and>
     r_Message cur = r_Message rec \<and> r_Attempts rec \<le> r_Attempts cur)"

definition answers_published :: "outbox_system \<Rightarrow> bool" where
  "answers_published s \<longleftrightarrow> (\<forall>rec. (rec, None) \<in> set (sys_answered s) \<longrightarrow> (r_ID rec, r_Message rec) \<in> sys_published s)"

definition published_stored :: "outbox_system \<Rightarrow> bool" where
  "published_stored s \<longleftrightarrow> (\<forall>k m. (k, m) \<in> sys_published s \<longrightarrow>
     (\<exists>rec. m_get (om_records (sys_store s)) k = Some rec \<and> r_Message rec = m))"

definition outbox_inv :: "RelayConfig \<Rightarrow> outbox_system \<Rightarrow> bool" where
  "outbox_inv cfg s \<longleftrightarrow> om_wf (sys_store s) \<and> accepted_stored s \<and> stored_justified cfg s \<and>
     (\<forall>rec \<in> set (sys_claimed s) \<union> fst ` set (sys_answered s). version_of s rec) \<and>
     answers_published s \<and> published_stored s"

lemma inv_parts_relays [simp]:
  "accepted_stored (s\<lparr>sys_claimed := c\<rparr>) = accepted_stored s"
  "accepted_stored (s\<lparr>sys_answered := a\<rparr>) = accepted_stored s"
  "accepted_stored (s\<lparr>sys_published := p\<rparr>) = accepted_stored s"
  "stored_justified cfg (s\<lparr>sys_claimed := c\<rparr>) = stored_justified cfg s"
  "stored_justified cfg (s\<lparr>sys_answered := a\<rparr>) = stored_justified cfg s"
  "version_of (s\<lparr>sys_claimed := c\<rparr>) = version_of s"
  "version_of (s\<lparr>sys_answered := a\<rparr>) = version_of s"
  "version_of (s\<lparr>sys_published := p\<rparr>) = version_of s"
  "published_stored (s\<lparr>sys_claimed := c\<rparr>) = published_stored s"
  "published_stored (s\<lparr>sys_answered := a\<rparr>) = published_stored s"
  "answers_published (s\<lparr>sys_claimed := c\<rparr>) = answers_published s"
  by (simp_all add: accepted_stored_def stored_justified_def justified_def version_of_def fun_eq_iff
      published_stored_def answers_published_def)

text \<open>A change of one store that loses no record, no message and no attempt, and justifies each status it sets.\<close>

definition faithful_update :: "RelayConfig \<Rightarrow> outbox_system \<Rightarrow> OutboxMemoryStore \<Rightarrow> bool" where
  "faithful_update cfg s st' \<longleftrightarrow> om_wf st' \<and>
     (\<forall>k. rel_option (\<lambda>rec rec'. r_Message rec' = r_Message rec \<and> r_Attempts rec \<le> r_Attempts rec' \<and>
        (r_Status rec' = r_Status rec \<or> r_Status rec' = StatusDelivered \<and> (k, r_Message rec) \<in> sys_published s \<or>
         r_Status rec' = StatusDead \<and> MaxAttempts cfg \<le> r_Attempts rec'))
        (m_get (om_records (sys_store s)) k) (m_get (om_records st') k))"

lemma faithful_updateD1:
  assumes "faithful_update cfg s st'" "m_get (om_records (sys_store s)) k = Some rec"
  shows "\<exists>rec'. m_get (om_records st') k = Some rec' \<and> r_Message rec' = r_Message rec \<and> r_Attempts rec \<le> r_Attempts rec'"
proof -
  from assms(1) obtain R where "rel_option R (m_get (om_records (sys_store s)) k) (m_get (om_records st') k)"
      "\<And>x y. R x y \<Longrightarrow> r_Message y = r_Message x \<and> r_Attempts x \<le> r_Attempts y"
    unfolding faithful_update_def by blast
  with assms(2) show ?thesis by (auto simp: option_rel_Some1)
qed

lemma faithful_updateD2:
  assumes "faithful_update cfg s st'" "m_get (om_records st') k = Some rec'"
  shows "\<exists>rec. m_get (om_records (sys_store s)) k = Some rec \<and> r_Message rec' = r_Message rec \<and>
     r_Attempts rec \<le> r_Attempts rec' \<and>
     (r_Status rec' = r_Status rec \<or> r_Status rec' = StatusDelivered \<and> (k, r_Message rec) \<in> sys_published s \<or>
      r_Status rec' = StatusDead \<and> MaxAttempts cfg \<le> r_Attempts rec')"
proof -
  from assms(1) have "rel_option (\<lambda>rec rec'. r_Message rec' = r_Message rec \<and> r_Attempts rec \<le> r_Attempts rec' \<and>
      (r_Status rec' = r_Status rec \<or> r_Status rec' = StatusDelivered \<and> (k, r_Message rec) \<in> sys_published s \<or>
       r_Status rec' = StatusDead \<and> MaxAttempts cfg \<le> r_Attempts rec'))
      (m_get (om_records (sys_store s)) k) (m_get (om_records st') k)"
    unfolding faithful_update_def by blast
  then show ?thesis unfolding assms(2) option_rel_Some2 by blast
qed

lemma outbox_inv_update:
  assumes inv: "outbox_inv cfg s" and upd: "faithful_update cfg s st'"
  shows "outbox_inv cfg (s\<lparr>sys_store := st'\<rparr>)"
proof -
  let ?s = "s\<lparr>sys_store := st'\<rparr>"
  note D1 = faithful_updateD1 [OF upd] and D2 = faithful_updateD2 [OF upd]
  have acc: "accepted_stored s" and just: "stored_justified cfg s" and ver: "\<forall>rec \<in> set (sys_claimed s) \<union> fst ` set (sys_answered s). version_of s rec"
    and ans: "answers_published s" and pub: "published_stored s"
    using inv by (simp_all add: outbox_inv_def)
  have "om_wf st'" using upd by (simp add: faithful_update_def)
  moreover have "accepted_stored ?s"
    using acc D1 unfolding accepted_stored_def by simp metis
  moreover have "justified cfg ?s k rec'" if st': "m_get (om_records st') k = Some rec'" for k rec'
  proof -
    from D2 [OF st'] obtain rec where rec: "m_get (om_records (sys_store s)) k = Some rec"
        "r_Message rec' = r_Message rec" "r_Attempts rec \<le> r_Attempts rec'"
        "r_Status rec' = r_Status rec \<or> r_Status rec' = StatusDelivered \<and> (k, r_Message rec) \<in> sys_published s \<or>
         r_Status rec' = StatusDead \<and> MaxAttempts cfg \<le> r_Attempts rec'"
      by blast
    have "justified cfg s k rec" using just rec(1) by (simp add: stored_justified_def)
    with rec(2-4) show ?thesis by (auto simp: justified_def)
  qed
  then have "stored_justified cfg ?s" by (simp add: stored_justified_def)
  moreover have "version_of ?s rec" if "version_of s rec" for rec
    using that D1 unfolding version_of_def by simp (metis order_trans)
  moreover have "answers_published ?s" using ans by (simp add: answers_published_def)
  moreover have "published_stored ?s"
    using pub D1 unfolding published_stored_def by simp metis
  ultimately show ?thesis using ver unfolding outbox_inv_def by simp
qed

lemma faithful_put:
  assumes "om_wf (sys_store s)" "m_get (om_records (sys_store s)) k = Some rec"
    and "r_ID rec' = r_ID rec" "r_Message rec' = r_Message rec" "r_Attempts rec' = r_Attempts rec"
    and "r_Status rec' = r_Status rec \<or> r_Status rec' = StatusDelivered \<and> (k, r_Message rec) \<in> sys_published s \<or>
      r_Status rec' = StatusDead \<and> MaxAttempts cfg \<le> r_Attempts rec"
  shows "faithful_update cfg s ((sys_store s)\<lparr>om_records := m_put k rec' (om_records (sys_store s)),
     om_leases := m_del k (om_leases (sys_store s))\<rparr>)"
proof -
  have "om_wf ((sys_store s)\<lparr>om_records := m_put k rec' (om_records (sys_store s)),
     om_leases := m_del k (om_leases (sys_store s))\<rparr>)"
    using assms(1-4) by (intro om_wf_put) (auto simp: om_wf_def)
  then show ?thesis
    using assms(2,4-6) by (auto simp: faithful_update_def option.rel_refl)
qed

lemma faithful_refl: "om_wf (sys_store s) \<Longrightarrow> faithful_update cfg s (sys_store s)"
  by (auto simp: faithful_update_def intro: option.rel_refl)

lemma settle_faithful:
  assumes inv: "outbox_inv cfg s" and ans: "(rec, err) \<in> set (sys_answered s)"
  shows "faithful_update cfg s (fst (Relay_settle (memory_Store order (\<lambda>t. t)) cfg now rec err (sys_store s, now')))"
proof -
  have "version_of s rec" using inv image_eqI [OF _ ans, of rec fst] by (simp add: outbox_inv_def)
  then obtain cur where cur: "m_get (om_records (sys_store s)) (r_ID rec) = Some cur"
      "r_Message cur = r_Message rec" "r_Attempts rec \<le> r_Attempts cur"
    unfolding version_of_def by blast
  have wf: "om_wf (sys_store s)" and pub: "err = None \<longrightarrow> (r_ID rec, r_Message rec) \<in> sys_published s"
    using inv ans by (auto simp: outbox_inv_def answers_published_def)
  show ?thesis
    using wf pub cur
    by (auto simp: Relay_settle_def memory_Store_def OutboxMemoryStore_MarkDelivered_def OutboxMemoryStore_MarkDead_def
        OutboxMemoryStore_Retry_def split: option.split intro!: faithful_refl faithful_put)
qed

lemma Fetch_faithful:
  assumes "om_wf (sys_store s)" "visits order (sys_store s)"
    and "OutboxMemoryStore_Fetch order limit visibility now (sys_store s) = (Inr out, st')"
  shows "faithful_update cfg s st'" and "\<forall>r \<in> set out. m_get (om_records st') (r_ID r) = Some r"
proof -
  have "faithful_update cfg s st' \<and> (\<forall>r \<in> set out. m_get (om_records st') (r_ID r) = Some r)"
  proof (cases "limit \<le> 0 \<or> om_closed (sys_store s)")
    case True
    then show ?thesis
      using assms by (auto simp: OutboxMemoryStore_Fetch_def intro: faithful_refl split: if_splits)
  next
    case False
    then have op: "\<not> om_closed (sys_store s)" "0 < limit" by auto
    have order: "distinct order" using assms(2) by (simp add: visits_def)
    note run = Fetch_run [OF assms(1) order op assms(3)]
    have "rel_option R x (if b then map_option attempted x else x)"
      if "\<And>y. R y y" "\<And>y. R y (attempted y)" for R b and x :: "Record option"
      using that by (cases x) auto
    then have "faithful_update cfg s st'"
      using run(2) unfolding faithful_update_def run(4) by simp
    moreover have "m_get (om_records st') (r_ID r) = Some r" if r: "r \<in> set out" for r
    proof -
      obtain k where k: "k \<in> set (fetched order limit now (sys_store s))"
          "r = attempted (the (m_get (om_records (sys_store s)) k))"
        using run(1) r by auto
      then show ?thesis
        using due_stored [OF fetched_due [OF k(1)]] assms(1) run(4) by (auto simp: om_wf_def)
    qed
    ultimately show ?thesis by blast
  qed
  then show "faithful_update cfg s st'" and "\<forall>r \<in> set out. m_get (om_records st') (r_ID r) = Some r" by auto
qed

lemma Enqueue_inv:
  assumes inv: "outbox_inv cfg s" and enq: "OutboxMemoryStore_Enqueue msg newID now (sys_store s) = (r, st')"
    and fresh: "\<forall>k. newID = Inr k \<longrightarrow> m_get (om_records (sys_store s)) k = None"
  shows "outbox_inv cfg (s\<lparr>sys_store := st',
       sys_accepted := sys_accepted s \<union> (case r of Inl e \<Rightarrow> {} | Inr k \<Rightarrow> {(k, msg)})\<rparr>)"
proof (cases r)
  case (Inl e)
  then have "st' = sys_store s"
    using enq by (auto simp: OutboxMemoryStore_Enqueue_def split: option.splits if_splits sum.splits)
  with inv Inl show ?thesis by simp
next
  case (Inr k)
  let ?new = "\<lparr>r_ID = k, r_Message = cloneMessage msg, r_Status = StatusPending, r_Attempts = 0,
      r_CreatedAt = now, r_AvailableAt = now, r_DeliveredAt = 0, r_LastError = ''''\<rparr>"
  let ?s = "s\<lparr>sys_store := st', sys_accepted := sys_accepted s \<union> {(k, msg)}\<rparr>"
  have st': "st' = (sys_store s)\<lparr>om_records := m_put k ?new (om_records (sys_store s))\<rparr>" and "newID = Inr k"
    using enq Inr by (auto simp: OutboxMemoryStore_Enqueue_def split: option.splits if_splits sum.splits)
  with fresh have new: "m_get (om_records (sys_store s)) k = None" by blast
  have get: "m_get (om_records st') = (m_get (om_records (sys_store s)))(k \<mapsto> ?new)" by (simp add: st')
  have acc: "accepted_stored s" and just: "stored_justified cfg s" and pub: "published_stored s"
    using inv by (simp_all add: outbox_inv_def)
  have "om_wf st'" using inv by (auto simp: outbox_inv_def om_wf_def st')
  moreover have "accepted_stored ?s"
    using acc new unfolding accepted_stored_def by (fastforce simp: get)
  moreover have "stored_justified cfg ?s"
    using just unfolding stored_justified_def justified_def by (auto simp: get)
  moreover have "version_of ?s rec" if "version_of s rec" for rec
    using that new by (auto simp: version_of_def get)
  moreover have "published_stored ?s"
    using pub new unfolding published_stored_def by (fastforce simp: get)
  ultimately show ?thesis using inv Inr by (simp add: outbox_inv_def answers_published_def)
qed

lemma publish_inv:
  assumes inv: "outbox_inv cfg s" and rec: "rec \<in> set (sys_claimed s)"
  shows "outbox_inv cfg (s\<lparr>sys_claimed := remove1 rec (sys_claimed s), sys_answered := (rec, err) # sys_answered s,
       sys_published := sys_published s \<union> (if err = None then {(r_ID rec, r_Message rec)} else {})\<rparr>)"
proof -
  have "version_of s rec" using inv rec by (simp add: outbox_inv_def)
  then obtain cur where cur: "m_get (om_records (sys_store s)) (r_ID rec) = Some cur" "r_Message cur = r_Message rec"
    by (auto simp: version_of_def)
  let ?p = "sys_published s \<union> (if err = None then {(r_ID rec, r_Message rec)} else {})"
  let ?s = "s\<lparr>sys_claimed := remove1 rec (sys_claimed s), sys_answered := (rec, err) # sys_answered s, sys_published := ?p\<rparr>"
  have "stored_justified cfg ?s" "answers_published ?s"
    using inv by (auto simp: outbox_inv_def stored_justified_def justified_def answers_published_def)
  moreover have "published_stored ?s"
    using inv cur by (auto simp: outbox_inv_def published_stored_def)
  ultimately show ?thesis
    using inv \<open>version_of s rec\<close> set_remove1_subset [of rec "sys_claimed s"] by (auto simp: outbox_inv_def)
qed

lemma outbox_inv_shrink:
  assumes "outbox_inv cfg s" "set claimed \<subseteq> set (sys_claimed s)" "set answered \<subseteq> set (sys_answered s)"
  shows "outbox_inv cfg (s\<lparr>sys_claimed := claimed, sys_answered := answered\<rparr>)"
proof -
  have "set claimed \<union> fst ` set answered \<subseteq> set (sys_claimed s) \<union> fst ` set (sys_answered s)"
    using assms(2,3) by blast
  moreover have "answers_published (s\<lparr>sys_claimed := claimed, sys_answered := answered\<rparr>)"
    using assms(1,3) by (auto simp: outbox_inv_def answers_published_def)
  ultimately show ?thesis
    using assms(1) unfolding outbox_inv_def by auto
qed

lemma outbox_reachable_inv: "outbox_reachable cfg s \<Longrightarrow> outbox_inv cfg s"
proof (induction rule: outbox_reachable.induct)
  case init
  show ?case
    by (simp add: outbox_inv_def om_wf_def Outbox_NewMemoryStore_def accepted_stored_def stored_justified_def
        answers_published_def published_stored_def)
next
  case (enqueue s msg newID now r st')
  then show ?case by (intro Enqueue_inv)
next
  case (fetch s order now out st')
  have wf: "om_wf (sys_store s)" using fetch.IH by (simp add: outbox_inv_def)
  note F = Fetch_faithful [OF wf fetch.hyps(2,3)]
  have "outbox_inv cfg (s\<lparr>sys_store := st'\<rparr>)" by (rule outbox_inv_update [OF fetch.IH F(1)])
  with F(2) show ?case
    by (auto simp: outbox_inv_def accepted_stored_def stored_justified_def justified_def version_of_def
        answers_published_def published_stored_def)
next
  case (publish s rec err)
  then show ?case by (intro publish_inv)
next
  case (settle s rec err order now now')
  have "outbox_inv cfg (s\<lparr>sys_store := fst (Relay_settle (memory_Store order (\<lambda>t. t)) cfg now rec err (sys_store s, now'))\<rparr>)"
    using settle.IH settle_faithful [OF settle.IH settle.hyps(2)] by (rule outbox_inv_update)
  from outbox_inv_shrink [OF this subset_refl set_remove1_subset] show ?case by simp
next
  case (stop s claimed answered)
  then show ?case by (intro outbox_inv_shrink)
next
  case (close s)
  have "faithful_update cfg s (OutboxMemoryStore_Close (sys_store s))"
    using close.IH by (auto simp: faithful_update_def OutboxMemoryStore_Close_def outbox_inv_def om_wf_def intro: option.rel_refl)
  with close.IH show ?case by (rule outbox_inv_update)
qed

text \<open>
  C20. With any number of relays, in every interleaving and with relays stopping anywhere, no message
  whose enqueue succeeded is lost: its record is stored with its message and is still pending, or
  delivered and then the publisher took it, or dead and then all attempts were used. Nothing but
  accepted messages is published.
\<close>

theorem Outbox_at_least_once:
  assumes "outbox_reachable cfg s"
  shows "(\<forall>(k, msg) \<in> sys_accepted s. \<exists>rec. m_get (om_records (sys_store s)) k = Some rec \<and>
       r_Message rec = cloneMessage msg \<and>
       (r_Status rec = StatusPending \<or>
        r_Status rec = StatusDelivered \<and> (k, cloneMessage msg) \<in> sys_published s \<or>
        r_Status rec = StatusDead \<and> MaxAttempts cfg \<le> r_Attempts rec)) \<and>
     sys_published s \<subseteq> (\<lambda>(k, msg). (k, cloneMessage msg)) ` sys_accepted s"
proof -
  have inv: "accepted_stored s" "stored_justified cfg s" "published_stored s"
    using outbox_reachable_inv [OF assms] by (simp_all add: outbox_inv_def)
  have "\<exists>rec. m_get (om_records (sys_store s)) k = Some rec \<and> r_Message rec = cloneMessage msg \<and>
       (r_Status rec = StatusPending \<or>
        r_Status rec = StatusDelivered \<and> (k, cloneMessage msg) \<in> sys_published s \<or>
        r_Status rec = StatusDead \<and> MaxAttempts cfg \<le> r_Attempts rec)" if a: "(k, msg) \<in> sys_accepted s" for k msg
  proof -
    from inv(1) a obtain rec where rec: "m_get (om_records (sys_store s)) k = Some rec" "r_Message rec = cloneMessage msg"
      unfolding accepted_stored_def by blast
    have "justified cfg s k rec" using inv(2) rec(1) by (simp add: stored_justified_def)
    with rec show ?thesis by (cases "r_Status rec") (auto simp: justified_def)
  qed
  moreover have "(k, m) \<in> (\<lambda>(k, msg). (k, cloneMessage msg)) ` sys_accepted s" if p: "(k, m) \<in> sys_published s" for k m
  proof -
    from inv(3) p obtain rec where rec: "m_get (om_records (sys_store s)) k = Some rec" "r_Message rec = m"
      unfolding published_stored_def by blast
    have "justified cfg s k rec" using inv(2) rec(1) by (simp add: stored_justified_def)
    then obtain msg where "(k, msg) \<in> sys_accepted s" "m = cloneMessage msg" using rec(2) by (auto simp: justified_def)
    then show ?thesis by force
  qed
  ultimately show ?thesis by (intro conjI ballI subrelI) (simp_all only: split_paired_all case_prod_conv)
qed

theorem Outbox_at_least_once_witness:
  "let cfg = RelayConfig_withDefaults \<lparr>BatchSize = 0, PollInterval = 0, Visibility = 0, MaxAttempts = 0, BaseBackoff = 0, MaxBackoff = 0\<rparr>;
       msg = \<lparr>Topic = ''t'', Key = '''', Body = [], Headers = []\<rparr>;
       (r, st) = OutboxMemoryStore_Enqueue msg (Inr ''a'') 7 Outbox_NewMemoryStore
   in \<exists>rec. m_get (om_records st) ''a'' = Some rec \<and> r_Message rec = msg \<and>
        (r_Status rec = StatusPending \<or> MaxAttempts cfg \<le> r_Attempts rec)"
proof -
  define cfg where "cfg = RelayConfig_withDefaults \<lparr>BatchSize = 0, PollInterval = 0, Visibility = 0, MaxAttempts = 0, BaseBackoff = 0, MaxBackoff = 0\<rparr>"
  define msg where "msg = \<lparr>Topic = ''t'', Key = '''', Body = [], Headers = []\<rparr>"
  obtain r st where enq: "OutboxMemoryStore_Enqueue msg (Inr ''a'') 7 Outbox_NewMemoryStore = (r, st)"
    by (cases "OutboxMemoryStore_Enqueue msg (Inr ''a'') 7 Outbox_NewMemoryStore")
  have r: "r = Inr ''a''"
    using enq by (auto simp: OutboxMemoryStore_Enqueue_def validateMessage_def msg_def Outbox_NewMemoryStore_def)
  have msg: "cloneMessage msg = msg" by (simp add: cloneMessage_def msg_def)
  have "outbox_reachable cfg \<lparr>sys_store = st, sys_claimed = [], sys_answered = [], sys_accepted = {(''a'', msg)}, sys_published = {}\<rparr>"
    using outbox_reachable.enqueue [OF outbox_reachable.init, of msg "Inr ''a''" 7 r st cfg] enq r
    by (simp add: Outbox_NewMemoryStore_def)
  from Outbox_at_least_once [OF this] obtain rec where "m_get (om_records st) ''a'' = Some rec"
      "r_Message rec = msg" "r_Status rec = StatusPending \<or> MaxAttempts cfg \<le> r_Attempts rec"
    by (auto simp: msg)
  then show ?thesis
    unfolding Let_def cfg_def [symmetric] msg_def [symmetric] enq by auto
qed

section \<open>The relay over the interface\<close>

lemma backoff_loop_eq:
  assumes "0 < delay" "delay < 2 ^ 62" "mx \<le> 2 ^ 62"
  shows "backoff_loop mx k delay =
     (if k = 0 then Inr delay else if delay * 2 ^ k < mx then Inr (delay * 2 ^ k) else Inl mx)"
  using assms
proof (induction k arbitrary: delay)
  case (Suc k)
  have w: "wrap64 (delay * 2) = delay * 2"
    using Suc.prems by (intro wrap64_id) (simp add: int64_range_def)
  show ?case
  proof (cases "delay * 2 \<ge> mx")
    case True
    have "delay * 2 * 1 \<le> delay * 2 * 2 ^ k" using Suc.prems(1) by (intro mult_left_mono) auto
    with True w show ?thesis by (simp add: Let_def)
  next
    case False
    then have "delay * 2 < 2 ^ 62" using Suc.prems(3) by simp
    with Suc.IH [of "delay * 2"] Suc.prems w False show ?thesis by (simp add: Let_def)
  qed
qed simp

lemma Relay_backoff_eq:
  assumes "0 < BaseBackoff cfg" "BaseBackoff cfg < 2 ^ 62" "MaxBackoff cfg \<le> 2 ^ 62"
  shows "Relay_backoff cfg attempts = min (MaxBackoff cfg) (BaseBackoff cfg * 2 ^ nat (attempts - 1))"
proof -
  have "nat ((if attempts < 1 then 1 else attempts) - 1) = nat (attempts - 1)" by simp
  then show ?thesis
    unfolding Relay_backoff_def Let_def backoff_loop_eq [OF assms] by (auto simp: min_def)
qed

text \<open>What settling a claimed record leaves in the store, \<open>t\<close> being the time when the outcome was known.\<close>

definition settled :: "RelayConfig \<Rightarrow> Record \<Rightarrow> goerror option \<Rightarrow> time \<Rightarrow> Record \<Rightarrow> bool" where
  "settled cfg rec err t rec' \<longleftrightarrow>
     (case err of
        None \<Rightarrow> \<exists>t'. rec' = rec\<lparr>r_Status := StatusDelivered, r_DeliveredAt := t', r_LastError := ''''\<rparr>
      | Some e \<Rightarrow>
          rec' = (if MaxAttempts cfg \<le> r_Attempts rec then rec\<lparr>r_Status := StatusDead, r_LastError := error_text e\<rparr>
                  else rec\<lparr>r_AvailableAt := t + Relay_backoff cfg (r_Attempts rec), r_LastError := error_text e\<rparr>))"

text \<open>What the relay relies on: the store hands out distinct stored records and changes only the record it is told to.\<close>

locale outbox_store =
  fixes S :: "'s Store" and view :: "'s \<Rightarrow> string \<Rightarrow> Record option" and live :: "'s \<Rightarrow> bool"
  assumes fetch_law: "live s \<Longrightarrow> 0 < limit \<Longrightarrow> \<exists>out s'. st_Fetch S limit visibility s = (Inr out, s') \<and> live s' \<and>
      distinct (map r_ID out) \<and> int (length out) \<le> limit \<and> (\<forall>r \<in> set out. view s' (r_ID r) = Some r) \<and>
      (\<forall>k. k \<notin> r_ID ` set out \<longrightarrow> view s' k = view s k)"
    and delivered_law: "live s \<Longrightarrow> view s k = Some rec \<Longrightarrow> live (snd (st_MarkDelivered S k s)) \<and>
      (\<exists>t. view (snd (st_MarkDelivered S k s)) =
        (view s)(k \<mapsto> rec\<lparr>r_Status := StatusDelivered, r_DeliveredAt := t, r_LastError := ''''\<rparr>))"
    and retry_law: "live s \<Longrightarrow> view s k = Some rec \<Longrightarrow> live (snd (st_Retry S k t e s)) \<and>
      view (snd (st_Retry S k t e s)) = (view s)(k \<mapsto> rec\<lparr>r_AvailableAt := t, r_LastError := e\<rparr>)"
    and dead_law: "live s \<Longrightarrow> view s k = Some rec \<Longrightarrow> live (snd (st_MarkDead S k e s)) \<and>
      view (snd (st_MarkDead S k e s)) = (view s)(k \<mapsto> rec\<lparr>r_Status := StatusDead, r_LastError := e\<rparr>)"
begin

text \<open>A publisher that leaves the store alone, under a context that does not end.\<close>

definition undisturbing :: "'s relay_env \<Rightarrow> bool" where
  "undisturbing E \<longleftrightarrow> (\<forall>s. re_ctxErr E s = None) \<and>
     (\<forall>m s. live s \<longrightarrow> live (snd (re_Publish E m s)) \<and> view (snd (re_Publish E m s)) = view s)"

lemma settle_view:
  assumes "live s" "view s (r_ID rec) = Some rec"
  shows "live (Relay_settle S cfg t rec err s) \<and>
     (\<exists>rec'. view (Relay_settle S cfg t rec err s) = (view s)(r_ID rec \<mapsto> rec') \<and> settled cfg rec err t rec')"
  using delivered_law [OF assms] retry_law [OF assms] dead_law [OF assms]
  by (cases err) (auto simp: Relay_settle_def settled_def)

lemma process_loop_view:
  assumes "undisturbing E" "live s" "distinct (map r_ID records)" "\<forall>r \<in> set records. view s (r_ID r) = Some r"
    and "process_loop S E cfg records processed s = (r, tr, s')"
  shows "r = (processed + int (length records), None) \<and> map fst tr = records \<and> live s' \<and>
     (\<forall>(rec, err, t) \<in> set tr. \<exists>rec'. view s' (r_ID rec) = Some rec' \<and> settled cfg rec err t rec') \<and>
     (\<forall>k. k \<notin> r_ID ` set records \<longrightarrow> view s' k = view s k)"
  using assms(2-)
proof (induction records arbitrary: processed s r tr s')
  case (Cons rec records)
  obtain err s1 where pub: "re_Publish E (r_Message rec) s = (err, s1)" by (cases "re_Publish E (r_Message rec) s")
  let ?t = "re_now E s1" and ?s2 = "Relay_settle S cfg (re_now E s1) rec err s1"
  obtain r0 tr0 s0 where loop: "process_loop S E cfg records (processed + 1) ?s2 = (r0, tr0, s0)"
    by (cases "process_loop S E cfg records (processed + 1) ?s2")
  have "live (snd (re_Publish E (r_Message rec) s)) \<and> view (snd (re_Publish E (r_Message rec) s)) = view s"
    using assms(1) Cons.prems(1) unfolding undisturbing_def by blast
  then have s1: "live s1" "view s1 = view s" by (simp_all add: pub)
  then obtain rec' where s2: "live ?s2" "view ?s2 = (view s)(r_ID rec \<mapsto> rec')" "settled cfg rec err ?t rec'"
    using settle_view [of s1 rec cfg ?t err] Cons.prems(3) by auto
  have new: "r_ID rec \<notin> r_ID ` set records" "distinct (map r_ID records)" using Cons.prems(2) by auto
  have "view ?s2 (r_ID r) = Some r" if "r \<in> set records" for r
  proof -
    have "r_ID r \<noteq> r_ID rec" using new(1) that by (metis image_eqI)
    then show ?thesis unfolding s2(2) using Cons.prems(3) that by simp
  qed
  then have "\<forall>r \<in> set records. view ?s2 (r_ID r) = Some r" ..
  note IH = Cons.IH [OF s2(1) new(2) this loop]
  have "re_ctxErr E s = None" using assms(1) by (simp add: undisturbing_def)
  then have "process_loop S E cfg (rec # records) processed s = (r0, (rec, err, ?t) # tr0, s0)"
    by (simp add: Relay_deliver_def pub loop)
  then have run: "r = r0" "tr = (rec, err, ?t) # tr0" "s' = s0"
    using Cons.prems(4) by simp_all
  have here: "view s0 (r_ID rec) = Some rec'" using IH new(1) s2(2) by simp
  have "\<forall>(rec, err, t) \<in> set tr. \<exists>rec'. view s' (r_ID rec) = Some rec' \<and> settled cfg rec err t rec'"
    using IH here s2(3) unfolding run by simp
  moreover have "\<forall>k. k \<notin> r_ID ` set (rec # records) \<longrightarrow> view s' k = view s k"
    using IH s2(2) unfolding run by simp
  ultimately show ?case using IH unfolding run by simp
qed simp

end

text \<open>The in-memory store keeps these promises; the scan visits its records in any one order.\<close>

definition range_order :: "OutboxMemoryStore \<Rightarrow> string list" where
  "range_order st = map fst (om_records st)"

definition memory_view :: "OutboxMemoryStore \<times> 'w \<Rightarrow> string \<Rightarrow> Record option" where
  "memory_view s = m_get (om_records (fst s))"

definition memory_live :: "OutboxMemoryStore \<times> 'w \<Rightarrow> bool" where
  "memory_live s \<longleftrightarrow> om_wf (fst s) \<and> \<not> om_closed (fst s)"

lemma memory_Store_sel [simp]:
  "snd (st_MarkDelivered (memory_Store order clock) k s) = (snd (OutboxMemoryStore_MarkDelivered k (clock (snd s)) (fst s)), snd s)"
  "snd (st_Retry (memory_Store order clock) k t e s) = (snd (OutboxMemoryStore_Retry k t e (fst s)), snd s)"
  "snd (st_MarkDead (memory_Store order clock) k e s) = (snd (OutboxMemoryStore_MarkDead k e (fst s)), snd s)"
  by (simp_all add: memory_Store_def split_beta)

lemma mark_wf:
  assumes "om_wf st" "m_get (om_records st) k = Some rec"
    and "r_ID rec' = r_ID rec" "r_Message rec' = r_Message rec"
  shows "om_wf (st\<lparr>om_records := m_put k rec' (om_records st), om_leases := m_del k (om_leases st)\<rparr>)"
  using assms by (intro om_wf_put) (auto simp: om_wf_def)

lemma memory_Fetch:
  assumes "memory_live s" "0 < limit"
  shows "\<exists>out s'. st_Fetch (memory_Store range_order clock) limit visibility s = (Inr out, s') \<and> memory_live s' \<and>
      distinct (map r_ID out) \<and> int (length out) \<le> limit \<and>
      (\<forall>r \<in> set out. memory_view s' (r_ID r) = Some r \<and> due (fst s) (clock (snd s)) (r_ID r) \<and>
         map_option attempted (memory_view s (r_ID r)) = Some r) \<and>
      (\<forall>k. due (fst s) (clock (snd s)) k \<and> k \<notin> r_ID ` set out \<longrightarrow> int (length out) = limit) \<and>
      (\<forall>k. k \<notin> r_ID ` set out \<longrightarrow> memory_view s' k = memory_view s k)"
proof -
  obtain st w where s: "s = (st, w)" by (cases s)
  have st: "om_wf st" "\<not> om_closed st" "distinct (range_order st)"
    using assms(1) by (auto simp: s memory_live_def om_wf_def range_order_def gomap_wf_def)
  obtain res st' where f: "OutboxMemoryStore_Fetch (range_order st) limit visibility (clock w) st = (res, st')"
    by (cases "OutboxMemoryStore_Fetch (range_order st) limit visibility (clock w) st")
  let ?ids = "fetched (range_order st) limit (clock w) st" and ?rec = "\<lambda>k. attempted (the (m_get (om_records st) k))"
  note run = Fetch_run [OF st(1,3,2) assms(2) f]
  have stored: "r_ID (?rec k) = k \<and> m_get (om_records st') k = Some (?rec k) \<and> due st (clock w) k \<and>
      map_option attempted (m_get (om_records st) k) = Some (?rec k)" if "k \<in> set ?ids" for k
    using due_stored [OF fetched_due [OF that]] fetched_due [OF that] st(1) run(4) that by (auto simp: om_wf_def)
  have ids: "map r_ID (map ?rec ?ids) = ?ids" using stored by (simp add: map_idI)
  have set: "r_ID ` set (map ?rec ?ids) = set ?ids" using ids by (metis set_map)
  have "st_Fetch (memory_Store range_order clock) limit visibility s = (Inr (map ?rec ?ids), st', w)"
    using f run(1) by (simp add: s memory_Store_def)
  moreover have "memory_live (st', w)" using run(2,3) st(2) by (simp add: memory_live_def)
  moreover have "distinct ?ids" "int (length ?ids) \<le> limit" using st(3) assms(2) by (simp_all add: fetched_def)
  moreover have "memory_view (st', w) (r_ID r) = Some r \<and> due st (clock w) (r_ID r) \<and>
      map_option attempted (memory_view (st, w) (r_ID r)) = Some r" if "r \<in> set (map ?rec ?ids)" for r
    using that stored by (auto simp: memory_view_def)
  moreover have "int (length (map ?rec ?ids)) = limit" if "due st (clock w) k \<and> k \<notin> r_ID ` set (map ?rec ?ids)" for k
  proof -
    have "set (range_order st) = dom (m_get (om_records st))" by (simp add: range_order_def dom_map_of_conv_image_fst)
    then show ?thesis using fetched_oldest(1) [of "range_order st" st "clock w" k limit] that assms(2) unfolding set by simp
  qed
  moreover have "memory_view (st', w) k = memory_view s k" if "k \<notin> r_ID ` set (map ?rec ?ids)" for k
    using that run(4) unfolding set by (simp add: memory_view_def s)
  ultimately show ?thesis
    unfolding s fst_conv snd_conv
    by (intro exI [of _ "map ?rec ?ids"] exI [of _ "(st', w)"] conjI ballI allI impI) (simp_all only: ids length_map)
qed

interpretation memory_relay: outbox_store "memory_Store range_order clock" memory_view memory_live for clock
proof (unfold_locales, goal_cases)
  case (1 s limit visibility)
  then show ?case using memory_Fetch [of s limit clock visibility] by blast
next
  case (2 s k rec)
  then show ?case
    using mark_wf [of "fst s" k rec] by (auto simp: memory_live_def memory_view_def OutboxMemoryStore_MarkDelivered_def)
next
  case (3 s k rec t e)
  then show ?case
    using mark_wf [of "fst s" k rec] by (auto simp: memory_live_def memory_view_def OutboxMemoryStore_Retry_def)
next
  case (4 s k rec e)
  then show ?case
    using mark_wf [of "fst s" k rec] by (auto simp: memory_live_def memory_view_def OutboxMemoryStore_MarkDead_def)
qed

lemma withDefaults_pos:
  "0 < BatchSize (RelayConfig_withDefaults c)" "0 < PollInterval (RelayConfig_withDefaults c)"
  "0 < Visibility (RelayConfig_withDefaults c)" "0 < MaxAttempts (RelayConfig_withDefaults c)"
  "0 < BaseBackoff (RelayConfig_withDefaults c)" "0 < MaxBackoff (RelayConfig_withDefaults c)"
  by (simp_all add: RelayConfig_withDefaults_def)

text \<open>
  C22. A relay over an open in-memory store, with a publisher that leaves the store alone and a
  context that does not end, processes different due records, all of them or else a full batch, counts one more
  attempt for each and settles it: delivered when published; dead when the failed attempt was the last allowed
  one; otherwise still pending, to be fetched again after the base backoff doubled for each earlier attempt, cut at
  the maximum. Nothing else changes in these records, and no other record changes.
\<close>

theorem Relay_ProcessBatch_settles:
  fixes E :: "(OutboxMemoryStore \<times> 'w) relay_env" and clock :: "'w \<Rightarrow> time"
  defines "S \<equiv> memory_Store range_order clock"
  assumes store: "om_wf st" "\<not> om_closed st"
    and publisher: "\<forall>m s. fst (snd (re_Publish E m s)) = fst s" and ctx: "\<forall>s. re_ctxErr E s = None"
    and backoffs: "BaseBackoff cfg < 2 ^ 62" "MaxBackoff cfg \<le> 2 ^ 62" and cfg: "cfg = RelayConfig_withDefaults c"
    and run: "Relay_ProcessBatch S E cfg (st, w) = ((n, err), tr, (st', w'))"
  shows "err = None \<and> n = int (length tr) \<and> n \<le> BatchSize cfg \<and> distinct (map (r_ID \<circ> fst) tr) \<and>
     (\<forall>k. due st (clock w) k \<and> k \<notin> (r_ID \<circ> fst) ` set tr \<longrightarrow> n = BatchSize cfg) \<and>
     (\<forall>(rec, out, t) \<in> set tr. due st (clock w) (r_ID rec) \<and>
        (\<exists>old. m_get (om_records st) (r_ID rec) = Some old \<and> r_Status old = StatusPending \<and>
           rec = old\<lparr>r_Attempts := r_Attempts old + 1\<rparr>) \<and>
        (\<exists>rec'. m_get (om_records st') (r_ID rec) = Some rec' \<and>
          (case out of
             None \<Rightarrow> (\<exists>t'. rec' = rec\<lparr>r_Status := StatusDelivered, r_DeliveredAt := t', r_LastError := ''''\<rparr>)
           | Some e \<Rightarrow>
               rec' = (if MaxAttempts cfg \<le> r_Attempts rec then rec\<lparr>r_Status := StatusDead, r_LastError := error_text e\<rparr>
                 else rec\<lparr>r_Status := StatusPending, r_LastError := error_text e,
                   r_AvailableAt := t + min (MaxBackoff cfg) (BaseBackoff cfg * 2 ^ nat (r_Attempts rec - 1))\<rparr>)))) \<and>
     (\<forall>k. k \<notin> (r_ID \<circ> fst) ` set tr \<longrightarrow> m_get (om_records st') k = m_get (om_records st) k)"
proof -
  have live: "memory_live (st, w)" using store by (simp add: memory_live_def)
  have E: "memory_relay.undisturbing E"
    using publisher ctx by (auto simp: memory_relay.undisturbing_def memory_live_def memory_view_def)
  have "0 < BatchSize cfg" unfolding cfg by (rule withDefaults_pos)
  from memory_Fetch [OF live this, of clock "Visibility cfg"]
  obtain out s1 where fetch: "st_Fetch S (BatchSize cfg) (Visibility cfg) (st, w) = (Inr out, s1)"
    and s1: "memory_live s1" "distinct (map r_ID out)" "int (length out) \<le> BatchSize cfg"
      "\<forall>r \<in> set out. memory_view s1 (r_ID r) = Some r \<and> due st (clock w) (r_ID r) \<and>
         map_option attempted (memory_view (st, w) (r_ID r)) = Some r"
      "\<forall>k. k \<notin> r_ID ` set out \<longrightarrow> memory_view s1 k = memory_view (st, w) k"
      "\<forall>k. due st (clock w) k \<and> k \<notin> r_ID ` set out \<longrightarrow> int (length out) = BatchSize cfg"
    unfolding S_def by auto
  have "process_loop S E cfg out 0 s1 = ((n, err), tr, (st', w'))"
    using run ctx fetch by (simp add: Relay_ProcessBatch_def)
  with s1(4) have loop: "(n, err) = (0 + int (length out), None)" "map fst tr = out"
      "\<forall>(rec, err, t) \<in> set tr. \<exists>rec'. memory_view (st', w') (r_ID rec) = Some rec' \<and> settled cfg rec err t rec'"
      "\<forall>k. k \<notin> r_ID ` set out \<longrightarrow> memory_view (st', w') k = memory_view s1 k"
    using memory_relay.process_loop_view [OF E s1(1,2), of clock cfg 0 "(n, err)" tr "(st', w')"] unfolding S_def by blast+
  have ids: "map (r_ID \<circ> fst) tr = map r_ID out" "(r_ID \<circ> fst) ` set tr = r_ID ` set out"
    by (simp_all flip: loop(2) add: image_image)
  have "0 < BaseBackoff cfg" unfolding cfg by (rule withDefaults_pos)
  note backoff = Relay_backoff_eq [OF this backoffs]
  have "due st (clock w) (r_ID rec) \<and>
        (\<exists>old. m_get (om_records st) (r_ID rec) = Some old \<and> r_Status old = StatusPending \<and>
           rec = old\<lparr>r_Attempts := r_Attempts old + 1\<rparr>) \<and>
        (\<exists>rec'. m_get (om_records st') (r_ID rec) = Some rec' \<and>
          (case out' of
             None \<Rightarrow> (\<exists>t'. rec' = rec\<lparr>r_Status := StatusDelivered, r_DeliveredAt := t', r_LastError := ''''\<rparr>)
           | Some e \<Rightarrow>
               rec' = (if MaxAttempts cfg \<le> r_Attempts rec then rec\<lparr>r_Status := StatusDead, r_LastError := error_text e\<rparr>
                 else rec\<lparr>r_Status := StatusPending, r_LastError := error_text e,
                   r_AvailableAt := t + min (MaxBackoff cfg) (BaseBackoff cfg * 2 ^ nat (r_Attempts rec - 1))\<rparr>)))"
    if tr: "(rec, out', t) \<in> set tr" for rec out' t
  proof -
    have "rec \<in> set out" using tr loop(2) by force
    then have due: "due st (clock w) (r_ID rec)" and old: "map_option attempted (m_get (om_records st) (r_ID rec)) = Some rec"
      using s1(4) by (auto simp: memory_view_def)
    then obtain old where o: "m_get (om_records st) (r_ID rec) = Some old" "r_Status old = StatusPending" "rec = attempted old"
      using due_stored [OF due] by auto
    obtain rec' where "m_get (om_records st') (r_ID rec) = Some rec'" "settled cfg rec out' t rec'"
      using loop(3) tr by (auto simp: memory_view_def)
    moreover have "r_Status rec = StatusPending" using o by simp
    then have "rec\<lparr>r_Status := StatusPending, r_LastError := e, r_AvailableAt := a\<rparr> = rec\<lparr>r_AvailableAt := a, r_LastError := e\<rparr>" for a e
      by (cases rec) simp
    ultimately show ?thesis
      using due o unfolding settled_def backoff by (cases out') (auto simp: attempted_def)
  qed
  moreover have "\<forall>k. k \<notin> r_ID ` set out \<longrightarrow> m_get (om_records st') k = m_get (om_records st) k"
    using loop(4) s1(5) by (simp add: memory_view_def)
  moreover have "err = None" "n = int (length tr)" "n \<le> BatchSize cfg"
    using loop(1) s1(3) by (simp_all flip: loop(2))
  moreover have "\<forall>k. due st (clock w) k \<and> k \<notin> r_ID ` set out \<longrightarrow> n = BatchSize cfg" using s1(6) loop(1) by simp
  ultimately show ?thesis
    unfolding ids using s1(2) by (intro conjI ballI) (simp_all only: split_paired_all case_prod_conv)
qed

theorem Relay_ProcessBatch_settles_witness:
  "let c = \<lparr>BatchSize = 0, PollInterval = 0, Visibility = 0, MaxAttempts = 0, BaseBackoff = 0, MaxBackoff = 0\<rparr>;
       E = \<lparr>re_Publish = (\<lambda>m s. (Some (Err ''down''), s)), re_now = snd, re_ctxErr = (\<lambda>s. None)\<rparr>;
       rec = \<lparr>r_ID = ''a'', r_Message = \<lparr>Topic = ''t'', Key = '''', Body = [], Headers = []\<rparr>, r_Status = StatusPending,
              r_Attempts = 2, r_CreatedAt = 1, r_AvailableAt = 1, r_DeliveredAt = 0, r_LastError = ''''\<rparr>;
       st = \<lparr>om_records = [(''a'', rec)], om_leases = [], om_closed = False\<rparr>;
       ((n, err), tr, (st', w)) = Relay_ProcessBatch (memory_Store range_order (\<lambda>t. t)) E (RelayConfig_withDefaults c) (st, 5)
   in err = None \<and> n = 1 \<and> m_get (om_records st') ''a'' =
        Some (rec\<lparr>r_Attempts := 3, r_Status := StatusPending, r_LastError := ''down'', r_AvailableAt := 5 + 4 * Second\<rparr>)"
proof -
  define c where "c = \<lparr>BatchSize = 0, PollInterval = 0, Visibility = 0, MaxAttempts = 0, BaseBackoff = 0, MaxBackoff = 0\<rparr>"
  define E :: "(OutboxMemoryStore \<times> time) relay_env"
    where "E = \<lparr>re_Publish = (\<lambda>m s. (Some (Err ''down''), s)), re_now = snd, re_ctxErr = (\<lambda>s. None)\<rparr>"
  define rec where "rec = \<lparr>r_ID = ''a'', r_Message = \<lparr>Topic = ''t'', Key = '''', Body = [], Headers = []\<rparr>, r_Status = StatusPending,
              r_Attempts = 2, r_CreatedAt = 1, r_AvailableAt = 1, r_DeliveredAt = 0, r_LastError = ''''\<rparr>"
  define st where "st = \<lparr>om_records = [(''a'', rec)], om_leases = [], om_closed = False\<rparr>"
  obtain n err tr st' w where run:
    "Relay_ProcessBatch (memory_Store range_order (\<lambda>t. t)) E (RelayConfig_withDefaults c) (st, 5) = ((n, err), tr, (st', w))"
    by (metis prod.exhaust)
  have "om_wf st" "\<not> om_closed st"
    by (auto simp: om_wf_def st_def rec_def gomap_wf_def cloneMessage_def split: if_splits)
  moreover have "\<forall>m s. fst (snd (re_Publish E m s)) = fst s" "\<forall>s. re_ctxErr E s = None" by (simp_all add: E_def)
  moreover have cfg: "BaseBackoff (RelayConfig_withDefaults c) < 2 ^ 62" "MaxBackoff (RelayConfig_withDefaults c) \<le> 2 ^ 62"
      "BatchSize (RelayConfig_withDefaults c) = 100"
    by (simp_all add: c_def RelayConfig_withDefaults_def)
  moreover have "tr = [(attempted rec, Some (Err ''down''), 5)]"
    using run by (auto simp: Relay_ProcessBatch_def Relay_deliver_def E_def memory_Store_def range_order_def OutboxMemoryStore_Fetch_def
      st_def rec_def due_def c_def RelayConfig_withDefaults_def copyRecord_def cloneMessage_def attempted_def Let_def)
  ultimately have "err = None" "n = 1" "m_get (om_records st') (r_ID (attempted rec)) =
      Some (if MaxAttempts (RelayConfig_withDefaults c) \<le> r_Attempts (attempted rec) then (attempted rec)\<lparr>r_Status := StatusDead, r_LastError := ''down''\<rparr>
        else (attempted rec)\<lparr>r_Status := StatusPending, r_LastError := ''down'', r_AvailableAt := 5 + min (MaxBackoff (RelayConfig_withDefaults c))
          (BaseBackoff (RelayConfig_withDefaults c) * 2 ^ nat (r_Attempts (attempted rec) - 1))\<rparr>)"
    using Relay_ProcessBatch_settles [OF _ _ _ _ cfg(1,2) refl run] by auto
  then show ?thesis
    unfolding Let_def c_def [symmetric] E_def [symmetric] rec_def [symmetric] st_def [symmetric] run
    by (simp add: rec_def attempted_def c_def RelayConfig_withDefaults_def)
qed

text \<open>
  The store does not check that the caller still holds the lease: a relay whose lease expired can
  move a record that another relay has delivered to the dead state.
\<close>

lemma MarkDead_after_delivery:
  assumes "\<not> om_closed st" "m_get (om_records st) k = Some rec"
  shows "\<exists>rec'. m_get (om_records (snd (OutboxMemoryStore_MarkDead k e (snd (OutboxMemoryStore_MarkDelivered k now st))))) k = Some rec' \<and>
     r_Status rec' = StatusDead"
  using assms by (simp add: OutboxMemoryStore_MarkDead_def OutboxMemoryStore_MarkDelivered_def)

end
