(* ===== verification/Bloom.thy ===== *)
theory Bloom
  imports Float64 Prelude "HOL-Library.Word"
begin

text \<open>
  Bloom filters (\<^verbatim>\<open>core/bloom\<close>): the positions derived from a 64-bit FNV-1a hash, the in-process filter
  on a packed array of 64-bit words (\<^verbatim>\<open>bloom.go\<close>) and the filter whose bits live in a shared bit store
  (\<^verbatim>\<open>distributed.go\<close>). Words keep their width, indexing out of range is the panic \<open>None\<close>. The main
  results: membership is exactly covering by added positions, hence no false negatives, and the
  shared filter answers as the in-process one.
\<close>

unbundle bit_operations_syntax

section \<open>Sizing and hashing\<close>

text \<open>\<^verbatim>\<open>math.Log\<close> is an argument; \<^verbatim>\<open>math.Ln2\<close> is the constant of the library.\<close>

definition math_Ln2 :: rat where
  "math_Ln2 = 693147180559945309417232121458176568 / 10 ^ 36"

definition optimalParams :: "(float64 \<Rightarrow> float64) \<Rightarrow> 64 word \<Rightarrow> float64 \<Rightarrow> int \<times> int" where
  "optimalParams math_Log n p =
     (let n = (if n = 0 then 1 else n);
          p = (if p \<le> 0 \<or> p \<ge> 1 then fl (1 / 100) else p);
          m = \<lceil>fdiv (- (fmul (float64_of_int (uint n)) (math_Log p))) (fl (math_Ln2 * math_Ln2))\<rceil>;
          m = (if m < 1 then 1 else m);
          x = fmul (fdiv (of_int m) (float64_of_int (uint n))) (fl math_Ln2);
          k = (if x < 0 then - \<lfloor>- x + 1 / 2\<rfloor> else \<lfloor>x + 1 / 2\<rfloor>);
          k = (if k < 1 then 1 else k)
      in (m, k))"

definition fnv64a :: "8 word list \<Rightarrow> 64 word" where
  "fnv64a data = foldl (\<lambda>h c. (h XOR ucast c) * 1099511628211) 14695981039346656037 data"

definition offsets :: "8 word list \<Rightarrow> 64 word \<Rightarrow> int \<Rightarrow> 64 word list" where
  "offsets data bits hashes =
     (let sum = fnv64a data;
          h1 = sum AND 0xffffffff;
          h2 = drop_bit 32 sum;
          h2 = (if h2 = 0 then 0x9e3779b97f4a7c15 else h2)
      in map (\<lambda>i. (h1 + of_nat i * h2) mod bits) [0..<nat hashes])"

section \<open>The in-process filter\<close>

record Filter =
  f_words :: "64 word list"
  f_bits :: "64 word"
  f_hashes :: int
  f_added :: "64 word"

text \<open>The two results of \<open>optimalParams\<close> are converted to \<^verbatim>\<open>uint64\<close> and \<^verbatim>\<open>int\<close>.\<close>

definition Bloom_New :: "(float64 \<Rightarrow> float64) \<Rightarrow> 64 word \<Rightarrow> float64 \<Rightarrow> Filter" where
  "Bloom_New math_Log n p =
     (let (m, k) = optimalParams math_Log n p; bits = word_of_int m
      in \<lparr>f_words = replicate (unat ((bits + 63) div 64)) 0, f_bits = bits, f_hashes = k, f_added = 0\<rparr>)"

fun set_bits :: "64 word list \<Rightarrow> 64 word list \<Rightarrow> 64 word list option" where
  "set_bits [] ws = Some ws"
| "set_bits (off # offs) ws =
     (let i = unat (off div 64) in
      if i < length ws then set_bits offs (ws[i := ws ! i OR push_bit (unat (off mod 64)) 1]) else None)"

fun test_bits :: "64 word list \<Rightarrow> 64 word list \<Rightarrow> bool option" where
  "test_bits [] ws = Some True"
| "test_bits (off # offs) ws =
     (let i = unat (off div 64) in
      if i < length ws
      then if ws ! i AND push_bit (unat (off mod 64)) 1 = 0 then Some False else test_bits offs ws
      else None)"

definition Filter_Add :: "8 word list \<Rightarrow> Filter \<Rightarrow> Filter option" where
  "Filter_Add data f =
     (case set_bits (offsets data (f_bits f) (f_hashes f)) (f_words f) of
        None \<Rightarrow> None
      | Some ws \<Rightarrow> Some (f\<lparr>f_words := ws, f_added := f_added f + 1\<rparr>))"

definition bytes :: "string \<Rightarrow> 8 word list" where
  "bytes s = map of_char s"

definition Filter_AddString :: "string \<Rightarrow> Filter \<Rightarrow> Filter option" where
  "Filter_AddString key = Filter_Add (bytes key)"

definition Filter_Contains :: "8 word list \<Rightarrow> Filter \<Rightarrow> bool option" where
  "Filter_Contains data f = test_bits (offsets data (f_bits f) (f_hashes f)) (f_words f)"

definition Filter_ContainsString :: "string \<Rightarrow> Filter \<Rightarrow> bool option" where
  "Filter_ContainsString key = Filter_Contains (bytes key)"

definition Filter_Reset :: "Filter \<Rightarrow> Filter" where
  "Filter_Reset f = f\<lparr>f_words := map (\<lambda>w. 0) (f_words f), f_added := 0\<rparr>"

record BloomStats =
  bs_Bits :: "64 word"
  bs_Hashes :: int
  bs_Added :: "64 word"

definition Filter_Stats :: "Filter \<Rightarrow> BloomStats" where
  "Filter_Stats f = \<lparr>bs_Bits = f_bits f, bs_Hashes = f_hashes f, bs_Added = f_added f\<rparr>"

section \<open>The shared filter\<close>

text \<open>A bit store over a world \<open>'s\<close>; a nil store is \<open>None\<close>.\<close>

record 's BitStore =
  SetBit :: "string \<Rightarrow> 64 word \<Rightarrow> int \<Rightarrow> 's \<Rightarrow> (goerror + int) \<times> 's"
  GetBit :: "string \<Rightarrow> 64 word \<Rightarrow> 's \<Rightarrow> (goerror + int) \<times> 's"

record 's DistributedFilter =
  d_store :: "'s BitStore option"
  d_key :: string
  d_bits :: "64 word"
  d_hashes :: int

definition ErrStoreNil :: goerror where
  "ErrStoreNil = Err ''bloom: bit store is nil''"

definition NewDistributed ::
  "(float64 \<Rightarrow> float64) \<Rightarrow> 's BitStore option \<Rightarrow> string \<Rightarrow> 64 word \<Rightarrow> float64 \<Rightarrow> 's DistributedFilter" where
  "NewDistributed math_Log store key n p =
     (let (m, k) = optimalParams math_Log n p in \<lparr>d_store = store, d_key = key, d_bits = word_of_int m, d_hashes = k\<rparr>)"

fun dist_set :: "'s BitStore \<Rightarrow> string \<Rightarrow> 64 word list \<Rightarrow> 's \<Rightarrow> goerror option \<times> 's" where
  "dist_set B key [] s = (None, s)"
| "dist_set B key (off # offs) s =
     (case SetBit B key off 1 s of (Inl err, s1) \<Rightarrow> (Some err, s1) | (Inr _, s1) \<Rightarrow> dist_set B key offs s1)"

fun dist_test :: "'s BitStore \<Rightarrow> string \<Rightarrow> 64 word list \<Rightarrow> 's \<Rightarrow> (goerror + bool) \<times> 's" where
  "dist_test B key [] s = (Inr True, s)"
| "dist_test B key (off # offs) s =
     (case GetBit B key off s of
        (Inl err, s1) \<Rightarrow> (Inl err, s1)
      | (Inr b, s1) \<Rightarrow> if b = 0 then (Inr False, s1) else dist_test B key offs s1)"

definition DistributedFilter_Add :: "'s DistributedFilter option \<Rightarrow> 8 word list \<Rightarrow> 's \<Rightarrow> goerror option \<times> 's" where
  "DistributedFilter_Add f data s =
     (case f of
        None \<Rightarrow> (Some ErrStoreNil, s)
      | Some d \<Rightarrow> (case d_store d of
            None \<Rightarrow> (Some ErrStoreNil, s)
          | Some B \<Rightarrow> dist_set B (d_key d) (offsets data (d_bits d) (d_hashes d)) s))"

definition DistributedFilter_Contains :: "'s DistributedFilter option \<Rightarrow> 8 word list \<Rightarrow> 's \<Rightarrow> (goerror + bool) \<times> 's" where
  "DistributedFilter_Contains f data s =
     (case f of
        None \<Rightarrow> (Inl ErrStoreNil, s)
      | Some d \<Rightarrow> (case d_store d of
            None \<Rightarrow> (Inl ErrStoreNil, s)
          | Some B \<Rightarrow> dist_test B (d_key d) (offsets data (d_bits d) (d_hashes d)) s))"

definition DistributedFilter_AddString :: "'s DistributedFilter option \<Rightarrow> string \<Rightarrow> 's \<Rightarrow> goerror option \<times> 's" where
  "DistributedFilter_AddString f key = DistributedFilter_Add f (bytes key)"

definition DistributedFilter_ContainsString :: "'s DistributedFilter option \<Rightarrow> string \<Rightarrow> 's \<Rightarrow> (goerror + bool) \<times> 's" where
  "DistributedFilter_ContainsString f key = DistributedFilter_Contains f (bytes key)"

definition DistributedFilter_Stats :: "'s DistributedFilter option \<Rightarrow> BloomStats" where
  "DistributedFilter_Stats f =
     (case f of
        None \<Rightarrow> \<lparr>bs_Bits = 0, bs_Hashes = 0, bs_Added = 0\<rparr>
      | Some d \<Rightarrow> \<lparr>bs_Bits = d_bits d, bs_Hashes = d_hashes d, bs_Added = 0\<rparr>)"

section \<open>Bits\<close>

definition bit_at :: "64 word list \<Rightarrow> 64 word \<Rightarrow> bool" where
  "bit_at ws off \<longleftrightarrow> bit (ws ! unat (off div 64)) (unat (off mod 64))"

definition in_words :: "64 word list \<Rightarrow> 64 word \<Rightarrow> bool" where
  "in_words ws off \<longleftrightarrow> unat (off div 64) < length ws"

lemma mod64_less: "unat (off mod 64 :: 64 word) < 64"
  by (simp add: unat_mod)

lemma div_mod_inj:
  fixes a b :: "64 word"
  assumes "unat (a div 64) = unat (b div 64)" "unat (a mod 64) = unat (b mod 64)"
  shows "a = b"
proof -
  have "unat a div 64 = unat b div 64" "unat a mod 64 = unat b mod 64"
    using assms by (simp_all add: unat_div unat_mod)
  then have "unat a = unat b" by (metis div_mult_mod_eq)
  then show ?thesis by (simp only: word_unat_eq_iff)
qed

lemma bit_at_update:
  assumes "in_words ws off" "in_words ws o'"
  shows "bit_at (ws[unat (off div 64) := ws ! unat (off div 64) OR push_bit (unat (off mod 64)) 1]) o' \<longleftrightarrow>
     bit_at ws o' \<or> o' = off"
proof (cases "unat (off div 64) = unat (o' div 64)")
  case True
  have "bit (push_bit (unat (off mod 64)) 1 :: 64 word) (unat (o' mod 64)) \<longleftrightarrow> unat (off mod 64) = unat (o' mod 64)"
    using mod64_less [of o'] by (auto simp: bit_simps)
  moreover have "unat (off mod 64) = unat (o' mod 64) \<longleftrightarrow> o' = off"
    using div_mod_inj [OF True] by auto
  ultimately show ?thesis
    using assms True by (simp add: bit_at_def in_words_def bit_or_iff)
next
  case False
  then show ?thesis using assms by (auto simp: bit_at_def in_words_def)
qed

lemma set_bits_spec:
  assumes "\<forall>off \<in> set offs. in_words ws off"
  shows "\<exists>ws'. set_bits offs ws = Some ws' \<and> length ws' = length ws \<and>
     (\<forall>off. in_words ws off \<longrightarrow> (bit_at ws' off \<longleftrightarrow> bit_at ws off \<or> off \<in> set offs))"
  using assms
proof (induction offs arbitrary: ws)
  case (Cons off offs)
  let ?ws = "ws[unat (off div 64) := ws ! unat (off div 64) OR push_bit (unat (off mod 64)) 1]"
  have in_eq: "in_words ?ws = in_words ws" by (simp add: in_words_def fun_eq_iff)
  obtain ws' where ws': "set_bits offs ?ws = Some ws'" "length ws' = length ?ws"
      "\<forall>off. in_words ws off \<longrightarrow> (bit_at ws' off \<longleftrightarrow> bit_at ?ws off \<or> off \<in> set offs)"
    using Cons.IH [of ?ws] Cons.prems unfolding in_eq by auto
  have "in_words ws off" using Cons.prems by simp
  then show ?case
    using ws' bit_at_update [of ws off] by (auto simp: Let_def in_words_def)
qed simp

lemma test_bits_spec:
  assumes "\<forall>off \<in> set offs. in_words ws off"
  shows "test_bits offs ws = Some (\<forall>off \<in> set offs. bit_at ws off)"
  using assms
  by (induction offs) (auto simp: Let_def in_words_def bit_at_def push_bit_of_1 and_exp_eq_0_iff_not_bit)

section \<open>Membership\<close>

definition filter_wf :: "Filter \<Rightarrow> bool" where
  "filter_wf f \<longleftrightarrow> 0 < unat (f_bits f) \<and> unat (f_bits f) \<le> 2 ^ 63 \<and> 1 \<le> f_hashes f \<and>
     length (f_words f) = (unat (f_bits f) + 63) div 64"

text \<open>The positions of some data in a filter, and the positions that are set.\<close>

abbreviation positions :: "Filter \<Rightarrow> 8 word list \<Rightarrow> 64 word set" where
  "positions f data \<equiv> set (offsets data (f_bits f) (f_hashes f))"

definition marks :: "Filter \<Rightarrow> 64 word set" where
  "marks f = {off. unat off < unat (f_bits f) \<and> bit_at (f_words f) off}"

lemma offsets_less: "0 < unat bits \<Longrightarrow> off \<in> set (offsets data bits hashes) \<Longrightarrow> unat off < unat bits"
  by (auto simp: offsets_def Let_def unat_mod)

lemma wf_in_words: "filter_wf f \<Longrightarrow> unat off < unat (f_bits f) \<Longrightarrow> in_words (f_words f) off"
  by (simp add: filter_wf_def in_words_def unat_div)

lemma positions_in_words: "filter_wf f \<Longrightarrow> \<forall>off \<in> positions f data. in_words (f_words f) off"
  using offsets_less wf_in_words by (auto simp: filter_wf_def)

lemma Filter_Add_spec:
  assumes "filter_wf f"
  shows "\<exists>f'. Filter_Add data f = Some f' \<and> filter_wf f' \<and> f_bits f' = f_bits f \<and> f_hashes f' = f_hashes f \<and>
     f_added f' = f_added f + 1 \<and> marks f' = marks f \<union> positions f data"
proof -
  from set_bits_spec [OF positions_in_words [OF assms, of data]]
  obtain ws' where ws': "set_bits (offsets data (f_bits f) (f_hashes f)) (f_words f) = Some ws'"
      "length ws' = length (f_words f)"
      "\<forall>off. in_words (f_words f) off \<longrightarrow> (bit_at ws' off \<longleftrightarrow> bit_at (f_words f) off \<or> off \<in> positions f data)"
    by blast
  moreover have "0 < unat (f_bits f)" using assms by (simp add: filter_wf_def)
  ultimately show ?thesis
    using assms wf_in_words [OF assms] offsets_less
    by (auto simp: Filter_Add_def filter_wf_def marks_def)
qed

lemma Filter_Contains_spec:
  assumes "filter_wf f"
  shows "Filter_Contains data f = Some (positions f data \<subseteq> marks f)"
proof -
  have "0 < unat (f_bits f)" using assms by (simp add: filter_wf_def)
  then show ?thesis
    using test_bits_spec [OF positions_in_words [OF assms, of data]] offsets_less
    by (auto simp: Filter_Contains_def marks_def)
qed

lemma Filter_Reset_spec:
  assumes "filter_wf f"
  shows "filter_wf (Filter_Reset f)" "marks (Filter_Reset f) = {}"
  using assms wf_in_words [OF assms] by (auto simp: filter_wf_def Filter_Reset_def marks_def bit_at_def in_words_def)

lemma positions_nonempty: "filter_wf f \<Longrightarrow> positions f data \<noteq> {}"
  by (auto simp: filter_wf_def offsets_def Let_def)

text \<open>Sizing always gives at least one bit and one hash.\<close>

lemma optimalParams_pos: "1 \<le> fst (optimalParams math_Log n p)" "1 \<le> snd (optimalParams math_Log n p)"
  by (simp_all add: optimalParams_def Let_def)

lemma Bloom_New_wf:
  assumes "fst (optimalParams math_Log n p) \<le> 2 ^ 63"
  shows "filter_wf (Bloom_New math_Log n p)" "marks (Bloom_New math_Log n p) = {}"
proof -
  obtain m k where mk: "optimalParams math_Log n p = (m, k)" by (cases "optimalParams math_Log n p")
  have m: "1 \<le> m" "m \<le> 2 ^ 63" "1 \<le> k"
    using assms optimalParams_pos [of math_Log n p] by (simp_all add: mk)
  have u: "unat (word_of_int m :: 64 word) = nat m"
    using m by (simp add: unat_eq_nat_uint uint_word_of_int take_bit_int_eq_self)
  have "unat ((word_of_int m + 63) div 64 :: 64 word) = (nat m + 63) div 64"
    using m by (simp add: unat_div unat_word_ariths u)
  then show wf: "filter_wf (Bloom_New math_Log n p)"
    using m by (simp add: filter_wf_def Bloom_New_def mk u)
  have "f_words (Bloom_New math_Log n p) = replicate (length (f_words (Bloom_New math_Log n p))) 0"
    by (simp add: Bloom_New_def mk Let_def)
  then have "\<not> bit_at (f_words (Bloom_New math_Log n p)) off" if "unat off < unat (f_bits (Bloom_New math_Log n p))" for off
    using wf_in_words [OF wf that] unfolding bit_at_def in_words_def by (metis bit_0_eq bot_apply bot_bool_def nth_replicate)
  then show "marks (Bloom_New math_Log n p) = {}" by (auto simp: marks_def)
qed

fun add_all :: "8 word list list \<Rightarrow> Filter \<Rightarrow> Filter option" where
  "add_all [] f = Some f"
| "add_all (d # ds) f = (case Filter_Add d f of None \<Rightarrow> None | Some f' \<Rightarrow> add_all ds f')"

lemma add_all_spec:
  assumes "filter_wf f"
  shows "\<exists>f'. add_all ds f = Some f' \<and> filter_wf f' \<and> f_bits f' = f_bits f \<and> f_hashes f' = f_hashes f \<and>
     f_added f' = f_added f + of_nat (length ds) \<and> marks f' = marks f \<union> (\<Union>d \<in> set ds. positions f d)"
  using assms
proof (induction ds arbitrary: f)
  case (Cons d ds)
  from Filter_Add_spec [OF Cons.prems, of d] obtain f1 where f1: "Filter_Add d f = Some f1" "filter_wf f1"
      "f_bits f1 = f_bits f" "f_hashes f1 = f_hashes f" "f_added f1 = f_added f + 1" "marks f1 = marks f \<union> positions f d"
    by blast
  from Cons.IH [OF f1(2)] f1 show ?case by (auto simp: add.assoc)
qed simp

text \<open>
  C23. Adding any data to a well-formed filter never panics, and afterwards \<^verbatim>\<open>Contains\<close> answers true
  exactly for the data all of whose positions were set before or by the added data: there are no
  false negatives, and a filter that was reset contains nothing.
\<close>

theorem Bloom_membership_exact:
  assumes "filter_wf f"
  shows "\<exists>f'. add_all ds f = Some f' \<and> filter_wf f' \<and>
     (\<forall>d. Filter_Contains d f' = Some (positions f d \<subseteq> marks f \<union> (\<Union>d' \<in> set ds. positions f d'))) \<and>
     (\<forall>d \<in> set ds. Filter_Contains d f' = Some True) \<and>
     (\<forall>d. Filter_Contains d (Filter_Reset f') = Some False)"
proof -
  from add_all_spec [OF assms, of ds] obtain f' where f': "add_all ds f = Some f'" "filter_wf f'"
      "f_bits f' = f_bits f" "f_hashes f' = f_hashes f" "marks f' = marks f \<union> (\<Union>d \<in> set ds. positions f d)"
    by blast
  have "Filter_Contains d f' = Some (positions f d \<subseteq> marks f \<union> (\<Union>d' \<in> set ds. positions f d'))" for d
    using Filter_Contains_spec [OF f'(2)] f'(3-5) by simp
  moreover have "positions f d \<subseteq> marks f \<union> (\<Union>d' \<in> set ds. positions f d')" if "d \<in> set ds" for d
    using that by blast
  moreover have "Filter_Contains d (Filter_Reset f') = Some False" for d
    using Filter_Contains_spec [OF Filter_Reset_spec(1) [OF f'(2)]] Filter_Reset_spec [OF f'(2)]
      positions_nonempty [OF Filter_Reset_spec(1) [OF f'(2)]] by simp
  ultimately show ?thesis using f'(1,2) by auto
qed

theorem Bloom_membership_exact_witness:
  "let f = \<lparr>f_words = [0, 0], f_bits = 100, f_hashes = 3, f_added = 0\<rparr>
   in \<exists>f'. add_all [bytes ''user:1'', bytes ''user:2''] f = Some f' \<and> Filter_Contains (bytes ''user:1'') f' = Some True"
proof -
  let ?f = "\<lparr>f_words = [0, 0], f_bits = 100, f_hashes = 3, f_added = 0\<rparr>"
  have "filter_wf ?f" by (simp add: filter_wf_def)
  from Bloom_membership_exact [OF this, of "[bytes ''user:1'', bytes ''user:2'']"] show ?thesis
    unfolding Let_def by auto
qed

section \<open>A filter as a guard\<close>

text \<open>
  What a client such as the cache relies on: lookups and insertions of good filters return, an
  inserted key is contained, and insertions never hide a key.
\<close>

locale membership_guard =
  fixes contains :: "string \<Rightarrow> 'f \<Rightarrow> bool option" and insert_key :: "string \<Rightarrow> 'f \<Rightarrow> 'f option" and good :: "'f \<Rightarrow> bool"
  assumes contains_total: "good f \<Longrightarrow> contains k f \<noteq> None"
    and insert_law: "good f \<Longrightarrow> \<exists>f'. insert_key k f = Some f' \<and> good f' \<and> contains k f' = Some True"
    and insert_keeps: "good f \<Longrightarrow> insert_key k f = Some f' \<Longrightarrow> contains k' f = Some True \<Longrightarrow> contains k' f' = Some True"
begin

fun insert_all :: "string list \<Rightarrow> 'f \<Rightarrow> 'f option" where
  "insert_all [] f = Some f"
| "insert_all (k # ks) f = (case insert_key k f of None \<Rightarrow> None | Some f' \<Rightarrow> insert_all ks f')"

lemma insert_all_contains:
  "good f \<Longrightarrow> \<exists>f'. insert_all ks f = Some f' \<and> good f' \<and>
     (\<forall>k. k \<in> set ks \<or> contains k f = Some True \<longrightarrow> contains k f' = Some True)"
proof (induction ks arbitrary: f)
  case (Cons k ks)
  from insert_law [OF Cons.prems, of k] obtain f1 where f1: "insert_key k f = Some f1" "good f1" "contains k f1 = Some True"
    by blast
  from Cons.IH [OF f1(2)] obtain f' where f': "insert_all ks f1 = Some f'" "good f'"
      "\<forall>k. k \<in> set ks \<or> contains k f1 = Some True \<longrightarrow> contains k f' = Some True" by blast
  then show ?case using f1 insert_keeps [OF Cons.prems f1(1)] by auto
qed simp

end

interpretation bloom: membership_guard Filter_ContainsString Filter_AddString filter_wf
proof (unfold_locales, goal_cases)
  case (1 f k)
  then show ?case by (simp add: Filter_ContainsString_def Filter_Contains_spec)
next
  case (2 f k)
  from Filter_Add_spec [OF 2, of "bytes k"] obtain f' where "Filter_Add (bytes k) f = Some f'" "filter_wf f'"
      "f_bits f' = f_bits f" "f_hashes f' = f_hashes f" "marks f' = marks f \<union> positions f (bytes k)" by blast
  then show ?case by (auto simp: Filter_AddString_def Filter_ContainsString_def Filter_Contains_spec)
next
  case (3 f k f' k')
  from Filter_Add_spec [OF 3(1), of "bytes k"] 3 show ?case
    by (auto simp: Filter_AddString_def Filter_ContainsString_def Filter_Contains_spec)
qed

section \<open>The shared filter answers as the in-process one\<close>

text \<open>
  The documented behaviour of the bit store (Redis \<^verbatim>\<open>SETBIT\<close>/\<^verbatim>\<open>GETBIT\<close>) while it is reachable: a bit per
  key and offset, \<open>cell\<close>, that reads back what was written.
\<close>

definition bitmap :: "'s BitStore \<Rightarrow> ('s \<Rightarrow> string \<Rightarrow> 64 word \<Rightarrow> bool) \<Rightarrow> bool" where
  "bitmap B cell \<longleftrightarrow>
     (\<forall>key off s. \<exists>old s'. SetBit B key off 1 s = (Inr old, s') \<and>
        (\<forall>key' off'. cell s' key' off' \<longleftrightarrow> cell s key' off' \<or> key' = key \<and> off' = off)) \<and>
     (\<forall>key off s. GetBit B key off s = (Inr (if cell s key off then 1 else 0), s))"

lemma bitmap_SetBit:
  assumes "bitmap B cell"
  obtains old s' where "SetBit B key off 1 s = (Inr old, s')"
    "\<And>key' off'. cell s' key' off' \<longleftrightarrow> cell s key' off' \<or> key' = key \<and> off' = off"
  using assms unfolding bitmap_def by blast

lemma dist_set_spec:
  assumes "bitmap B cell"
  shows "\<exists>s'. dist_set B key offs s = (None, s') \<and>
     (\<forall>key' off'. cell s' key' off' \<longleftrightarrow> cell s key' off' \<or> key' = key \<and> off' \<in> set offs)"
proof (induction offs arbitrary: s)
  case (Cons off offs)
  obtain old s1 where s1: "SetBit B key off 1 s = (Inr old, s1)"
      "\<And>key' off'. cell s1 key' off' \<longleftrightarrow> cell s key' off' \<or> key' = key \<and> off' = off"
    using bitmap_SetBit [OF assms] by blast
  from Cons.IH [of s1] obtain s' where "dist_set B key offs s1 = (None, s')"
      "\<forall>key' off'. cell s' key' off' \<longleftrightarrow> cell s1 key' off' \<or> key' = key \<and> off' \<in> set offs"
    by blast
  with s1 show ?case by auto
qed simp

lemma dist_test_spec:
  assumes "bitmap B cell"
  shows "dist_test B key offs s = (Inr (\<forall>off \<in> set offs. cell s key off), s)"
  using assms by (induction offs) (auto simp: bitmap_def)

fun dist_add_all :: "'s DistributedFilter \<Rightarrow> 8 word list list \<Rightarrow> 's \<Rightarrow> goerror option \<times> 's" where
  "dist_add_all d [] s = (None, s)"
| "dist_add_all d (x # xs) s =
     (case DistributedFilter_Add (Some d) x s of (Some e, s1) \<Rightarrow> (Some e, s1) | (None, s1) \<Rightarrow> dist_add_all d xs s1)"

text \<open>The in-process filter and the shared bits agree.\<close>

definition same_marks :: "('s \<Rightarrow> string \<Rightarrow> 64 word \<Rightarrow> bool) \<Rightarrow> 's DistributedFilter \<Rightarrow> Filter \<Rightarrow> 's \<Rightarrow> bool" where
  "same_marks cell d f s \<longleftrightarrow> d_bits d = f_bits f \<and> d_hashes d = f_hashes f \<and>
     (\<forall>off. unat off < unat (f_bits f) \<longrightarrow> (cell s (d_key d) off \<longleftrightarrow> off \<in> marks f))"

lemma same_marks_Add:
  assumes "bitmap B cell" "d_store d = Some B" "filter_wf f" "same_marks cell d f s"
  shows "\<exists>f' s'. Filter_Add x f = Some f' \<and> filter_wf f' \<and> DistributedFilter_Add (Some d) x s = (None, s') \<and> same_marks cell d f' s'"
proof -
  from Filter_Add_spec [OF assms(3), of x] obtain f' where f': "Filter_Add x f = Some f'" "filter_wf f'"
      "f_bits f' = f_bits f" "f_hashes f' = f_hashes f" "marks f' = marks f \<union> positions f x" by blast
  have eq: "d_bits d = f_bits f" "d_hashes d = f_hashes f" using assms(4) by (simp_all add: same_marks_def)
  from dist_set_spec [OF assms(1), of "d_key d" "offsets x (f_bits f) (f_hashes f)" s]
  obtain s' where s': "dist_set B (d_key d) (offsets x (f_bits f) (f_hashes f)) s = (None, s')"
      "\<forall>key' off'. cell s' key' off' \<longleftrightarrow> cell s key' off' \<or> key' = d_key d \<and> off' \<in> positions f x"
    by blast
  have "same_marks cell d f' s'" using assms(4) f'(3-5) s'(2) by (auto simp: same_marks_def)
  with f'(1,2) s'(1) show ?thesis by (auto simp: DistributedFilter_Add_def assms(2) eq)
qed

lemma same_marks_Contains:
  assumes "bitmap B cell" "d_store d = Some B" "filter_wf f" "same_marks cell d f s"
  shows "DistributedFilter_Contains (Some d) x s = (Inr (the (Filter_Contains x f)), s)"
proof -
  have eq: "d_bits d = f_bits f" "d_hashes d = f_hashes f" using assms(4) by (simp_all add: same_marks_def)
  have "0 < unat (f_bits f)" using assms(3) by (simp add: filter_wf_def)
  then have "(\<forall>off \<in> positions f x. cell s (d_key d) off) \<longleftrightarrow> positions f x \<subseteq> marks f"
    using assms(4) offsets_less by (auto simp: same_marks_def)
  then show ?thesis
    by (simp add: DistributedFilter_Contains_def assms(2) eq dist_test_spec [OF assms(1)] Filter_Contains_spec [OF assms(3)])
qed

text \<open>
  C24. While its bit store behaves as a bitmap, the shared filter is equivalent to the in-process one:
  started from equal bits and sizing, after adding the same data both succeed and answer every
  membership question alike.
\<close>

theorem DistributedFilter_equiv:
  assumes "bitmap B cell" "d_store d = Some B" "filter_wf f" "same_marks cell d f s"
  shows "\<exists>f' s'. add_all xs f = Some f' \<and> dist_add_all d xs s = (None, s') \<and>
     (\<forall>x. DistributedFilter_Contains (Some d) x s' = (Inr (the (Filter_Contains x f')), s') \<and> Filter_Contains x f' \<noteq> None)"
  using assms(3,4)
proof (induction xs arbitrary: f s)
  case Nil
  then show ?case using same_marks_Contains [OF assms(1,2) Nil] by (simp add: Filter_Contains_spec)
next
  case (Cons x xs)
  from same_marks_Add [OF assms(1,2) Cons.prems, of x] obtain f1 s1 where
      "Filter_Add x f = Some f1" "filter_wf f1" "DistributedFilter_Add (Some d) x s = (None, s1)" "same_marks cell d f1 s1"
    by blast
  with Cons.IH [of f1 s1] show ?case by simp
qed

theorem DistributedFilter_equiv_witness:
  "let B = \<lparr>SetBit = (\<lambda>key off v s. (Inr 0, s(key := insert off (s key)))), GetBit = (\<lambda>key off s. (Inr (if off \<in> s key then 1 else 0), s))\<rparr>;
       d = \<lparr>d_store = Some B, d_key = ''bloom'', d_bits = 100, d_hashes = 3\<rparr>;
       f = \<lparr>f_words = [0, 0], f_bits = 100, f_hashes = 3, f_added = 0\<rparr>
   in \<exists>f' s'. add_all [bytes ''a''] f = Some f' \<and> dist_add_all d [bytes ''a''] (\<lambda>key. {}) = (None, s') \<and>
        DistributedFilter_Contains (Some d) (bytes ''b'') s' = (Inr (the (Filter_Contains (bytes ''b'') f')), s')"
proof -
  let ?B = "\<lparr>SetBit = (\<lambda>key off v (s :: string \<Rightarrow> 64 word set). (Inr 0, s(key := insert off (s key)))),
      GetBit = (\<lambda>key off s. (Inr (if off \<in> s key then 1 else 0), s))\<rparr>"
  let ?d = "\<lparr>d_store = Some ?B, d_key = ''bloom'', d_bits = 100, d_hashes = 3\<rparr>"
  let ?f = "\<lparr>f_words = [0, 0], f_bits = 100, f_hashes = 3, f_added = 0\<rparr>"
  have wf: "filter_wf ?f" by (simp add: filter_wf_def)
  have "bit_at [0, 0] off = False" if "in_words [0, 0] off" for off
    using that by (auto simp: bit_at_def in_words_def less_Suc_eq numeral_2_eq_2)
  then have "marks ?f = {}" using wf_in_words [OF wf] by (auto simp: marks_def)
  moreover have "bitmap ?B (\<lambda>s key off. off \<in> s key)" by (auto simp: bitmap_def)
  ultimately show ?thesis
    using DistributedFilter_equiv [of ?B "\<lambda>s key off. off \<in> s key" ?d ?f "\<lambda>key. {}" "[bytes ''a'']"] wf
    unfolding Let_def by (auto simp: same_marks_def)
qed

end
