(* ===== verification/SingleFlight.thy ===== *)
theory SingleFlight
  imports Prelude
begin

text \<open>
  The single-flight group (\<^verbatim>\<open>core/syncx/singleflight.go\<close>): concurrent calls for one key share one
  execution of the function. A call record is a pointer in Go; here it is an index into a heap of
  records. \<^verbatim>\<open>Do\<close> is split at its synchronisation points: entering under the mutex, taking the
  registration back under the mutex once the function is over, closing the channel, and the waiters'
  select. The step relation interleaves any number of callers.
\<close>

section \<open>The group\<close>

text \<open>How the function ended: a value and an error, or a panic.\<close>

datatype 'v outcome = Returned 'v "goerror option" | Panicked string

record 'v call =
  c_outcome :: "'v outcome option"
  c_done :: bool
  c_shared :: bool

record 'v Group =
  g_calls :: "(string, nat) gomap"
  g_heap :: "'v call list"

definition Group_zero :: "'v Group" where
  "Group_zero = \<lparr>g_calls = [], g_heap = []\<rparr>"

text \<open>What the first part of \<^verbatim>\<open>Do\<close> decides for the caller.\<close>

datatype entered = Refused goerror | Alone | Waits nat | Leads nat

definition Do_enter :: "goerror option \<Rightarrow> string \<Rightarrow> 'v Group \<Rightarrow> entered \<times> 'v Group" where
  "Do_enter ctxErr key g =
     (case ctxErr of
        Some err \<Rightarrow> (Refused err, g)
      | None \<Rightarrow>
          if key = '''' then (Alone, g)
          else case m_get (g_calls g) key of
              Some c \<Rightarrow> (Waits c, g\<lparr>g_heap := (g_heap g)[c := (g_heap g ! c)\<lparr>c_shared := True\<rparr>]\<rparr>)
            | None \<Rightarrow>
                (Leads (length (g_heap g)),
                 g\<lparr>g_calls := m_put key (length (g_heap g)) (g_calls g),
                   g_heap := g_heap g @ [\<lparr>c_outcome = None, c_done = False, c_shared = False\<rparr>]\<rparr>))"

text \<open>The end of the leader's function and the locked part of the deferred closure; returns \<^verbatim>\<open>shared\<close>.\<close>

definition Do_unregister :: "string \<Rightarrow> nat \<Rightarrow> 'v outcome \<Rightarrow> 'v Group \<Rightarrow> bool \<times> 'v Group" where
  "Do_unregister key c out g =
     (c_shared (g_heap g ! c),
      g\<lparr>g_heap := (g_heap g)[c := (g_heap g ! c)\<lparr>c_outcome := Some out\<rparr>], g_calls := m_del key (g_calls g)\<rparr>)"

definition Do_close :: "nat \<Rightarrow> 'v Group \<Rightarrow> 'v Group" where
  "Do_close c g = g\<lparr>g_heap := (g_heap g)[c := (g_heap g ! c)\<lparr>c_done := True\<rparr>]\<rparr>"

text \<open>The waiter's select; \<open>cancelled\<close> is the context error when that case is taken; \<open>None\<close> is still blocked.\<close>

definition Do_wait :: "goerror option \<Rightarrow> nat \<Rightarrow> 'v Group \<Rightarrow> (goerror + 'v outcome) option" where
  "Do_wait cancelled c g =
     (case cancelled of
        Some err \<Rightarrow> Some (Inl err)
      | None \<Rightarrow> if c_done (g_heap g ! c) then map_option Inr (c_outcome (g_heap g ! c)) else None)"

definition Group_Forget :: "string \<Rightarrow> 'v Group \<Rightarrow> 'v Group" where
  "Group_Forget key g = g\<lparr>g_calls := m_del key (g_calls g)\<rparr>"

section \<open>Interleavings\<close>

text \<open>
  Callers are numbers. \<open>leading c\<close> is the caller executing the function for call \<open>c\<close> and its key,
  \<open>closing c\<close> the one that has taken the registration back and not yet closed the channel; \<open>waiting\<close>
  are in the select. \<open>led\<close> and \<open>joined\<close> record the outcomes of leaders and of the waiters that saw
  the channel closed.
\<close>

record 'v flights =
  fl_group :: "'v Group"
  leading :: "nat \<rightharpoonup> nat \<times> string"
  closing :: "nat \<rightharpoonup> nat \<times> string"
  waiting :: "(nat \<times> string \<times> nat) set"
  led :: "nat \<rightharpoonup> 'v outcome"
  joined :: "(nat \<times> 'v outcome) set"

inductive flights_reach :: "bool \<Rightarrow> 'v flights \<Rightarrow> bool" for forgets where
  start: "flights_reach forgets \<lparr>fl_group = Group_zero, leading = Map.empty, closing = Map.empty, waiting = {},
     led = Map.empty, joined = {}\<rparr>"
| lead: "flights_reach forgets s \<Longrightarrow> Do_enter None key (fl_group s) = (Leads c, g) \<Longrightarrow>
     flights_reach forgets (s\<lparr>fl_group := g, leading := (leading s)(c \<mapsto> (i, key))\<rparr>)"
| join: "flights_reach forgets s \<Longrightarrow> Do_enter None key (fl_group s) = (Waits c, g) \<Longrightarrow>
     flights_reach forgets (s\<lparr>fl_group := g, waiting := insert (i, key, c) (waiting s)\<rparr>)"
| finish: "flights_reach forgets s \<Longrightarrow> leading s c = Some (i, key) \<Longrightarrow> Do_unregister key c out (fl_group s) = (sh, g) \<Longrightarrow>
     flights_reach forgets (s\<lparr>fl_group := g, leading := (leading s)(c := None), closing := (closing s)(c \<mapsto> (i, key)),
       led := (led s)(c \<mapsto> out)\<rparr>)"
| wake: "flights_reach forgets s \<Longrightarrow> closing s c = Some (i, key) \<Longrightarrow>
     flights_reach forgets (s\<lparr>fl_group := Do_close c (fl_group s), closing := (closing s)(c := None)\<rparr>)"
| share: "flights_reach forgets s \<Longrightarrow> (i, key, c) \<in> waiting s \<Longrightarrow> Do_wait None c (fl_group s) = Some (Inr out) \<Longrightarrow>
     flights_reach forgets (s\<lparr>waiting := waiting s - {(i, key, c)}, joined := insert (c, out) (joined s)\<rparr>)"
| cancel: "flights_reach forgets s \<Longrightarrow> (i, key, c) \<in> waiting s \<Longrightarrow> Do_wait (Some e) c (fl_group s) = Some (Inl e) \<Longrightarrow>
     flights_reach forgets (s\<lparr>waiting := waiting s - {(i, key, c)}\<rparr>)"
| forget: "flights_reach forgets s \<Longrightarrow> forgets \<Longrightarrow>
     flights_reach forgets (s\<lparr>fl_group := Group_Forget key (fl_group s)\<rparr>)"

section \<open>One execution per key\<close>

text \<open>
  The registered calls are exactly those being led; every call is led, being closed, or closed, and
  its outcome is known exactly when it is no longer led.
\<close>

definition registered_inv :: "'v flights \<Rightarrow> bool" where
  "registered_inv s \<longleftrightarrow>
     (\<forall>k c. m_get (g_calls (fl_group s)) k = Some c \<longrightarrow> (\<exists>i. leading s c = Some (i, k))) \<and>
     (\<forall>i k c. leading s c = Some (i, k) \<longrightarrow> m_get (g_calls (fl_group s)) k = Some c)"

definition heap_inv :: "'v flights \<Rightarrow> bool" where
  "heap_inv s \<longleftrightarrow> dom (leading s) \<union> dom (closing s) \<union> dom (led s) \<union> (\<lambda>(i, k, c). c) ` waiting s \<subseteq> {..<length (g_heap (fl_group s))}"

definition outcome_inv :: "'v flights \<Rightarrow> bool" where
  "outcome_inv s \<longleftrightarrow> (\<forall>c < length (g_heap (fl_group s)).
     c_outcome (g_heap (fl_group s) ! c) = led s c \<and>
     (leading s c \<noteq> None \<longrightarrow> led s c = None \<and> closing s c = None) \<and>
     (leading s c = None \<longrightarrow> led s c \<noteq> None \<and> (closing s c = None \<longrightarrow> c_done (g_heap (fl_group s) ! c))))"

definition joined_inv :: "'v flights \<Rightarrow> bool" where
  "joined_inv s \<longleftrightarrow> (\<forall>(c, out) \<in> joined s. led s c = Some out)"

lemma nth_update_same:
  assumes "f (h (xs ! c)) = f (xs ! c)"
  shows "f (xs[c := h (xs ! c)] ! d) = f (xs ! d)"
  using assms by (cases "c < length xs") (auto simp: nth_list_update list_update_beyond)

lemma Do_enter_Leads:
  assumes "Do_enter e key g = (Leads c, g')"
  shows "e = None" "key \<noteq> ''''" "m_get (g_calls g) key = None" "c = length (g_heap g)"
    "m_get (g_calls g') = (m_get (g_calls g))(key \<mapsto> c)"
    "g_heap g' = g_heap g @ [\<lparr>c_outcome = None, c_done = False, c_shared = False\<rparr>]"
  using assms by (auto simp: Do_enter_def split: option.splits if_splits)

lemma Do_enter_Waits:
  assumes "Do_enter e key g = (Waits c, g')"
  shows "e = None" "m_get (g_calls g) key = Some c" "g_calls g' = g_calls g" "length (g_heap g') = length (g_heap g)"
    "c_outcome (g_heap g' ! d) = c_outcome (g_heap g ! d)" "c_done (g_heap g' ! d) = c_done (g_heap g ! d)"
proof -
  show "e = None" "m_get (g_calls g) key = Some c" "g_calls g' = g_calls g" "length (g_heap g') = length (g_heap g)"
    using assms by (auto simp: Do_enter_def split: option.splits if_splits)
  have "g_heap g' = (g_heap g)[c := (g_heap g ! c)\<lparr>c_shared := True\<rparr>]"
    using assms by (auto simp: Do_enter_def split: option.splits if_splits)
  then show "c_outcome (g_heap g' ! d) = c_outcome (g_heap g ! d)" "c_done (g_heap g' ! d) = c_done (g_heap g ! d)"
    using nth_update_same [of c_outcome "c_shared_update (\<lambda>_. True)" "g_heap g" c d]
      nth_update_same [of c_done "c_shared_update (\<lambda>_. True)" "g_heap g" c d] by simp_all
qed

lemma Do_unregister_run:
  assumes "Do_unregister key c out g = (sh, g')" "c < length (g_heap g)"
  shows "m_get (g_calls g') = (m_get (g_calls g))(key := None)" "length (g_heap g') = length (g_heap g)"
    "c_outcome (g_heap g' ! d) = (if d = c then Some out else c_outcome (g_heap g ! d))"
    "c_done (g_heap g' ! d) = c_done (g_heap g ! d)"
  using assms by (auto simp: Do_unregister_def nth_list_update split: if_splits)

lemma Do_close_run [simp]:
  "g_calls (Do_close c g) = g_calls g" "length (g_heap (Do_close c g)) = length (g_heap g)"
  "c_outcome (g_heap (Do_close c g) ! d) = c_outcome (g_heap g ! d)"
  using nth_update_same [of c_outcome "c_done_update (\<lambda>_. True)" "g_heap g" c d] by (simp_all add: Do_close_def)

lemma Do_close_done:
  "c < length (g_heap g) \<Longrightarrow> c_done (g_heap (Do_close c g) ! d) \<longleftrightarrow> d = c \<or> c_done (g_heap g ! d)"
  by (auto simp: Do_close_def nth_list_update)

lemma registered_inv_reach: "flights_reach False s \<Longrightarrow> registered_inv s \<and> heap_inv s"
proof (induction rule: flights_reach.induct)
  case start
  show ?case by (simp add: registered_inv_def heap_inv_def Group_zero_def)
next
  case (lead s key c g i)
  note run = Do_enter_Leads [OF lead.hyps(2)]
  have "leading s c = None" using lead.IH run(4) by (auto simp: heap_inv_def)
  then have "\<forall>k. m_get (g_calls (fl_group s)) k \<noteq> Some c"
    using lead.IH unfolding registered_inv_def by (metis option.distinct(1))
  then have "registered_inv (s\<lparr>fl_group := g, leading := (leading s)(c \<mapsto> (i, key))\<rparr>)"
    using lead.IH run(3) unfolding registered_inv_def by (auto simp: run(5))
  moreover have "heap_inv (s\<lparr>fl_group := g, leading := (leading s)(c \<mapsto> (i, key))\<rparr>)"
    using lead.IH unfolding heap_inv_def by (simp add: run(4,6) lessThan_Suc) blast
  ultimately show ?case by blast
next
  case (join s key c g i)
  note run = Do_enter_Waits [OF join.hyps(2)]
  obtain j where "leading s c = Some (j, key)" using join.IH run(2) unfolding registered_inv_def by blast
  then have "c < length (g_heap (fl_group s))" using join.IH by (auto simp: heap_inv_def)
  then show ?case using join.IH by (auto simp: registered_inv_def heap_inv_def run(3,4))
next
  case (finish s c i key out sh g)
  have c: "c < length (g_heap (fl_group s))" using finish by (auto simp: heap_inv_def)
  note run = Do_unregister_run [OF finish.hyps(3) c]
  have reg: "m_get (g_calls (fl_group s)) k = Some d \<longleftrightarrow> (\<exists>j. leading s d = Some (j, k))" for k d
    using finish.IH unfolding registered_inv_def by blast
  let ?s = "s\<lparr>fl_group := g, leading := (leading s)(c := None), closing := (closing s)(c \<mapsto> (i, key)), led := (led s)(c \<mapsto> out)\<rparr>"
  have "\<exists>j. leading ?s d = Some (j, k)" if "m_get (g_calls (fl_group ?s)) k = Some d" for k d
  proof -
    have k: "k \<noteq> key" "m_get (g_calls (fl_group s)) k = Some d" using that by (auto simp: run(1) split: if_splits)
    then have "d \<noteq> c" using reg [of k c] finish.hyps(2) by auto
    then show ?thesis using k(2) reg [of k d] by simp
  qed
  moreover have "m_get (g_calls (fl_group ?s)) k = Some d" if "leading ?s d = Some (j, k)" for j k d
  proof -
    have d: "d \<noteq> c" "leading s d = Some (j, k)" using that by (auto split: if_splits)
    then have get: "m_get (g_calls (fl_group s)) k = Some d" using reg by blast
    then have "k \<noteq> key" using reg [of key c] finish.hyps(2) d(1) by auto
    then show ?thesis using get by (simp add: run(1))
  qed
  ultimately have "registered_inv ?s" by (simp only: registered_inv_def) blast
  then show ?case using finish.IH c by (auto simp: heap_inv_def run(2))
next
  case (wake s c i key)
  then show ?case by (auto simp: registered_inv_def heap_inv_def)
next
  case (share s i key c out)
  then show ?case by (auto simp: registered_inv_def heap_inv_def)
next
  case (cancel s i key c e)
  then show ?case by (auto simp: registered_inv_def heap_inv_def)
qed simp

lemma outcome_inv_reach: "flights_reach False s \<Longrightarrow> outcome_inv s \<and> joined_inv s"
proof (induction rule: flights_reach.induct)
  case start
  show ?case by (simp add: outcome_inv_def joined_inv_def Group_zero_def)
next
  case (lead s key c g i)
  note run = Do_enter_Leads [OF lead.hyps(2)]
  have "heap_inv s" using registered_inv_reach [OF lead.hyps(1)] by blast
  then have "led s c = None" "closing s c = None" using run(4) by (auto simp: heap_inv_def)
  then have "outcome_inv (s\<lparr>fl_group := g, leading := (leading s)(c \<mapsto> (i, key))\<rparr>)"
    using lead.IH run(4) unfolding outcome_inv_def by (auto simp: run(6) nth_append less_Suc_eq)
  with lead.IH show ?case by (simp add: joined_inv_def)
next
  case (join s key c g i)
  note run = Do_enter_Waits [OF join.hyps(2)]
  show ?case using join.IH by (simp add: outcome_inv_def joined_inv_def run(4,5,6))
next
  case (finish s c i key out sh g)
  have c: "c < length (g_heap (fl_group s))"
    using registered_inv_reach [OF finish.hyps(1)] finish.hyps(2) by (auto simp: heap_inv_def)
  note run = Do_unregister_run [OF finish.hyps(3) c]
  have new: "led s c = None" using finish.IH finish.hyps(2) c by (auto simp: outcome_inv_def)
  let ?s = "s\<lparr>fl_group := g, leading := (leading s)(c := None), closing := (closing s)(c \<mapsto> (i, key)), led := (led s)(c \<mapsto> out)\<rparr>"
  have "outcome_inv ?s"
    using finish.IH finish.hyps(2) unfolding outcome_inv_def by (auto simp: run(2,3,4))
  moreover have "joined_inv ?s" using finish.IH new unfolding joined_inv_def by fastforce
  ultimately show ?case by blast
next
  case (wake s c i key)
  have c: "c < length (g_heap (fl_group s))"
    using registered_inv_reach [OF wake.hyps(1)] wake.hyps(2) by (auto simp: heap_inv_def)
  have "leading s c = None" using wake.IH wake.hyps(2) c unfolding outcome_inv_def by (metis option.distinct(1))
  with wake.IH have "outcome_inv (s\<lparr>fl_group := Do_close c (fl_group s), closing := (closing s)(c := None)\<rparr>)"
    unfolding outcome_inv_def by (auto simp: Do_close_done [OF c] split: option.splits)
  with wake.IH show ?case by (simp add: joined_inv_def)
next
  case (share s i key c out)
  have "c < length (g_heap (fl_group s))"
    using registered_inv_reach [OF share.hyps(1)] share.hyps(2) by (auto simp: heap_inv_def)
  moreover have "c_outcome (g_heap (fl_group s) ! c) = Some out"
    using share.hyps(3) by (auto simp: Do_wait_def split: if_splits)
  ultimately have "led s c = Some out" using share.IH by (auto simp: outcome_inv_def)
  with share.IH show ?case by (simp add: outcome_inv_def joined_inv_def)
next
  case (cancel s i key c e)
  then show ?case by (simp add: outcome_inv_def joined_inv_def)
qed simp

text \<open>
  C25. As long as nobody calls \<^verbatim>\<open>Forget\<close>, in every interleaving at most one caller executes the function
  for a key; a caller that finds it executing waits for that execution; every waiter's call is still
  being executed or closed by someone, or is over, so no waiter is forgotten; and every waiter that is
  woken returns exactly the outcome, panic included, of the one execution of its call.
\<close>

theorem SingleFlight_shared:
  assumes "flights_reach False s"
  shows "(\<forall>k c d i j. leading s c = Some (i, k) \<and> leading s d = Some (j, k) \<longrightarrow> c = d \<and> i = j) \<and>
     (\<forall>k c i. leading s c = Some (i, k) \<and> k \<noteq> '''' \<longrightarrow> fst (Do_enter None k (fl_group s)) = Waits c) \<and>
     (\<forall>i k c. (i, k, c) \<in> waiting s \<longrightarrow> leading s c \<noteq> None \<or> closing s c \<noteq> None \<or>
        (\<exists>out. Do_wait None c (fl_group s) = Some (Inr out) \<and> led s c = Some out)) \<and>
     (\<forall>(c, out) \<in> joined s. led s c = Some out)"
proof -
  have reg: "registered_inv s" and hp: "heap_inv s" and out: "outcome_inv s" and jn: "joined_inv s"
    using registered_inv_reach [OF assms] outcome_inv_reach [OF assms] by auto
  have call: "m_get (g_calls (fl_group s)) k = Some c" if "leading s c = Some (i, k)" for c i k
    using reg that by (auto simp: registered_inv_def)
  have "c = d \<and> i = j" if "leading s c = Some (i, k)" "leading s d = Some (j, k)" for k c d i j
    using call [OF that(1)] call [OF that(2)] that by simp
  moreover have "fst (Do_enter None k (fl_group s)) = Waits c" if "leading s c = Some (i, k)" "k \<noteq> ''''" for k c i
    using call [OF that(1)] that(2) by (simp add: Do_enter_def)
  moreover have "leading s c \<noteq> None \<or> closing s c \<noteq> None \<or>
      (\<exists>out. Do_wait None c (fl_group s) = Some (Inr out) \<and> led s c = Some out)" if w: "(i, k, c) \<in> waiting s" for i k c
  proof -
    have "c < length (g_heap (fl_group s))" using hp w by (force simp: heap_inv_def)
    with out show ?thesis by (auto simp: outcome_inv_def Do_wait_def split: option.splits)
  qed
  ultimately show ?thesis using jn unfolding joined_inv_def by blast
qed

text \<open>A caller leads a call for a key, a second one joins it, and the theorem applies to them.\<close>

theorem SingleFlight_shared_witness:
  "\<exists>s :: int flights. flights_reach False s \<and> leading s 0 = Some (7, ''k'') \<and> (8, ''k'', 0) \<in> waiting s \<and>
     fst (Do_enter None ''k'' (fl_group s)) = Waits 0"
proof -
  define g1 :: "int Group" where "g1 = snd (Do_enter None ''k'' Group_zero)"
  define s1 :: "int flights" where "s1 = \<lparr>fl_group = g1, leading = [0 \<mapsto> (7, ''k'')], closing = Map.empty, waiting = {},
      led = Map.empty, joined = {}\<rparr>"
  have e1: "Do_enter None ''k'' (Group_zero :: int Group) = (Leads 0, g1)"
    by (simp add: g1_def Do_enter_def Group_zero_def)
  have r1: "flights_reach False s1"
    using flights_reach.lead [OF flights_reach.start, of "''k''" 0 g1 False 7] e1 by (simp add: s1_def)
  define g2 where "g2 = snd (Do_enter None ''k'' g1)"
  have e2: "Do_enter None ''k'' (fl_group s1) = (Waits 0, g2)"
    by (simp add: s1_def g2_def g1_def Do_enter_def Group_zero_def)
  let ?s2 = "s1\<lparr>fl_group := g2, waiting := insert (8, ''k'', 0) (waiting s1)\<rparr>"
  have r2: "flights_reach False ?s2" by (rule flights_reach.join [OF r1 e2])
  have "leading ?s2 0 = Some (7, ''k'')" "(8, ''k'', 0) \<in> waiting ?s2" by (simp_all add: s1_def)
  moreover have "fst (Do_enter None ''k'' (fl_group ?s2)) = Waits 0"
    using SingleFlight_shared [OF r2] \<open>leading ?s2 0 = Some (7, ''k'')\<close> by blast
  ultimately show ?thesis using r2 by blast
qed

text \<open>
  \<^verbatim>\<open>Forget\<close> breaks this for later callers: the first leader's deferred closure deletes whatever call
  is registered for the key, here the second leader's, although that one is still executing; a third
  caller, which nobody forgot, then executes the function beside it.
\<close>

lemma Forget_unregisters_other_call:
  assumes "Do_enter None ''k'' Group_zero = (e1, g1)"
    and "Do_enter None ''k'' (Group_Forget ''k'' g1) = (e2, g2)"
    and "Do_unregister ''k'' 0 out g2 = (sh, g3)"
    and "Do_enter None ''k'' g3 = (e3, g4)"
  shows "e1 = Leads 0 \<and> e2 = Leads 1 \<and> e3 = Leads 2"
proof -
  let ?call = "\<lparr>c_outcome = None, c_done = False, c_shared = False\<rparr>"
  have 1: "e1 = Leads 0" "g1 = \<lparr>g_calls = [(''k'', 0)], g_heap = [?call]\<rparr>"
    using assms(1) by (auto simp: Do_enter_def Group_zero_def)
  have 2: "e2 = Leads 1" "g2 = \<lparr>g_calls = [(''k'', 1)], g_heap = [?call, ?call]\<rparr>"
    using assms(2) unfolding 1 by (auto simp: Do_enter_def Group_Forget_def)
  have "g_calls g3 = []" "length (g_heap g3) = 2"
    using assms(3) unfolding 2 by (auto simp: Do_unregister_def)
  with assms(4) 1 2 show ?thesis by (auto simp: Do_enter_def)
qed

end
