(* ===== verification/GoStrings.thy ===== *)
theory GoStrings
  imports Prelude "HOL-Library.Sublist"
begin

text \<open>
  The functions of the Go \<^verbatim>\<open>strings\<close> package that several components use, on strings as sequences of
  bytes (a HOL character is a byte). White space is Unicode white space, so a space is one of the
  byte sequences \<open>space_runes\<close>, the UTF-8 encodings of the runes for which \<^verbatim>\<open>unicode.IsSpace\<close> holds.
\<close>

section \<open>Definitions\<close>

unbundle bit_operations_syntax

definition space_runes :: "string list" where
  "space_runes =
     map (\<lambda>c. [c]) [CHR 0x09, CHR 0x0A, CHR 0x0B, CHR 0x0C, CHR 0x0D, CHR 0x20] @
     [[CHR 0xC2, CHR 0x85], [CHR 0xC2, CHR 0xA0], [CHR 0xE1, CHR 0x9A, CHR 0x80],
      [CHR 0xE2, CHR 0x80, CHR 0x80], [CHR 0xE2, CHR 0x80, CHR 0x81], [CHR 0xE2, CHR 0x80, CHR 0x82],
      [CHR 0xE2, CHR 0x80, CHR 0x83], [CHR 0xE2, CHR 0x80, CHR 0x84], [CHR 0xE2, CHR 0x80, CHR 0x85],
      [CHR 0xE2, CHR 0x80, CHR 0x86], [CHR 0xE2, CHR 0x80, CHR 0x87], [CHR 0xE2, CHR 0x80, CHR 0x88],
      [CHR 0xE2, CHR 0x80, CHR 0x89], [CHR 0xE2, CHR 0x80, CHR 0x8A], [CHR 0xE2, CHR 0x80, CHR 0xA8],
      [CHR 0xE2, CHR 0x80, CHR 0xA9], [CHR 0xE2, CHR 0x80, CHR 0xAF], [CHR 0xE2, CHR 0x81, CHR 0x9F],
      [CHR 0xE3, CHR 0x80, CHR 0x80]]"

text \<open>Remove words of a list from the front, as long as one is there.\<close>

function strip :: "string list \<Rightarrow> string \<Rightarrow> string" where
  "strip ws s =
     (case find (\<lambda>w. w \<noteq> [] \<and> prefix w s) ws of None \<Rightarrow> s | Some w \<Rightarrow> strip ws (drop (length w) s))"
  by pat_completeness auto
termination
proof (relation "measure (\<lambda>(ws, s). length s)", goal_cases)
  case (2 ws s w)
  then have "w \<noteq> []" "prefix w s" by (auto simp: find_Some_iff)
  then show ?case by (cases w; cases s) auto
qed simp

definition trim_left :: "string \<Rightarrow> string" where
  "trim_left = strip space_runes"

definition trim_right :: "string \<Rightarrow> string" where
  "trim_right s = rev (strip (map rev space_runes) (rev s))"

definition strings_TrimSpace :: "string \<Rightarrow> string" where
  "strings_TrimSpace s = trim_right (trim_left s)"

text \<open>\<^verbatim>\<open>strings.TrimRight\<close> for a cutset of ASCII characters.\<close>

definition strings_TrimRight :: "string \<Rightarrow> string \<Rightarrow> string" where
  "strings_TrimRight s cutset = rev (dropWhile (\<lambda>c. c \<in> set cutset) (rev s))"

definition strings_HasPrefix :: "string \<Rightarrow> string \<Rightarrow> bool" where
  "strings_HasPrefix s p = (take (length p) s = p)"

definition strings_HasSuffix :: "string \<Rightarrow> string \<Rightarrow> bool" where
  "strings_HasSuffix s p = (length p \<le> length s \<and> drop (length s - length p) s = p)"

definition strings_TrimSuffix :: "string \<Rightarrow> string \<Rightarrow> string" where
  "strings_TrimSuffix s p = (if strings_HasSuffix s p then take (length s - length p) s else s)"

definition strings_Join :: "string list \<Rightarrow> string \<Rightarrow> string" where
  "strings_Join xs sep = (case xs of [] \<Rightarrow> '''' | x # rest \<Rightarrow> x @ concat (map (\<lambda>y. sep @ y) rest))"

text \<open>A hexadecimal digit, as \<^verbatim>\<open>encoding/hex\<close> and \<^verbatim>\<open>%x\<close> write it.\<close>

definition hex_digit :: "nat \<Rightarrow> char" where
  "hex_digit n = (if n < 10 then char_of (48 + n) else char_of (87 + n))"

text \<open>Lower case of an ASCII letter; other bytes are unchanged.\<close>

definition ascii_lower :: "char \<Rightarrow> char" where
  "ascii_lower c = (if 65 \<le> (of_char c :: nat) \<and> (of_char c :: nat) \<le> 90 then char_of ((of_char c :: nat) + 32) else c)"

definition ascii_upper :: "char \<Rightarrow> char" where
  "ascii_upper c = (if 97 \<le> (of_char c :: nat) \<and> (of_char c :: nat) \<le> 122 then char_of ((of_char c :: nat) - 32) else c)"

text \<open>
  \<^verbatim>\<open>strings.ToLower\<close> and \<^verbatim>\<open>strings.ToUpper\<close> of ASCII text, which is what the names they are applied to are
  (transports, HTTP methods); the bytes of other characters stay as they are.
\<close>

definition strings_ToLower :: "string \<Rightarrow> string" where
  "strings_ToLower s = map ascii_lower s"

definition strings_ToUpper :: "string \<Rightarrow> string" where
  "strings_ToUpper s = map ascii_upper s"

text \<open>FNV-1a on 32 bits (\<^verbatim>\<open>hash/fnv\<close>).\<close>

definition fnv32a :: "string \<Rightarrow> 32 word" where
  "fnv32a s = fold (\<lambda>c h. (h XOR of_char c) * 16777619) s 2166136261"

section \<open>Trimming\<close>

declare strip.simps [simp del]

lemma strip_stable: "(\<forall>w \<in> set ws. w \<noteq> [] \<longrightarrow> \<not> prefix w s) \<Longrightarrow> strip ws s = s"
  by (subst strip.simps) (auto simp: find_None_iff split: option.split dest: find_Some_iff [THEN iffD1])

lemma strip_result: "\<forall>w \<in> set ws. w \<noteq> [] \<longrightarrow> \<not> prefix w (strip ws s)"
proof (induction ws s rule: strip.induct)
  case (1 ws s)
  show ?case
  proof (cases "find (\<lambda>w. w \<noteq> [] \<and> prefix w s) ws")
    case None
    then have "strip ws s = s" by (simp add: strip.simps)
    then show ?thesis using None by (auto simp: find_None_iff)
  next
    case (Some w)
    then show ?thesis using 1 [OF Some] by (simp add: strip.simps [of ws s])
  qed
qed

lemma strip_suffix: "suffix (strip ws s) s"
proof (induction ws s rule: strip.induct)
  case (1 ws s)
  show ?case
  proof (cases "find (\<lambda>w. w \<noteq> [] \<and> prefix w s) ws")
    case None
    then show ?thesis by (simp add: strip.simps)
  next
    case (Some w)
    then show ?thesis using 1 [OF Some] by (simp add: strip.simps [of ws s]) (metis suffix_drop suffix_order.trans)
  qed
qed

lemma strip_idem [simp]: "strip ws (strip ws s) = strip ws s"
  by (rule strip_stable [OF strip_result])

text \<open>A string without white space at its left end, and at its right end.\<close>

definition left_trimmed :: "string \<Rightarrow> bool" where
  "left_trimmed s \<longleftrightarrow> (\<forall>w \<in> set space_runes. \<not> prefix w s)"

definition right_trimmed :: "string \<Rightarrow> bool" where
  "right_trimmed s \<longleftrightarrow> (\<forall>w \<in> set space_runes. \<not> suffix w s)"

lemma space_runes_nonempty: "w \<in> set space_runes \<Longrightarrow> w \<noteq> []"
  by (auto simp: space_runes_def)

lemma trim_left_trimmed: "left_trimmed (trim_left s)"
  using strip_result space_runes_nonempty by (auto simp: left_trimmed_def trim_left_def)

lemma trim_right_trimmed: "right_trimmed (trim_right s)"
  using strip_result [of "map rev space_runes" "rev s"] space_runes_nonempty
  by (auto simp: right_trimmed_def trim_right_def suffix_to_prefix)

lemma trim_left_id: "left_trimmed s \<Longrightarrow> trim_left s = s"
  unfolding trim_left_def left_trimmed_def by (rule strip_stable) blast

lemma trim_right_id: "right_trimmed s \<Longrightarrow> trim_right s = s"
proof -
  assume "right_trimmed s"
  then have "strip (map rev space_runes) (rev s) = rev s"
    by (intro strip_stable) (auto simp: right_trimmed_def suffix_to_prefix)
  then show ?thesis by (simp add: trim_right_def)
qed

lemma trim_right_prefix: "prefix (trim_right s) s"
  using strip_suffix [of "map rev space_runes" "rev s"] by (simp add: trim_right_def suffix_to_prefix)

lemma left_trimmed_prefix: "left_trimmed s \<Longrightarrow> prefix p s \<Longrightarrow> left_trimmed p"
  unfolding left_trimmed_def using prefix_order.trans by blast

lemma TrimSpace_trimmed: "left_trimmed (strings_TrimSpace s)" "right_trimmed (strings_TrimSpace s)"
  unfolding strings_TrimSpace_def
  using left_trimmed_prefix [OF trim_left_trimmed trim_right_prefix] trim_right_trimmed by blast+

lemma TrimSpace_id: "left_trimmed s \<Longrightarrow> right_trimmed s \<Longrightarrow> strings_TrimSpace s = s"
  by (simp add: strings_TrimSpace_def trim_left_id trim_right_id)

lemma TrimSpace_idem [simp]: "strings_TrimSpace (strings_TrimSpace s) = strings_TrimSpace s"
  by (rule TrimSpace_id [OF TrimSpace_trimmed])

lemma TrimRight_idem [simp]: "strings_TrimRight (strings_TrimRight s cs) cs = strings_TrimRight s cs"
  by (simp add: strings_TrimRight_def)

lemma TrimRight_prefix: "prefix (strings_TrimRight s cs) s"
  unfolding strings_TrimRight_def by (metis rev_rev_ident suffix_dropWhile suffix_to_prefix)

end
