(* ===== verification/Cache.thy ===== *)
theory Cache
  imports Float64 GoStrings Bloom "HOL-Library.Word"
begin

text \<open>
  The in-memory cache (\<^verbatim>\<open>cache/cache.go\<close>): entries with an expiry and a stale deadline, a recency
  counter of 64 bits that is rebased before it rolls over, eviction of expired and least recently
  used entries, negative entries, a membership filter in front of the loader, and the disabled
  pass-through mode. Everything under the mutex is one function; the loader runs outside it. The
  single-flight group only decides who executes the loader (theory \<open>SingleFlight\<close>). Main result: the
  cache refines a list of contents ordered by recency.
\<close>

section \<open>State\<close>

record 'v entry =
  e_value :: 'v
  e_expiresAt :: time
  e_staleUntil :: time
  e_accessOrder :: "64 word"
  e_negative :: bool

record CacheStats =
  s_Name :: string
  s_Entries :: int
  s_MaxEntries :: int
  s_Hits :: int
  s_Misses :: int
  s_StaleHits :: int
  s_Loads :: int
  s_LoadErrors :: int
  s_Evictions :: int
  s_Deletes :: int
  s_Refreshes :: int
  s_Disabled :: bool
  s_Negatives :: int
  s_BloomRejects :: int

type_synonym 'v Loader = "string \<Rightarrow> goerror + 'v"

record ('v, 'f) Cache =
  items :: "(string, 'v entry) gomap"
  c_loader :: "'v Loader option"
  defaultTTL :: duration
  staleWhileRevalidate :: duration
  refreshTimeout :: duration
  maxEntries :: int
  nextAccessOrder :: "64 word"
  c_name :: string
  c_stats :: CacheStats
  ttlJitter :: float64
  negativeTTL :: duration
  notFoundErr :: "goerror option"
  c_bloom :: "'f option"
  c_disabled :: bool

definition Cache_ErrNotFound :: goerror where
  "Cache_ErrNotFound = Err ''cache entry not found''"

definition ErrLoaderNil :: goerror where
  "ErrLoaderNil = Err ''cache loader is nil''"

section \<open>Options\<close>

datatype ('v, 'f) cache_option =
    WithName string | WithDefaultTTL duration | WithStaleWhileRevalidate duration | WithRefreshTimeout duration
  | WithMaxEntries int | WithLoader "'v Loader option" | WithDisabled bool | WithTTLJitter float64
  | WithNegativeCache duration "goerror option" | WithBloomFilter "'f option"

fun apply_cache_option :: "('v, 'f) cache_option \<Rightarrow> ('v, 'f) Cache \<Rightarrow> ('v, 'f) Cache" where
  "apply_cache_option (WithName n) c = c\<lparr>c_name := strings_TrimSpace n\<rparr>"
| "apply_cache_option (WithDefaultTTL ttl) c = (if ttl > 0 then c\<lparr>defaultTTL := ttl\<rparr> else c)"
| "apply_cache_option (WithStaleWhileRevalidate ttl) c = (if ttl \<ge> 0 then c\<lparr>staleWhileRevalidate := ttl\<rparr> else c)"
| "apply_cache_option (WithRefreshTimeout t) c = (if t > 0 then c\<lparr>refreshTimeout := t\<rparr> else c)"
| "apply_cache_option (WithMaxEntries n) c = (if n > 0 then c\<lparr>maxEntries := n\<rparr> else c)"
| "apply_cache_option (WithLoader l) c = c\<lparr>c_loader := l\<rparr>"
| "apply_cache_option (WithDisabled b) c =
     (let c = c\<lparr>c_disabled := b, c_stats := (c_stats c)\<lparr>s_Disabled := b\<rparr>\<rparr> in if b then c\<lparr>items := []\<rparr> else c)"
| "apply_cache_option (WithTTLJitter f) c =
     c\<lparr>ttlJitter := (let f = (if f < 0 then 0 else f) in if f \<ge> 1 then fl (99 / 100) else f)\<rparr>"
| "apply_cache_option (WithNegativeCache ttl nf) c =
     (let c = (if ttl > 0 then c\<lparr>negativeTTL := ttl\<rparr> else c) in if nf \<noteq> None then c\<lparr>notFoundErr := nf\<rparr> else c)"
| "apply_cache_option (WithBloomFilter f) c = c\<lparr>c_bloom := f\<rparr>"

definition stats_zero :: CacheStats where
  "stats_zero = \<lparr>s_Name = '''', s_Entries = 0, s_MaxEntries = 0, s_Hits = 0, s_Misses = 0, s_StaleHits = 0, s_Loads = 0,
     s_LoadErrors = 0, s_Evictions = 0, s_Deletes = 0, s_Refreshes = 0, s_Disabled = False, s_Negatives = 0, s_BloomRejects = 0\<rparr>"

text \<open>\<open>disabledByEnv\<close> is what \<^verbatim>\<open>cacheDisabledByEnv()\<close> read from the environment.\<close>

definition Cache_New :: "bool \<Rightarrow> ('v, 'f) cache_option list \<Rightarrow> ('v, 'f) Cache" where
  "Cache_New disabledByEnv opts =
     (let c = fold apply_cache_option opts
            \<lparr>items = [], c_loader = None, defaultTTL = Minute, staleWhileRevalidate = 0, refreshTimeout = 5 * Second,
             maxEntries = 0, nextAccessOrder = 0, c_name = '''', c_stats = stats_zero, ttlJitter = 0, negativeTTL = 0,
             notFoundErr = Some Cache_ErrNotFound, c_bloom = None, c_disabled = disabledByEnv\<rparr>
      in c\<lparr>c_stats := (c_stats c)\<lparr>s_Name := c_name c, s_MaxEntries := maxEntries c, s_Disabled := c_disabled c\<rparr>\<rparr>)"

section \<open>Entries and recency\<close>

definition entry_fresh :: "'v entry \<Rightarrow> time \<Rightarrow> bool" where
  "entry_fresh e now \<longleftrightarrow> e_expiresAt e = 0 \<or> now < e_expiresAt e"

definition entry_stale :: "'v entry \<Rightarrow> time \<Rightarrow> bool" where
  "entry_stale e now \<longleftrightarrow> e_staleUntil e \<noteq> 0 \<and> now < e_staleUntil e"

definition entry_expired :: "'v entry \<Rightarrow> time \<Rightarrow> bool" where
  "entry_expired e now \<longleftrightarrow> \<not> entry_fresh e now \<and> \<not> entry_stale e now"

text \<open>The renumbering of the live entries in their order, from \<open>n + 1\<close>.\<close>

fun renumber :: "string list \<Rightarrow> 64 word \<Rightarrow> (string, 'v entry) gomap \<Rightarrow> 64 word \<times> (string, 'v entry) gomap" where
  "renumber [] n its = (n, its)"
| "renumber (k # ks) n its =
     (case m_get its k of
        None \<Rightarrow> renumber ks (n + 1) its
      | Some ent \<Rightarrow> renumber ks (n + 1) (m_put k (ent\<lparr>e_accessOrder := n + 1\<rparr>) its))"

definition Cache_nextAccessOrderLocked :: "('v, 'f) Cache \<Rightarrow> 64 word \<times> ('v, 'f) Cache" where
  "Cache_nextAccessOrderLocked c =
     (let c = (if nextAccessOrder c = - 1
               then let keys = map fst (sort_key (\<lambda>(k, ent). e_accessOrder ent) (items c));
                        (n, its) = renumber keys 0 (items c)
                    in c\<lparr>nextAccessOrder := n, items := its\<rparr>
               else c);
          n = nextAccessOrder c + 1
      in (n, c\<lparr>nextAccessOrder := n\<rparr>))"

text \<open>The scan for the least recently used key: \<^verbatim>\<open>found\<close>, \<^verbatim>\<open>oldestKey\<close>, \<^verbatim>\<open>oldestOrder\<close>.\<close>

definition oldest :: "(string, 'v entry) gomap \<Rightarrow> bool \<times> string \<times> 64 word" where
  "oldest its = foldl (\<lambda>(found, key, order) (k, ent).
     if \<not> found \<or> e_accessOrder ent < order then (True, k, e_accessOrder ent) else (found, key, order)) (False, '''', 0) its"

lemma foldl_oldest:
  "fst acc \<Longrightarrow> let r = foldl (\<lambda>(found, key, order) (k, ent).
     if \<not> found \<or> e_accessOrder ent < order then (True, k, e_accessOrder ent) else (found, key, order)) acc its
   in fst r \<and> (r = acc \<or> (\<exists>(k, ent) \<in> set its. snd r = (k, e_accessOrder ent))) \<and>
     snd (snd r) \<le> snd (snd acc) \<and> (\<forall>(k, ent) \<in> set its. snd (snd r) \<le> e_accessOrder ent)"
proof (induction its arbitrary: acc)
  case (Cons p its)
  obtain k ent where p: "p = (k, ent)" by (cases p)
  obtain f key order where acc: "acc = (f, key, order)" by (cases acc)
  show ?case
  proof (cases "e_accessOrder ent < order")
    case True
    with Cons.IH [of "(True, k, e_accessOrder ent)"] Cons.prems show ?thesis by (auto simp: p acc Let_def)
  next
    case False
    with Cons.IH [of acc] Cons.prems show ?thesis by (auto simp: p acc Let_def)
  qed
qed simp

lemma oldest_min:
  assumes "its \<noteq> []"
  shows "\<exists>ent. (fst (snd (oldest its)), ent) \<in> set its \<and> (\<forall>(k, e) \<in> set its. e_accessOrder ent \<le> e_accessOrder e)"
proof -
  obtain k ent its' where its: "its = (k, ent) # its'" using assms by (cases its) auto
  show ?thesis
    using foldl_oldest [of "(True, k, e_accessOrder ent)" its'] unfolding its oldest_def by (auto simp: Let_def)
qed

text \<open>The loop that deletes the oldest entry until the map is small enough, counting evictions.\<close>

function evict_loop :: "nat \<Rightarrow> (string, 'v entry) gomap \<Rightarrow> int \<Rightarrow> (string, 'v entry) gomap \<times> int" where
  "evict_loop mx its n =
     (if length its > mx then evict_loop mx (m_del (fst (snd (oldest its))) its) (n + 1) else (its, n))"
  by pat_completeness auto
termination
proof (relation "measure (\<lambda>(mx, its, n). length its)", goal_cases)
  case (2 mx its n)
  then have "its \<noteq> []" by auto
  then obtain ent where "(fst (snd (oldest its)), ent) \<in> set its" using oldest_min by blast
  then show ?case by (auto simp: AList.delete_eq intro!: length_filter_less)
qed simp

declare evict_loop.simps [simp del]

definition Cache_evictLocked :: "time \<Rightarrow> ('v, 'f) Cache \<Rightarrow> ('v, 'f) Cache" where
  "Cache_evictLocked now c =
     (let (its, n) = m_sweep (\<lambda>(k, ent). entry_expired ent now) (items c);
          c = c\<lparr>items := its, c_stats := (c_stats c)\<lparr>s_Evictions := s_Evictions (c_stats c) + n\<rparr>\<rparr>
      in if maxEntries c \<le> 0 then c
         else let (its, n) = evict_loop (nat (maxEntries c)) (items c) (s_Evictions (c_stats c))
              in c\<lparr>items := its, c_stats := (c_stats c)\<lparr>s_Evictions := n\<rparr>\<rparr>)"

section \<open>Operations\<close>

text \<open>\<open>draw n\<close> is the result of \<^verbatim>\<open>rand.Int63n(n)\<close>, a number from 0 to \<open>n - 1\<close>.\<close>

definition draws :: "(int \<Rightarrow> int) \<Rightarrow> bool" where
  "draws draw \<longleftrightarrow> (\<forall>n > 0. 0 \<le> draw n \<and> draw n < n)"

definition Cache_jitterTTL :: "(int \<Rightarrow> int) \<Rightarrow> ('v, 'f) Cache \<Rightarrow> duration \<Rightarrow> duration" where
  "Cache_jitterTTL draw c ttl =
     (if ttl \<le> 0 \<or> ttlJitter c \<le> 0 then ttl
      else let maxJitter = \<lfloor>fmul (float64_of_int ttl) (ttlJitter c)\<rfloor>
           in if maxJitter \<le> 0 then ttl else ttl - draw (maxJitter + 1))"

definition Cache_deadlines :: "(int \<Rightarrow> int) \<Rightarrow> ('v, 'f) Cache \<Rightarrow> duration list \<Rightarrow> time \<Rightarrow> time \<times> time" where
  "Cache_deadlines draw c ttl now =
     (let expireAfter = (if ttl \<noteq> [] \<and> hd ttl > 0 then hd ttl else defaultTTL c);
          expireAfter = Cache_jitterTTL draw c expireAfter;
          expiresAt = now + expireAfter
      in (expiresAt, expiresAt + staleWhileRevalidate c))"

definition record_stat :: "(CacheStats \<Rightarrow> CacheStats) \<Rightarrow> ('v, 'f) Cache \<Rightarrow> ('v, 'f) Cache" where
  "record_stat f c = c\<lparr>c_stats := f (c_stats c)\<rparr>"

definition Cache_recordMiss :: "('v, 'f) Cache \<Rightarrow> ('v, 'f) Cache" where
  "Cache_recordMiss = record_stat (\<lambda>s. s\<lparr>s_Misses := s_Misses s + 1\<rparr>)"

definition Cache_recordLoad :: "('v, 'f) Cache \<Rightarrow> ('v, 'f) Cache" where
  "Cache_recordLoad = record_stat (\<lambda>s. s\<lparr>s_Loads := s_Loads s + 1\<rparr>)"

definition Cache_recordLoadError :: "('v, 'f) Cache \<Rightarrow> ('v, 'f) Cache" where
  "Cache_recordLoadError = record_stat (\<lambda>s. s\<lparr>s_LoadErrors := s_LoadErrors s + 1\<rparr>)"

definition Cache_recordBloomReject :: "('v, 'f) Cache \<Rightarrow> ('v, 'f) Cache" where
  "Cache_recordBloomReject = record_stat (\<lambda>s. s\<lparr>s_Misses := s_Misses s + 1, s_BloomRejects := s_BloomRejects s + 1\<rparr>)"

definition Cache_notFoundError :: "('v, 'f) Cache \<Rightarrow> goerror" where
  "Cache_notFoundError c = (case notFoundErr c of Some e \<Rightarrow> e | None \<Rightarrow> Cache_ErrNotFound)"

fun firstLoader :: "'v Loader option \<Rightarrow> 'v Loader option list \<Rightarrow> 'v Loader option" where
  "firstLoader base [] = base"
| "firstLoader base (l # ls) = (if l \<noteq> None then l else firstLoader base ls)"

text \<open>Putting an entry under the next recency number, as every writer does.\<close>

definition put_entry :: "string \<Rightarrow> 'v \<Rightarrow> time \<Rightarrow> time \<Rightarrow> bool \<Rightarrow> ('v, 'f) Cache \<Rightarrow> ('v, 'f) Cache" where
  "put_entry key v expiresAt staleUntil negative c =
     (let (n, c) = Cache_nextAccessOrderLocked c
      in c\<lparr>items := m_put key \<lparr>e_value = v, e_expiresAt = expiresAt, e_staleUntil = staleUntil, e_accessOrder = n,
           e_negative = negative\<rparr> (items c)\<rparr>)"

text \<open>Giving an entry the next recency number, as every hit does; \<open>ent\<close> was read before.\<close>

definition touch_entry :: "string \<Rightarrow> 'v entry \<Rightarrow> ('v, 'f) Cache \<Rightarrow> ('v, 'f) Cache" where
  "touch_entry key ent c =
     (let (n, c) = Cache_nextAccessOrderLocked c
      in c\<lparr>items := m_put key (ent\<lparr>e_accessOrder := n\<rparr>) (items c)\<rparr>)"

text \<open>\<^verbatim>\<open>Set\<close> reads the clock twice: \<open>t\<close> for the deadlines, \<open>now\<close> for the eviction.\<close>

definition Cache_Set :: "(int \<Rightarrow> int) \<Rightarrow> string \<Rightarrow> 'v \<Rightarrow> duration list \<Rightarrow> time \<Rightarrow> time \<Rightarrow> ('v, 'f) Cache \<Rightarrow> ('v, 'f) Cache" where
  "Cache_Set draw key v ttl t now c =
     (if c_disabled c \<or> key = '''' then c
      else let (expiresAt, staleUntil) = Cache_deadlines draw c ttl t
           in Cache_evictLocked now (put_entry key v expiresAt staleUntil False c))"

definition Cache_Get :: "string \<Rightarrow> time \<Rightarrow> ('v, 'f) Cache \<Rightarrow> 'v option \<times> ('v, 'f) Cache" where
  "Cache_Get key now c =
     (if key = '''' then (None, c)
      else if c_disabled c then (None, Cache_recordMiss c)
      else case m_get (items c) key of
          None \<Rightarrow> (None, Cache_recordMiss c)
        | Some ent \<Rightarrow>
            if entry_expired ent now
            then (None, record_stat (\<lambda>s. s\<lparr>s_Evictions := s_Evictions s + 1, s_Misses := s_Misses s + 1\<rparr>)
                    (c\<lparr>items := m_del key (items c)\<rparr>))
            else (Some (e_value ent), record_stat (\<lambda>s. s\<lparr>s_Hits := s_Hits s + 1\<rparr>) (touch_entry key ent c)))"

text \<open>What \<^verbatim>\<open>lookup\<close> found: nothing, a negative entry, a fresh or a stale value.\<close>

datatype 'v found = Missing | Negative | Fresh 'v | Stale 'v

definition Cache_lookup :: "string \<Rightarrow> time \<Rightarrow> ('v, 'f) Cache \<Rightarrow> 'v found \<times> ('v, 'f) Cache" where
  "Cache_lookup key now c =
     (case m_get (items c) key of
        None \<Rightarrow> (Missing, Cache_recordMiss c)
      | Some ent \<Rightarrow>
          if entry_fresh ent now
          then (if e_negative ent then Negative else Fresh (e_value ent),
                record_stat (\<lambda>s. s\<lparr>s_Hits := s_Hits s + 1\<rparr>) (touch_entry key ent c))
          else if entry_stale ent now
          then if e_negative ent
               then (Negative, record_stat (\<lambda>s. s\<lparr>s_Hits := s_Hits s + 1\<rparr>) (touch_entry key ent c))
               else (Stale (e_value ent), record_stat (\<lambda>s. s\<lparr>s_StaleHits := s_StaleHits s + 1\<rparr>) (touch_entry key ent c))
          else (Missing, record_stat (\<lambda>s. s\<lparr>s_Misses := s_Misses s + 1, s_Evictions := s_Evictions s + 1\<rparr>)
                  (c\<lparr>items := m_del key (items c)\<rparr>)))"

definition Cache_Delete :: "string \<Rightarrow> ('v, 'f) Cache \<Rightarrow> bool \<times> ('v, 'f) Cache" where
  "Cache_Delete key c =
     (if key = '''' then (False, c)
      else case m_get (items c) key of
          None \<Rightarrow> (False, c)
        | Some _ \<Rightarrow> (True, record_stat (\<lambda>s. s\<lparr>s_Deletes := s_Deletes s + 1\<rparr>) (c\<lparr>items := m_del key (items c)\<rparr>)))"

definition Cache_Clear :: "('v, 'f) Cache \<Rightarrow> ('v, 'f) Cache" where
  "Cache_Clear c = c\<lparr>items := fst (m_sweep (\<lambda>p. True) (items c))\<rparr>"

definition Cache_Len :: "('v, 'f) Cache \<Rightarrow> int" where
  "Cache_Len c = int (length (items c))"

definition Cache_Snapshot :: "('v, 'f) Cache \<Rightarrow> CacheStats" where
  "Cache_Snapshot c = (c_stats c)\<lparr>s_Name := c_name c, s_MaxEntries := maxEntries c, s_Disabled := c_disabled c,
     s_Entries := int (length (items c))\<rparr>"

section \<open>Loading\<close>

text \<open>The filter interface: \<^verbatim>\<open>ContainsString\<close> and \<^verbatim>\<open>AddString\<close>.\<close>

record 'f BloomFilter =
  bf_ContainsString :: "string \<Rightarrow> 'f \<Rightarrow> bool"
  bf_AddString :: "string \<Rightarrow> 'f \<Rightarrow> 'f"

text \<open>
  The closure that \<^verbatim>\<open>load\<close> hands to the group, from the loader's answer on: the locked part. \<open>zero\<close> is
  the zero value of the cached type.
\<close>

definition load_store :: "'f BloomFilter \<Rightarrow> (int \<Rightarrow> int) \<Rightarrow> 'v \<Rightarrow> string \<Rightarrow> goerror + 'v \<Rightarrow> time \<Rightarrow> ('v, 'f) Cache \<Rightarrow> ('v, 'f) Cache" where
  "load_store bf draw zero key r now c =
     (case r of
        Inl err \<Rightarrow>
          let c = Cache_recordLoadError c
          in if negativeTTL c > 0 \<and> errors_Is err (Cache_notFoundError c)
             then let expiresAt = now + Cache_jitterTTL draw c (negativeTTL c)
                  in Cache_evictLocked now (record_stat (\<lambda>s. s\<lparr>s_Negatives := s_Negatives s + 1\<rparr>)
                       (put_entry key zero expiresAt expiresAt True c))
             else c
      | Inr v \<Rightarrow>
          let c = Cache_recordLoad c;
              expiresAt = now + Cache_jitterTTL draw c (defaultTTL c);
              c = put_entry key v expiresAt (expiresAt + staleWhileRevalidate c) False c;
              c = (case c_bloom c of None \<Rightarrow> c | Some f \<Rightarrow> c\<lparr>c_bloom := Some (bf_AddString bf key f)\<rparr>)
          in Cache_evictLocked now c)"

text \<open>The closure of \<^verbatim>\<open>refresh\<close>.\<close>

definition refresh_store :: "(int \<Rightarrow> int) \<Rightarrow> string \<Rightarrow> goerror + 'v \<Rightarrow> time \<Rightarrow> ('v, 'f) Cache \<Rightarrow> ('v, 'f) Cache" where
  "refresh_store draw key r now c =
     (case r of
        Inl err \<Rightarrow> Cache_recordLoadError c
      | Inr v \<Rightarrow>
          let c = record_stat (\<lambda>s. s\<lparr>s_Loads := s_Loads s + 1, s_Refreshes := s_Refreshes s + 1\<rparr>) c;
              expiresAt = now + Cache_jitterTTL draw c (defaultTTL c)
          in Cache_evictLocked now (put_entry key v expiresAt (expiresAt + staleWhileRevalidate c) False c))"

text \<open>
  Who executes the loader: this caller, or another one whose answer is shared (or the context ended
  while waiting).
\<close>

datatype 'v flight = Leader | Shared "goerror + 'v"

definition wrap_load :: "goerror + 'v \<Rightarrow> goerror + 'v" where
  "wrap_load r = (case r of Inl err \<Rightarrow> Inl (Wrap ''load cache entry'' err) | Inr v \<Rightarrow> Inr v)"

text \<open>
  \<^verbatim>\<open>GetOrLoad\<close>: \<open>now\<close> is the time of the lookup, \<open>later\<close> the time when the loader has answered, \<open>env\<close>
  what other goroutines did to the cache in between. It returns its result, whether it called the
  loader itself, whether it started a background refresh, and the cache.
\<close>

definition Cache_GetOrLoad :: "'f BloomFilter \<Rightarrow> (int \<Rightarrow> int) \<Rightarrow> 'v \<Rightarrow> string \<Rightarrow> 'v Loader option list \<Rightarrow> time \<Rightarrow> time \<Rightarrow>
    'v flight \<Rightarrow> (('v, 'f) Cache \<Rightarrow> ('v, 'f) Cache) \<Rightarrow> ('v, 'f) Cache \<Rightarrow> (goerror + 'v) \<times> bool \<times> bool \<times> ('v, 'f) Cache" where
  "Cache_GetOrLoad bf draw zero key loaders now later flight env c =
     (if key = '''' then (Inl Cache_ErrNotFound, False, False, Cache_recordMiss c)
      else if c_disabled c then
        (let c = Cache_recordMiss c in
         case firstLoader (c_loader c) loaders of
           None \<Rightarrow> (Inl ErrLoaderNil, False, False, c)
         | Some loader \<Rightarrow>
             (case loader key of
                Inl err \<Rightarrow> (Inl (Wrap ''load cache entry'' err), True, False, Cache_recordLoadError (env c))
              | Inr v \<Rightarrow> (Inr v, True, False, Cache_recordLoad (env c))))
      else
        (case Cache_lookup key now c of
           (Negative, c) \<Rightarrow> (Inl (Cache_notFoundError c), False, False, c)
         | (Fresh v, c) \<Rightarrow> (Inr v, False, False, c)
         | (Stale v, c) \<Rightarrow> (Inr v, False, firstLoader (c_loader c) loaders \<noteq> None, c)
         | (Missing, c) \<Rightarrow>
             if (case c_bloom c of None \<Rightarrow> False | Some f \<Rightarrow> \<not> bf_ContainsString bf key f)
             then (Inl (Cache_notFoundError c), False, False, Cache_recordBloomReject c)
             else case firstLoader (c_loader c) loaders of
                 None \<Rightarrow> (Inl ErrLoaderNil, False, False, c)
               | Some loader \<Rightarrow>
                   (case flight of
                      Leader \<Rightarrow> (wrap_load (loader key), True, False, load_store bf draw zero key (loader key) later (env c))
                    | Shared r \<Rightarrow> (wrap_load r, False, False, env c))))"

section \<open>Recency\<close>

abbreviation ord :: "string \<times> 'v entry \<Rightarrow> 64 word" where
  "ord p \<equiv> e_accessOrder (snd p)"

definition cache_inv :: "('v, 'f) Cache \<Rightarrow> bool" where
  "cache_inv c \<longleftrightarrow> gomap_wf (items c) \<and> distinct (map ord (items c)) \<and> (\<forall>p \<in> set (items c). ord p \<le> nextAccessOrder c)"

text \<open>A list of the entries from the least to the most recently used.\<close>

definition by_recency :: "(string, 'v entry) gomap \<Rightarrow> (string \<times> 'v entry) list \<Rightarrow> bool" where
  "by_recency its l \<longleftrightarrow> sorted_wrt (<) (map ord l) \<and> set l = set its"

lemma by_recency_sort:
  assumes "distinct (map ord its)"
  shows "by_recency its (sort_key ord its)"
proof -
  have "distinct (map ord (sort_key ord its))"
    using assms by (simp add: distinct_map)
  then have "sorted_wrt (<) (map ord (sort_key ord its))"
    by (simp add: strict_sorted_iff)
  then show ?thesis by (simp add: by_recency_def)
qed

lemma by_recency_unique:
  assumes "by_recency its l" "by_recency its l'"
  shows "l = l'"
proof -
  have set: "set l = set l'" using assms by (simp add: by_recency_def)
  then have "set (map ord l') = set (map ord l)" by simp
  with assms have eq: "map ord l = map ord l'"
    unfolding by_recency_def by (metis strict_sorted_equal)
  have "distinct (map ord l)" using assms(1) by (simp add: by_recency_def strict_sorted_iff)
  then have "inj_on ord (set l)" by (simp add: distinct_map)
  then show ?thesis using eq inj_on_map_eq_map [of ord l l'] by (simp add: set)
qed

lemma by_recency_distinct: "by_recency its l \<Longrightarrow> distinct l"
  unfolding by_recency_def strict_sorted_iff distinct_map by blast

lemma by_recency_length: "by_recency its l \<Longrightarrow> gomap_wf its \<Longrightarrow> length l = length its"
proof -
  assume l: "by_recency its l" and wf: "gomap_wf its"
  have "distinct its" using wf unfolding gomap_wf_def distinct_map by blast
  then have "length its = card (set its)" by (simp add: distinct_card)
  moreover have "length l = card (set l)" using by_recency_distinct [OF l] by (simp add: distinct_card)
  ultimately show ?thesis using l by (simp add: by_recency_def)
qed

lemma by_recency_filter: "by_recency its l \<Longrightarrow> by_recency (filter P its) (filter P l)"
  unfolding by_recency_def sorted_wrt_map by (simp add: sorted_wrt_filter)

lemma by_recency_ord_distinct: "by_recency its l \<Longrightarrow> gomap_wf its \<Longrightarrow> distinct (map ord its)"
proof -
  assume l: "by_recency its l" and wf: "gomap_wf its"
  have "distinct its" using wf unfolding gomap_wf_def distinct_map by blast
  moreover have "inj_on ord (set l)"
    using l unfolding by_recency_def strict_sorted_iff distinct_map by blast
  then have "inj_on ord (set its)" using l by (simp add: by_recency_def)
  ultimately show ?thesis by (simp add: distinct_map)
qed

lemma by_recency_put:
  assumes "by_recency its l" "gomap_wf its" "\<forall>p \<in> set its. ord p < e_accessOrder e"
  shows "by_recency (m_put k e its) (filter (\<lambda>p. fst p \<noteq> k) l @ [(k, e)])"
proof -
  have "set (m_put k e its) = set (filter (\<lambda>p. fst p \<noteq> k) its) \<union> {(k, e)}"
  proof (rule set_eqI)
    fix p :: "string \<times> 'a entry"
    obtain k' e' where p: "p = (k', e')" by (cases p)
    have "p \<in> set (m_put k e its) \<longleftrightarrow> m_get (m_put k e its) k' = Some e'"
      using assms(2) p by (simp only: m_get_iff [OF gomap_wf_put])
    also have "\<dots> \<longleftrightarrow> p \<in> set (filter (\<lambda>p. fst p \<noteq> k) its) \<union> {(k, e)}"
      using assms(2) by (auto simp: p m_get_iff)
    finally show "p \<in> set (m_put k e its) \<longleftrightarrow> p \<in> set (filter (\<lambda>p. fst p \<noteq> k) its) \<union> {(k, e)}" .
  qed
  moreover have "sorted_wrt (<) (map ord (filter (\<lambda>p. fst p \<noteq> k) l))"
    using by_recency_filter [OF assms(1)] by (simp add: by_recency_def)
  ultimately show ?thesis
    using assms(1,3) by (auto simp: by_recency_def sorted_wrt_append)
qed

lemma by_recency_del:
  assumes "by_recency its l"
  shows "by_recency (m_del k its) (filter (\<lambda>p. fst p \<noteq> k) l)"
  using by_recency_filter [OF assms, of "\<lambda>p. fst p \<noteq> k"] by (simp add: AList.delete_eq case_prod_unfold eq_commute)

lemma oldest_hd:
  assumes "by_recency its l" "its \<noteq> []" "gomap_wf its"
  shows "l \<noteq> [] \<and> fst (snd (oldest its)) = fst (hd l)"
proof -
  have l: "l \<noteq> []" using assms(1,2) by (auto simp: by_recency_def)
  then obtain p l' where pl: "l = p # l'" by (cases l) auto
  obtain ent where ent: "(fst (snd (oldest its)), ent) \<in> set its" "\<forall>(k, e) \<in> set its. e_accessOrder ent \<le> e_accessOrder e"
    using oldest_min [OF assms(2)] by blast
  have p: "p \<in> set its" and small: "\<forall>q \<in> set l'. ord p < ord q"
    using assms(1) by (auto simp: by_recency_def pl)
  have "e_accessOrder ent \<le> ord p" using ent(2) p by auto
  moreover have "(fst (snd (oldest its)), ent) \<in> insert p (set l')"
    using ent(1) assms(1) by (auto simp: by_recency_def pl)
  ultimately have "(fst (snd (oldest its)), ent) = p" using small by force
  then have "fst (snd (oldest its)) = fst p" by (metis fst_conv)
  with l show ?thesis by (simp add: pl)
qed

lemma evict_loop_recency:
  assumes "by_recency its l" "gomap_wf its"
  shows "by_recency (fst (evict_loop mx its n)) (drop (length its - mx) l) \<and> gomap_wf (fst (evict_loop mx its n)) \<and>
     snd (evict_loop mx its n) = n + int (length its - mx)"
  using assms
proof (induction mx its n arbitrary: l rule: evict_loop.induct)
  case (1 mx its n)
  show ?case
  proof (cases "length its > mx")
    case False
    then show ?thesis using 1(2,3) by (subst (1 2 3) evict_loop.simps) simp
  next
    case True
    let ?k = "fst (snd (oldest its))"
    have ne: "its \<noteq> []" using True by auto
    obtain p l' where l: "l = p # l'" and k: "?k = fst p"
      using oldest_hd [OF 1(2) ne 1(3)] by (cases l) auto
    have "filter (\<lambda>q. fst q \<noteq> ?k) l = l'"
    proof -
      have "distinct (map fst l)"
        using 1(2,3) by_recency_distinct [OF 1(2)] unfolding by_recency_def gomap_wf_def distinct_map by auto
      then show ?thesis using k by (auto simp: l filter_id_conv image_iff)
    qed
    with by_recency_del [OF 1(2), of ?k] have rec: "by_recency (m_del ?k its) l'" by simp
    have wf: "gomap_wf (m_del ?k its)" using 1(3) by simp
    have len: "length its = Suc (length (m_del ?k its))"
      using by_recency_length [OF rec wf] by_recency_length [OF 1(2,3)] by (simp add: l)
    note IH = 1(1) [OF True rec wf]
    have "length its - mx = Suc (length (m_del ?k its) - mx)" using len True by linarith
    with IH show ?thesis
      using True by (subst (1 2 3) evict_loop.simps) (simp add: l)
  qed
qed

section \<open>The recency counter\<close>

lemma renumber_spec:
  assumes "distinct ks" "set ks \<subseteq> dom (m_get its)" "renumber ks n its = (n', its')"
  shows "n' = n + of_nat (length ks)" "map fst its' = map fst its"
    and "k \<notin> set ks \<Longrightarrow> m_get its' k = m_get its k"
    and "i < length ks \<Longrightarrow> m_get its' (ks ! i) = map_option (\<lambda>e. e\<lparr>e_accessOrder := n + of_nat (Suc i)\<rparr>) (m_get its (ks ! i))"
proof -
  have "n' = n + of_nat (length ks) \<and> map fst its' = map fst its \<and>
    (\<forall>k. k \<notin> set ks \<longrightarrow> m_get its' k = m_get its k) \<and>
    (\<forall>i < length ks. m_get its' (ks ! i) = map_option (\<lambda>e. e\<lparr>e_accessOrder := n + of_nat (Suc i)\<rparr>) (m_get its (ks ! i)))"
    using assms
  proof (induction ks arbitrary: n its)
    case (Cons k ks)
    from Cons.prems(2) obtain e where e: "m_get its k = Some e" by auto
    let ?its = "m_put k (e\<lparr>e_accessOrder := n + 1\<rparr>) its"
    have "distinct ks" "set ks \<subseteq> dom (m_get ?its)" "renumber ks (n + 1) ?its = (n', its')"
      using Cons.prems e by auto
    note IH = Cons.IH [OF this]
    have keys: "map fst ?its = map fst its"
      using e by (auto simp: AList.update_keys map_of_eq_None_iff [symmetric] simp del: map_of_eq_None_iff)
    have old: "m_get its' j = m_get its j" if "j \<notin> set (k # ks)" for j using IH that by auto
    have "m_get its' ((k # ks) ! i) = map_option (\<lambda>e. e\<lparr>e_accessOrder := n + of_nat (Suc i)\<rparr>) (m_get its ((k # ks) ! i))"
      if "i < length (k # ks)" for i
    proof (cases i)
      case 0
      then show ?thesis using IH Cons.prems(1) e by simp
    next
      case (Suc j)
      then have "ks ! j \<noteq> k" using Cons.prems(1) that by (auto simp: in_set_conv_nth)
      then show ?thesis using IH Suc that by (simp add: add.assoc)
    qed
    with IH keys old show ?case by (auto simp: add.assoc)
  qed simp
  then show "n' = n + of_nat (length ks)" "map fst its' = map fst its"
    and "k \<notin> set ks \<Longrightarrow> m_get its' k = m_get its k"
    and "i < length ks \<Longrightarrow> m_get its' (ks ! i) = map_option (\<lambda>e. e\<lparr>e_accessOrder := n + of_nat (Suc i)\<rparr>) (m_get its (ks ! i))"
    by blast+
qed

lemma of_nat_less_64: "i < j \<Longrightarrow> j < 2 ^ 64 \<Longrightarrow> (of_nat i :: 64 word) < of_nat j"
  by (simp add: word_less_nat_alt unsigned_of_nat take_bit_nat_eq_self)

text \<open>The part of an entry that does not depend on recency.\<close>

type_synonym 'v content = "'v \<times> time \<times> time \<times> bool"

definition content :: "'v entry \<Rightarrow> 'v content" where
  "content e = (e_value e, e_expiresAt e, e_staleUntil e, e_negative e)"

lemma content_order [simp]: "content (e\<lparr>e_accessOrder := n\<rparr>) = content e"
  by (simp add: content_def)

definition contents :: "(string \<times> 'v entry) list \<Rightarrow> (string \<times> 'v content) list" where
  "contents l = map (\<lambda>(k, e). (k, content e)) l"

text \<open>Renumbering keeps the contents in their order.\<close>

lemma rebase_recency:
  assumes wf: "gomap_wf its" and rec: "by_recency its l" and len: "length its < 2 ^ 63"
    and run: "renumber (map fst l) 0 its = (n, its')"
  shows "gomap_wf its'" "n = of_nat (length its)" "map fst its' = map fst its"
    "\<exists>l'. by_recency its' l' \<and> contents l' = contents l" "\<forall>p \<in> set its'. ord p \<le> n"
proof -
  have dist: "distinct (map fst l)"
    using wf by_recency_distinct [OF rec] rec unfolding by_recency_def gomap_wf_def distinct_map by auto
  have lenl: "length l = length its" by (rule by_recency_length [OF rec wf])
  have get: "m_get its k = Some e \<longleftrightarrow> (k, e) \<in> set l" for k e
    using rec m_get_iff [OF wf] by (simp add: by_recency_def)
  have "set (map fst l) \<subseteq> dom (m_get its)" using get by fastforce
  note R = renumber_spec [OF dist this run]
  show "n = of_nat (length its)" and keys: "map fst its' = map fst its" using R(1,2) lenl by simp_all
  show wf': "gomap_wf its'" using keys wf by (simp add: gomap_wf_def)
  let ?l = "map (\<lambda>i. (fst (l ! i), (snd (l ! i))\<lparr>e_accessOrder := of_nat (Suc i)\<rparr>)) [0..<length l]"
  have at: "m_get its' (fst (l ! i)) = Some ((snd (l ! i))\<lparr>e_accessOrder := of_nat (Suc i)\<rparr>)" if "i < length l" for i
  proof -
    have "m_get its (fst (l ! i)) = Some (snd (l ! i))" using get that by simp
    then show ?thesis using R(4) [of i] that by simp
  qed
  have "set ?l = set its'"
  proof (rule set_eqI)
    fix p :: "string \<times> 'a entry"
    obtain k e where p: "p = (k, e)" by (cases p)
    have keys': "set (map fst its') = set (map fst l)" unfolding keys using rec by (simp add: by_recency_def)
    show "p \<in> set ?l \<longleftrightarrow> p \<in> set its'"
    proof
      assume "p \<in> set ?l"
      then show "p \<in> set its'" using at by (auto simp: m_get_iff [OF wf', symmetric])
    next
      assume its': "p \<in> set its'"
      then have "k \<in> set (map fst l)" unfolding keys' [symmetric] p by force
      then obtain i where i: "i < length l" "fst (l ! i) = k" by (auto simp: in_set_conv_nth)
      then have "e = (snd (l ! i))\<lparr>e_accessOrder := of_nat (Suc i)\<rparr>"
        using at [OF i(1)] its' unfolding p m_get_iff [OF wf', symmetric] by simp
      with i show "p \<in> set ?l" unfolding p by force
    qed
  qed
  moreover have "sorted_wrt (<) (map ord ?l)"
    using len lenl by (auto simp: sorted_wrt_map sorted_wrt_iff_nth_less simp del: of_nat_Suc intro!: of_nat_less_64)
  moreover have "contents ?l = contents l"
    by (rule nth_equalityI) (auto simp: contents_def split_beta)
  ultimately show "\<exists>l'. by_recency its' l' \<and> contents l' = contents l" unfolding by_recency_def by blast
  have "(of_nat (Suc i) :: 64 word) \<le> of_nat (length its)" if "i < length its" for i
    using that len of_nat_less_64 [of "Suc i" "length its"] by (cases "Suc i = length its") auto
  then show "\<forall>p \<in> set its'. ord p \<le> n"
    unfolding \<open>n = of_nat (length its)\<close> \<open>set ?l = set its'\<close> [symmetric] using lenl by auto
qed

definition abs_cache :: "('v, 'f) Cache \<Rightarrow> (string \<times> 'v content) list" where
  "abs_cache c = contents (sort_key ord (items c))"

lemma abs_cacheI: "by_recency (items c) l \<Longrightarrow> distinct (map ord (items c)) \<Longrightarrow> abs_cache c = contents l"
  using by_recency_unique [OF by_recency_sort, of "items c" l] by (simp add: abs_cache_def)

text \<open>The settings, which no operation changes.\<close>

definition settings :: "('v, 'f) Cache \<Rightarrow> ('v, 'f) Cache" where
  "settings c = c\<lparr>items := [], nextAccessOrder := 0, c_stats := stats_zero, c_bloom := None\<rparr>"

lemma settings_update [simp]:
  "settings (c\<lparr>items := its\<rparr>) = settings c" "settings (c\<lparr>nextAccessOrder := n\<rparr>) = settings c"
  "settings (c\<lparr>c_stats := st\<rparr>) = settings c" "settings (c\<lparr>c_bloom := b\<rparr>) = settings c"
  "settings (record_stat f c) = settings c"
  by (simp_all add: settings_def record_stat_def)

lemma settings_sel [simp]:
  "maxEntries (settings c) = maxEntries c" "defaultTTL (settings c) = defaultTTL c"
  "staleWhileRevalidate (settings c) = staleWhileRevalidate c" "ttlJitter (settings c) = ttlJitter c"
  "negativeTTL (settings c) = negativeTTL c" "Cache_notFoundError (settings c) = Cache_notFoundError c"
  "c_disabled (settings c) = c_disabled c" "Cache_jitterTTL draw (settings c) ttl = Cache_jitterTTL draw c ttl"
  "Cache_deadlines draw (settings c) ttls t = Cache_deadlines draw c ttls t" "c_loader (settings c) = c_loader c"
  by (simp_all add: settings_def Cache_notFoundError_def Cache_jitterTTL_def Cache_deadlines_def Let_def)

lemma next_recency:
  assumes inv: "cache_inv c" and len: "length (items c) < 2 ^ 63"
    and run: "Cache_nextAccessOrderLocked c = (n, c')"
  obtains l where "by_recency (items c') l" "contents l = abs_cache c"
    and "gomap_wf (items c')" "\<forall>p \<in> set (items c'). ord p < n" "nextAccessOrder c' = n"
    and "map fst (items c') = map fst (items c)" "settings c' = settings c" "c_stats c' = c_stats c" "c_bloom c' = c_bloom c"
proof -
  have wf: "gomap_wf (items c)" and dist: "distinct (map ord (items c))"
    using inv by (simp_all add: cache_inv_def)
  note rec = by_recency_sort [OF dist]
  show thesis
  proof (cases "nextAccessOrder c = - 1")
    case False
    have c': "n = nextAccessOrder c + 1" "c' = c\<lparr>nextAccessOrder := n\<rparr>"
      using run False by (auto simp: Cache_nextAccessOrderLocked_def Let_def)
    have "nextAccessOrder c < n"
      using False unfolding c'(1) by (metis inc_less_eq_self_iff_eq not_le)
    then have "\<forall>p \<in> set (items c'). ord p < n" using inv by (auto simp: cache_inv_def c'(2))
    then show thesis using that [of "sort_key ord (items c)"] rec wf by (simp add: c'(2) abs_cache_def)
  next
    case True
    obtain m its where ren: "renumber (map fst (sort_key ord (items c))) 0 (items c) = (m, its)"
      by (cases "renumber (map fst (sort_key ord (items c))) 0 (items c)")
    have c': "n = m + 1" "c' = c\<lparr>nextAccessOrder := n, items := its\<rparr>"
      using run True ren by (auto simp: Cache_nextAccessOrderLocked_def Let_def case_prod_unfold)
    note R = rebase_recency [OF wf rec len ren]
    have "(of_nat (length (items c)) :: 64 word) < of_nat (Suc (length (items c)))"
      using len by (intro of_nat_less_64) simp_all
    then have "m < n" unfolding c'(1) R(2) by (simp add: add.commute)
    then have "\<forall>p \<in> set (items c'). ord p < n" using R(5) by (auto simp: c'(2))
    then show thesis using that R(1,3,4) by (auto simp: c'(2) abs_cache_def)
  qed
qed

section \<open>The abstract cache\<close>

text \<open>A cache is the list of its contents from the least to the most recently used.\<close>

definition content_live :: "time \<Rightarrow> 'v content \<Rightarrow> bool" where
  "content_live now x = (case x of (v, expiresAt, staleUntil, neg) \<Rightarrow>
     expiresAt = 0 \<or> now < expiresAt \<or> (staleUntil \<noteq> 0 \<and> now < staleUntil))"

definition lru_remove :: "string \<Rightarrow> (string \<times> 'v content) list \<Rightarrow> (string \<times> 'v content) list" where
  "lru_remove k l = filter (\<lambda>p. fst p \<noteq> k) l"

definition lru_evict :: "int \<Rightarrow> time \<Rightarrow> (string \<times> 'v content) list \<Rightarrow> (string \<times> 'v content) list" where
  "lru_evict mx now l =
     (let l = filter (\<lambda>p. content_live now (snd p)) l in if mx \<le> 0 then l else drop (length l - nat mx) l)"

definition lru_put :: "int \<Rightarrow> time \<Rightarrow> string \<Rightarrow> 'v content \<Rightarrow> (string \<times> 'v content) list \<Rightarrow> (string \<times> 'v content) list" where
  "lru_put mx now k x l = lru_evict mx now (lru_remove k l @ [(k, x)])"

definition lru_touch :: "string \<Rightarrow> (string \<times> 'v content) list \<Rightarrow> (string \<times> 'v content) list" where
  "lru_touch k l = (case map_of l k of None \<Rightarrow> l | Some x \<Rightarrow> lru_remove k l @ [(k, x)])"

lemma expired_content: "entry_expired e now \<longleftrightarrow> \<not> content_live now (content e)"
  by (auto simp: entry_expired_def entry_fresh_def entry_stale_def content_live_def content_def)

lemma contents_append [simp]: "contents (l @ l') = contents l @ contents l'"
  by (simp add: contents_def)

lemma contents_single [simp]: "contents [(k, e)] = [(k, content e)]"
  by (simp add: contents_def)

lemma contents_drop: "contents (drop n l) = drop n (contents l)"
  by (simp add: contents_def drop_map)

lemma length_contents [simp]: "length (contents l) = length l"
  by (simp add: contents_def)

lemma contents_remove: "contents (filter (\<lambda>p. fst p \<noteq> k) l) = lru_remove k (contents l)"
  by (induction l) (auto simp: contents_def lru_remove_def)

lemma contents_live: "contents (filter (\<lambda>p. \<not> entry_expired (snd p) now) l) = filter (\<lambda>p. content_live now (snd p)) (contents l)"
  by (induction l) (auto simp: contents_def expired_content)

lemma map_of_contents: "map_of (contents l) k = map_option content (map_of l k)"
  by (induction l) (auto simp: contents_def)

lemma abs_cache_get:
  assumes "cache_inv c"
  shows "map_of (abs_cache c) k = map_option content (m_get (items c) k)"
proof -
  have wf: "gomap_wf (items c)" using assms by (simp add: cache_inv_def)
  then have "distinct (map fst (sort_key ord (items c)))" by (simp add: gomap_wf_def distinct_map)
  then have "map_of (sort_key ord (items c)) = map_of (items c)"
    using wf by (intro map_of_eqI) (auto simp: gomap_wf_def)
  then show ?thesis by (simp add: abs_cache_def map_of_contents)
qed

lemma length_abs: "length (abs_cache c) = length (items c)"
  by (simp add: abs_cache_def)

text \<open>Writing and touching an entry put it at the most recent end.\<close>

lemma recent_entry:
  assumes inv: "cache_inv c" and len: "length (items c) < 2 ^ 63"
    and run: "Cache_nextAccessOrderLocked c = (n, c1)" and e: "e_accessOrder e = n"
    and c': "c' = c1\<lparr>items := m_put k e (items c1)\<rparr>"
  shows "cache_inv c'" "abs_cache c' = lru_remove k (abs_cache c) @ [(k, content e)]"
    "settings c' = settings c" "c_bloom c' = c_bloom c"
proof -
  obtain l where l: "by_recency (items c1) l" "contents l = abs_cache c" "gomap_wf (items c1)"
      "\<forall>p \<in> set (items c1). ord p < n" "nextAccessOrder c1 = n" "settings c1 = settings c" "c_bloom c1 = c_bloom c"
    using next_recency [OF inv len run] by metis
  have rec: "by_recency (items c') (filter (\<lambda>p. fst p \<noteq> k) l @ [(k, e)])"
    using by_recency_put [OF l(1,3), of e k] l(4) e by (simp add: c')
  have wf: "gomap_wf (items c')" using l(3) by (simp add: c')
  note dist = by_recency_ord_distinct [OF rec wf]
  have "\<forall>p \<in> set (items c'). ord p \<le> n"
  proof -
    have "set (items c') \<subseteq> set (items c1) \<union> {(k, e)}"
      using rec l(1) by (auto simp: by_recency_def)
    then show ?thesis using l(4) e by fastforce
  qed
  then show "cache_inv c'" using wf dist l(5) by (simp add: cache_inv_def c')
  show "abs_cache c' = lru_remove k (abs_cache c) @ [(k, content e)]"
    using abs_cacheI [OF rec dist] by (simp add: contents_remove l(2))
  show "settings c' = settings c" "c_bloom c' = c_bloom c" using l(6,7) by (simp_all add: c')
qed

lemma put_entry_abs:
  assumes "cache_inv c" "length (items c) < 2 ^ 63"
  shows "cache_inv (put_entry k v x s neg c)"
    "abs_cache (put_entry k v x s neg c) = lru_remove k (abs_cache c) @ [(k, v, x, s, neg)]"
    "settings (put_entry k v x s neg c) = settings c" "c_bloom (put_entry k v x s neg c) = c_bloom c"
proof -
  obtain n c1 where run: "Cache_nextAccessOrderLocked c = (n, c1)" by (cases "Cache_nextAccessOrderLocked c")
  let ?e = "\<lparr>e_value = v, e_expiresAt = x, e_staleUntil = s, e_accessOrder = n, e_negative = neg\<rparr>"
  have "put_entry k v x s neg c = c1\<lparr>items := m_put k ?e (items c1)\<rparr>" by (simp add: put_entry_def run)
  from recent_entry [OF assms run _ this]
  show "cache_inv (put_entry k v x s neg c)"
    "abs_cache (put_entry k v x s neg c) = lru_remove k (abs_cache c) @ [(k, v, x, s, neg)]"
    "settings (put_entry k v x s neg c) = settings c" "c_bloom (put_entry k v x s neg c) = c_bloom c"
    by (simp_all add: content_def)
qed

lemma touch_entry_abs:
  assumes "cache_inv c" "length (items c) < 2 ^ 63" "m_get (items c) k = Some ent"
  shows "cache_inv (touch_entry k ent c)" "abs_cache (touch_entry k ent c) = lru_touch k (abs_cache c)"
    "settings (touch_entry k ent c) = settings c" "c_bloom (touch_entry k ent c) = c_bloom c"
proof -
  obtain n c1 where run: "Cache_nextAccessOrderLocked c = (n, c1)" by (cases "Cache_nextAccessOrderLocked c")
  have eq: "touch_entry k ent c = c1\<lparr>items := m_put k (ent\<lparr>e_accessOrder := n\<rparr>) (items c1)\<rparr>"
    by (simp add: touch_entry_def run)
  note R = recent_entry [OF assms(1,2) run _ eq]
  show "cache_inv (touch_entry k ent c)" "settings (touch_entry k ent c) = settings c"
    "c_bloom (touch_entry k ent c) = c_bloom c" using R by simp_all
  show "abs_cache (touch_entry k ent c) = lru_touch k (abs_cache c)"
    using R(2) assms(3) by (simp add: lru_touch_def abs_cache_get [OF assms(1)])
qed

lemma restrict_items:
  assumes inv: "cache_inv c" and rec: "by_recency its l" and wf: "gomap_wf its"
    and sub: "set its \<subseteq> set (items c)"
  shows "cache_inv (c\<lparr>items := its\<rparr>)" "abs_cache (c\<lparr>items := its\<rparr>) = contents l"
proof -
  note dist = by_recency_ord_distinct [OF rec wf]
  show "cache_inv (c\<lparr>items := its\<rparr>)" using inv dist wf sub by (auto simp: cache_inv_def)
  show "abs_cache (c\<lparr>items := its\<rparr>) = contents l" using abs_cacheI [of "c\<lparr>items := its\<rparr>" l] rec dist by simp
qed

lemma delete_abs:
  assumes "cache_inv c"
  shows "cache_inv (c\<lparr>items := m_del k (items c)\<rparr>)" "abs_cache (c\<lparr>items := m_del k (items c)\<rparr>) = lru_remove k (abs_cache c)"
proof -
  have rec: "by_recency (items c) (sort_key ord (items c))" and wf: "gomap_wf (items c)"
    using assms by (simp_all add: cache_inv_def by_recency_sort)
  have "set (m_del k (items c)) \<subseteq> set (items c)" by (auto simp: AList.delete_eq)
  from restrict_items [OF assms by_recency_del [OF rec] gomap_wf_del [OF wf] this]
  show "cache_inv (c\<lparr>items := m_del k (items c)\<rparr>)" "abs_cache (c\<lparr>items := m_del k (items c)\<rparr>) = lru_remove k (abs_cache c)"
    by (simp_all add: contents_remove abs_cache_def)
qed

lemma cache_inv_stats [simp]: "cache_inv (c\<lparr>c_stats := s\<rparr>) = cache_inv c" "abs_cache (c\<lparr>c_stats := s\<rparr>) = abs_cache c"
  "cache_inv (c\<lparr>c_bloom := b\<rparr>) = cache_inv c" "abs_cache (c\<lparr>c_bloom := b\<rparr>) = abs_cache c"
  "cache_inv (record_stat f c) = cache_inv c" "abs_cache (record_stat f c) = abs_cache c" "items (record_stat f c) = items c"
  "c_bloom (record_stat f c) = c_bloom c"
  by (simp_all add: cache_inv_def abs_cache_def record_stat_def)

lemma evict_loop_subset: "set (fst (evict_loop mx its n)) \<subseteq> set its"
proof (induction mx its n rule: evict_loop.induct)
  case (1 mx its n)
  then show ?case by (subst evict_loop.simps) (auto simp: AList.delete_eq)
qed

lemma evictLocked_abs:
  assumes inv: "cache_inv c"
  shows "cache_inv (Cache_evictLocked now c)" "abs_cache (Cache_evictLocked now c) = lru_evict (maxEntries c) now (abs_cache c)"
    "settings (Cache_evictLocked now c) = settings c" "c_bloom (Cache_evictLocked now c) = c_bloom c"
proof -
  have rec: "by_recency (items c) (sort_key ord (items c))" and wf: "gomap_wf (items c)"
    using inv by (simp_all add: cache_inv_def by_recency_sort)
  define its where "its = filter (\<lambda>p. \<not> entry_expired (snd p) now) (items c)"
  define l where "l = filter (\<lambda>p. \<not> entry_expired (snd p) now) (sort_key ord (items c))"
  have rec1: "by_recency its l" unfolding its_def l_def by (rule by_recency_filter [OF rec])
  have wf1: "gomap_wf its" unfolding its_def by (rule gomap_wf_filter [OF wf])
  have sub: "set its \<subseteq> set (items c)" by (auto simp: its_def)
  have l: "contents l = filter (\<lambda>p. content_live now (snd p)) (abs_cache c)"
    by (simp add: l_def contents_live abs_cache_def)
  define n where "n = s_Evictions (c_stats c) + int (length (filter (\<lambda>p. entry_expired (snd p) now) (items c)))"
  let ?r = "evict_loop (nat (maxEntries c)) its n"
  have eq: "Cache_evictLocked now c =
      (if maxEntries c \<le> 0 then c\<lparr>items := its, c_stats := (c_stats c)\<lparr>s_Evictions := n\<rparr>\<rparr>
       else c\<lparr>items := fst ?r, c_stats := (c_stats c)\<lparr>s_Evictions := snd ?r\<rparr>\<rparr>)"
    using m_sweep_eq [OF wf, of "\<lambda>(k, ent). entry_expired ent now"]
    by (simp add: Cache_evictLocked_def Let_def case_prod_unfold its_def n_def)
  show "settings (Cache_evictLocked now c) = settings c" "c_bloom (Cache_evictLocked now c) = c_bloom c"
    by (simp_all add: eq)
  note R = evict_loop_recency [OF rec1 wf1, of "nat (maxEntries c)" n]
  note lru_evict_eq = lru_evict_def [of "maxEntries c" now "abs_cache c", unfolded l [symmetric] Let_def]
  have "cache_inv (Cache_evictLocked now c) \<and> abs_cache (Cache_evictLocked now c) = lru_evict (maxEntries c) now (abs_cache c)"
  proof (cases "maxEntries c \<le> 0")
    case True
    then show ?thesis using restrict_items [OF inv rec1 wf1 sub] by (simp add: eq lru_evict_eq)
  next
    case False
    have "set (fst ?r) \<subseteq> set (items c)" using evict_loop_subset sub by fastforce
    with R have "cache_inv (c\<lparr>items := fst ?r\<rparr>)" "abs_cache (c\<lparr>items := fst ?r\<rparr>) = contents (drop (length its - nat (maxEntries c)) l)"
      using restrict_items [OF inv] by blast+
    then show ?thesis
      using False by_recency_length [OF rec1 wf1] by (simp add: eq lru_evict_eq contents_drop)
  qed
  then show "cache_inv (Cache_evictLocked now c)" "abs_cache (Cache_evictLocked now c) = lru_evict (maxEntries c) now (abs_cache c)"
    by auto
qed

lemma lru_evict_bound: "0 < mx \<Longrightarrow> int (length (lru_evict mx now l)) \<le> mx"
  by (auto simp: lru_evict_def Let_def)

section \<open>Refinement\<close>

text \<open>The calls on a cache, the locked parts of loading included, and what they answer.\<close>

datatype 'v cache_call = CSet string 'v "duration list" time time | CGet string time | CLookup string time
  | CLoaded string "goerror + 'v" time | CRefreshed string "goerror + 'v" time | CDelete string | CClear

datatype 'v reply = RUnit | RValue "'v option" | RFound "'v found" | RBool bool

fun cache_run :: "'f BloomFilter \<Rightarrow> (int \<Rightarrow> int) \<Rightarrow> 'v \<Rightarrow> 'v cache_call \<Rightarrow> ('v, 'f) Cache \<Rightarrow> 'v reply \<times> ('v, 'f) Cache" where
  "cache_run bf draw zero (CSet k v ttl t now) c = (RUnit, Cache_Set draw k v ttl t now c)"
| "cache_run bf draw zero (CGet k now) c = (let (r, c) = Cache_Get k now c in (RValue r, c))"
| "cache_run bf draw zero (CLookup k now) c = (let (r, c) = Cache_lookup k now c in (RFound r, c))"
| "cache_run bf draw zero (CLoaded k r now) c = (RUnit, load_store bf draw zero k r now c)"
| "cache_run bf draw zero (CRefreshed k r now) c = (RUnit, refresh_store draw k r now c)"
| "cache_run bf draw zero (CDelete k) c = (let (r, c) = Cache_Delete k c in (RBool r, c))"
| "cache_run bf draw zero CClear c = (RUnit, Cache_Clear c)"

text \<open>The same calls on the abstract cache; \<open>cfg\<close> holds the settings.\<close>

definition lru_find :: "string \<Rightarrow> time \<Rightarrow> (string \<times> 'v content) list \<Rightarrow> 'v found" where
  "lru_find k now l =
     (case map_of l k of
        None \<Rightarrow> Missing
      | Some (v, x, s, neg) \<Rightarrow>
          if content_live now (v, x, s, neg)
          then if neg then Negative else if x = 0 \<or> now < x then Fresh v else Stale v
          else Missing)"

definition lru_access :: "string \<Rightarrow> time \<Rightarrow> (string \<times> 'v content) list \<Rightarrow> (string \<times> 'v content) list" where
  "lru_access k now l =
     (case map_of l k of None \<Rightarrow> l | Some x \<Rightarrow> if content_live now x then lru_touch k l else lru_remove k l)"

fun lru_run :: "(int \<Rightarrow> int) \<Rightarrow> 'v \<Rightarrow> ('v, 'f) Cache \<Rightarrow> 'v cache_call \<Rightarrow> (string \<times> 'v content) list \<Rightarrow>
    'v reply \<times> (string \<times> 'v content) list" where
  "lru_run draw zero cfg (CSet k v ttl t now) l =
     (RUnit, if k = '''' then l
       else let (x, s) = Cache_deadlines draw cfg ttl t in lru_put (maxEntries cfg) now k (v, x, s, False) l)"
| "lru_run draw zero cfg (CGet k now) l =
     (if k = '''' then (RValue None, l)
      else (RValue (case map_of l k of None \<Rightarrow> None | Some x \<Rightarrow> if content_live now x then Some (fst x) else None), lru_access k now l))"
| "lru_run draw zero cfg (CLookup k now) l = (RFound (lru_find k now l), lru_access k now l)"
| "lru_run draw zero cfg (CLoaded k r now) l =
     (RUnit, case r of
        Inl err \<Rightarrow>
          if negativeTTL cfg > 0 \<and> errors_Is err (Cache_notFoundError cfg)
          then let x = now + Cache_jitterTTL draw cfg (negativeTTL cfg) in lru_put (maxEntries cfg) now k (zero, x, x, True) l
          else l
      | Inr v \<Rightarrow>
          let x = now + Cache_jitterTTL draw cfg (defaultTTL cfg)
          in lru_put (maxEntries cfg) now k (v, x, x + staleWhileRevalidate cfg, False) l)"
| "lru_run draw zero cfg (CRefreshed k r now) l =
     (RUnit, case r of
        Inl err \<Rightarrow> l
      | Inr v \<Rightarrow>
          let x = now + Cache_jitterTTL draw cfg (defaultTTL cfg)
          in lru_put (maxEntries cfg) now k (v, x, x + staleWhileRevalidate cfg, False) l)"
| "lru_run draw zero cfg (CDelete k) l = (RBool (k \<noteq> '''' \<and> map_of l k \<noteq> None), if k = '''' then l else lru_remove k l)"
| "lru_run draw zero cfg CClear l = (RUnit, [])"

text \<open>Writing an entry and evicting, the common end of all writers.\<close>

lemma write_abs:
  assumes "cache_inv c" "length (items c) < 2 ^ 63"
  shows "cache_inv (Cache_evictLocked now (put_entry k v x s neg c))"
    "abs_cache (Cache_evictLocked now (put_entry k v x s neg c)) = lru_put (maxEntries c) now k (v, x, s, neg) (abs_cache c)"
    "settings (Cache_evictLocked now (put_entry k v x s neg c)) = settings c"
    "c_bloom (Cache_evictLocked now (put_entry k v x s neg c)) = c_bloom c"
proof -
  note P = put_entry_abs [OF assms, of k v x s neg] and E = evictLocked_abs [OF put_entry_abs(1) [OF assms, of k v x s neg], of now]
  have "maxEntries (put_entry k v x s neg c) = maxEntries c"
    using P(3) settings_sel(1) [of "put_entry k v x s neg c"] settings_sel(1) [of c] by simp
  with P E show "cache_inv (Cache_evictLocked now (put_entry k v x s neg c))"
    "abs_cache (Cache_evictLocked now (put_entry k v x s neg c)) = lru_put (maxEntries c) now k (v, x, s, neg) (abs_cache c)"
    "settings (Cache_evictLocked now (put_entry k v x s neg c)) = settings c"
    "c_bloom (Cache_evictLocked now (put_entry k v x s neg c)) = c_bloom c"
    by (simp_all add: lru_put_def)
qed

lemma evictLocked_frame:
  "Cache_evictLocked now (record_stat (\<lambda>s. s\<lparr>s_Negatives := f s\<rparr>) c) = record_stat (\<lambda>s. s\<lparr>s_Negatives := f s\<rparr>) (Cache_evictLocked now c)"
  if "\<And>s e. f (s\<lparr>s_Evictions := e\<rparr>) = f s" for f
  using that by (simp add: Cache_evictLocked_def record_stat_def Let_def split_beta)

lemma live_entry: "entry_fresh e now \<or> entry_stale e now \<longleftrightarrow> content_live now (content e)"
  using expired_content [of e now] by (auto simp: entry_expired_def)

lemma Cache_Get_abs:
  assumes "cache_inv c" "length (items c) < 2 ^ 63" "\<not> c_disabled c" "k \<noteq> ''''" "Cache_Get k now c = (r, c')"
  shows "cache_inv c' \<and> settings c' = settings c \<and> c_bloom c' = c_bloom c \<and> abs_cache c' = lru_access k now (abs_cache c) \<and>
     r = (case map_of (abs_cache c) k of None \<Rightarrow> None | Some x \<Rightarrow> if content_live now x then Some (fst x) else None)"
proof (cases "m_get (items c) k")
  case None
  then show ?thesis
    using assms by (auto simp: Cache_Get_def Cache_recordMiss_def lru_access_def abs_cache_get)
next
  case (Some ent)
  show ?thesis
  proof (cases "entry_expired ent now")
    case True
    then show ?thesis
      using assms Some delete_abs [OF assms(1), of k]
      by (auto simp: Cache_Get_def lru_access_def abs_cache_get expired_content)
  next
    case False
    then show ?thesis
      using assms Some touch_entry_abs [OF assms(1,2) Some]
      by (auto simp: Cache_Get_def lru_access_def abs_cache_get expired_content content_def)
  qed
qed

lemma Cache_lookup_abs:
  assumes "cache_inv c" "length (items c) < 2 ^ 63" "Cache_lookup k now c = (r, c')"
  shows "cache_inv c' \<and> settings c' = settings c \<and> c_bloom c' = c_bloom c \<and> abs_cache c' = lru_access k now (abs_cache c) \<and>
     r = lru_find k now (abs_cache c)"
proof (cases "m_get (items c) k")
  case None
  then show ?thesis
    using assms by (auto simp: Cache_lookup_def Cache_recordMiss_def lru_access_def lru_find_def abs_cache_get)
next
  case (Some ent)
  have found: "map_of (abs_cache c) k = Some (content ent)" using Some assms(1) by (simp add: abs_cache_get)
  show ?thesis
  proof (cases "entry_fresh ent now \<or> entry_stale ent now")
    case True
    then have "content_live now (content ent)" by (simp add: live_entry)
    then show ?thesis
      using True assms(3) Some touch_entry_abs [OF assms(1,2) Some] found
      by (auto simp: Cache_lookup_def lru_access_def lru_find_def content_def entry_fresh_def split: if_splits)
  next
    case False
    then have "\<not> content_live now (content ent)" by (simp add: live_entry)
    then show ?thesis
      using False assms(3) Some delete_abs [OF assms(1), of k] found
      by (auto simp: Cache_lookup_def lru_access_def lru_find_def content_def)
  qed
qed

lemma load_store_abs:
  assumes "cache_inv c" "length (items c) < 2 ^ 63"
  shows "cache_inv (load_store bf draw zero k r now c) \<and> settings (load_store bf draw zero k r now c) = settings c \<and>
     abs_cache (load_store bf draw zero k r now c) = snd (lru_run draw zero (settings c) (CLoaded k r now) (abs_cache c))"
proof (cases r)
  case (Inl err)
  let ?c = "Cache_recordLoadError c"
  have inv: "cache_inv ?c" "length (items ?c) < 2 ^ 63" "settings ?c = settings c" "abs_cache ?c = abs_cache c"
    using assms by (simp_all add: Cache_recordLoadError_def)
  have "negativeTTL ?c = negativeTTL c" "Cache_notFoundError ?c = Cache_notFoundError c"
      "\<And>t. Cache_jitterTTL draw ?c t = Cache_jitterTTL draw c t" "maxEntries ?c = maxEntries c"
    by (simp_all add: Cache_recordLoadError_def record_stat_def Cache_notFoundError_def Cache_jitterTTL_def)
  then show ?thesis
    using inv write_abs [OF inv(1,2)] by (simp add: Inl load_store_def Let_def evictLocked_frame)
next
  case (Inr v)
  let ?c = "Cache_recordLoad c"
  have inv: "cache_inv ?c" "length (items ?c) < 2 ^ 63" "settings ?c = settings c" "abs_cache ?c = abs_cache c"
    using assms by (simp_all add: Cache_recordLoad_def)
  have same: "defaultTTL ?c = defaultTTL c" "staleWhileRevalidate ?c = staleWhileRevalidate c"
      "\<And>t. Cache_jitterTTL draw ?c t = Cache_jitterTTL draw c t" "maxEntries ?c = maxEntries c"
    by (simp_all add: Cache_recordLoad_def record_stat_def Cache_jitterTTL_def)
  have bloom: "Cache_evictLocked now (d\<lparr>c_bloom := b\<rparr>) = (Cache_evictLocked now d)\<lparr>c_bloom := b\<rparr>" for d :: "('a, 'b) Cache" and b
    by (simp add: Cache_evictLocked_def Let_def split_beta)
  show ?thesis
    using inv write_abs [OF inv(1,2)]
    by (simp add: Inr load_store_def Let_def same bloom split: option.split)
qed

lemma refresh_store_abs:
  assumes "cache_inv c" "length (items c) < 2 ^ 63"
  shows "cache_inv (refresh_store draw k r now c) \<and> settings (refresh_store draw k r now c) = settings c \<and>
     abs_cache (refresh_store draw k r now c) = snd (lru_run draw zero (settings c) (CRefreshed k r now) (abs_cache c))"
proof (cases r)
  case (Inl err)
  then show ?thesis using assms by (simp add: refresh_store_def Cache_recordLoadError_def)
next
  case (Inr v)
  let ?c = "record_stat (\<lambda>s. s\<lparr>s_Loads := s_Loads s + 1, s_Refreshes := s_Refreshes s + 1\<rparr>) c"
  have inv: "cache_inv ?c" "length (items ?c) < 2 ^ 63" using assms by simp_all
  have same: "defaultTTL ?c = defaultTTL c" "staleWhileRevalidate ?c = staleWhileRevalidate c"
      "\<And>t. Cache_jitterTTL draw ?c t = Cache_jitterTTL draw c t" "maxEntries ?c = maxEntries c"
    by (simp_all add: record_stat_def Cache_jitterTTL_def)
  show ?thesis using write_abs [OF inv] by (simp add: Inr refresh_store_def Let_def same)
qed

lemma lru_access_length: "length (lru_access k now l) \<le> length l"
proof -
  have "length (lru_remove k l) < length l" if "map_of l k = Some x" for x
    using map_of_SomeD [OF that] unfolding lru_remove_def by (intro length_filter_less [of "(k, x)"]) auto
  moreover have "length (lru_remove k l) \<le> length l" by (simp add: lru_remove_def)
  ultimately show ?thesis by (auto simp: lru_access_def lru_touch_def Suc_le_eq split: option.split)
qed

lemma lru_run_bound:
  assumes "0 < maxEntries cfg" "int (length l) \<le> maxEntries cfg"
  shows "int (length (snd (lru_run draw zero cfg call l))) \<le> maxEntries cfg"
proof -
  have put: "int (length (lru_put (maxEntries cfg) now k x l)) \<le> maxEntries cfg" for now k x
    using lru_evict_bound [OF assms(1)] by (simp add: lru_put_def)
  have access: "int (length (lru_access k now l)) \<le> maxEntries cfg" for k now
    using lru_access_length [of k now l] assms(2) by linarith
  have remove: "int (length (lru_remove k l)) \<le> maxEntries cfg" for k
    using assms(2) length_filter_le [of "\<lambda>p. fst p \<noteq> k" l] unfolding lru_remove_def by linarith
  show ?thesis
    using assms put access remove by (cases call) (auto simp: Let_def split: sum.split prod.split)
qed

text \<open>
  C26. The cache refines the abstract one: on an enabled cache with fewer than $2^{63}$ entries every
  call, including the one at which the 64-bit recency counter is rebased, answers as the list of
  contents in order of use does, and leaves the cache with the contents of that list in that order;
  expired contents go first and then the least recently used ones. The invariant is kept, no setting
  changes, and a bounded cache stays within its bound.
\<close>

theorem Cache_refines_lru:
  assumes "cache_inv c" "length (items c) < 2 ^ 63" "\<not> c_disabled c" "cache_run bf draw zero call c = (r, c')"
  shows "lru_run draw zero (settings c) call (abs_cache c) = (r, abs_cache c') \<and> cache_inv c' \<and> settings c' = settings c \<and>
     (0 < maxEntries c \<and> int (length (items c)) \<le> maxEntries c \<longrightarrow> int (length (items c')) \<le> maxEntries c)"
proof -
  have main: "lru_run draw zero (settings c) call (abs_cache c) = (r, abs_cache c') \<and> cache_inv c' \<and> settings c' = settings c"
  proof (cases call)
    case (CSet k v ttl t now)
    then show ?thesis
      using assms write_abs [OF assms(1,2)] by (auto simp: Cache_Set_def split_beta Let_def)
  next
    case (CGet k now)
    show ?thesis
    proof (cases "k = ''''")
      case True
      then show ?thesis using assms CGet by (auto simp: Cache_Get_def)
    next
      case False
      obtain r1 where "Cache_Get k now c = (r1, c')" "r = RValue r1" using assms(4) CGet by (auto split: prod.splits)
      with Cache_Get_abs [OF assms(1-3) False] CGet False show ?thesis by simp
    qed
  next
    case (CLookup k now)
    obtain r1 where "Cache_lookup k now c = (r1, c')" "r = RFound r1" using assms(4) CLookup by (auto split: prod.splits)
    with Cache_lookup_abs [OF assms(1,2)] CLookup show ?thesis by simp
  next
    case (CLoaded k res now)
    then show ?thesis using assms(4) load_store_abs [OF assms(1,2), of bf draw zero k res now] by (auto simp: prod_eq_iff)
  next
    case (CRefreshed k res now)
    then show ?thesis using assms(4) refresh_store_abs [OF assms(1,2), of draw k res now zero] by (auto simp: prod_eq_iff)
  next
    case (CDelete k)
    have "lru_remove k (abs_cache c) = abs_cache c" if "m_get (items c) k = None"
    proof -
      have "map_of (abs_cache c) k = None" using that abs_cache_get [OF assms(1), of k] by simp
      then show ?thesis by (force simp: lru_remove_def map_of_eq_None_iff filter_id_conv)
    qed
    then show ?thesis
      using assms CDelete delete_abs [OF assms(1), of k]
      by (auto simp: Cache_Delete_def abs_cache_get split: option.splits if_splits)
  next
    case CClear
    have "gomap_wf (items c)" using assms(1) by (simp add: cache_inv_def)
    then show ?thesis
      using assms CClear by (auto simp: Cache_Clear_def m_sweep_eq cache_inv_def abs_cache_def contents_def)
  qed
  have "int (length (items c')) \<le> maxEntries c" if "0 < maxEntries c" "int (length (items c)) \<le> maxEntries c"
    using lru_run_bound [of "settings c" "abs_cache c" draw zero call] main that by (simp add: length_abs)
  with main show ?thesis by blast
qed

text \<open>At the rollover of the counter the least recently used entry, not the newest, is evicted.\<close>

theorem Cache_refines_lru_witness:
  "let c0 = (Cache_New False [WithMaxEntries 2] :: (int, unit) Cache);
       ent = \<lparr>e_value = 1, e_expiresAt = 0, e_staleUntil = 0, e_accessOrder = 5, e_negative = False\<rparr>;
       c = c0\<lparr>items := [(''a'', ent), (''b'', ent\<lparr>e_accessOrder := 3\<rparr>)], nextAccessOrder := - 1\<rparr>;
       bf = \<lparr>bf_ContainsString = (\<lambda>k f. True), bf_AddString = (\<lambda>k f. f)\<rparr>
   in map fst (abs_cache (snd (cache_run bf (\<lambda>n. 0) 0 (CSet ''c'' 7 [] 10 10) c))) = [''a'', ''c'']"
proof -
  define c0 where "c0 = (Cache_New False [WithMaxEntries 2] :: (int, unit) Cache)"
  define ent :: "int entry" where "ent = \<lparr>e_value = 1, e_expiresAt = 0, e_staleUntil = 0, e_accessOrder = 5, e_negative = False\<rparr>"
  define c where "c = c0\<lparr>items := [(''a'', ent), (''b'', ent\<lparr>e_accessOrder := 3\<rparr>)], nextAccessOrder := - 1\<rparr>"
  define bf :: "unit BloomFilter" where "bf = \<lparr>bf_ContainsString = (\<lambda>k f. True), bf_AddString = (\<lambda>k f. f)\<rparr>"
  obtain r c' where run: "cache_run bf (\<lambda>n. 0) 0 (CSet ''c'' 7 [] 10 10) c = (r, c')"
    by (cases "cache_run bf (\<lambda>n. 0) 0 (CSet ''c'' 7 [] 10 10) c")
  have sel: "c_disabled c = False" "maxEntries c = 2" "defaultTTL c = Minute" "ttlJitter c = 0" "staleWhileRevalidate c = 0"
    by (simp_all add: c_def c0_def Cache_New_def Let_def)
  have its: "items c = [(''a'', ent), (''b'', ent\<lparr>e_accessOrder := 3\<rparr>)]" "nextAccessOrder c = - 1" "e_accessOrder ent = 5"
    by (simp_all add: c_def ent_def)
  have "cache_inv c" "length (items c) < 2 ^ 63" "\<not> c_disabled c"
    by (simp_all add: cache_inv_def gomap_wf_def its sel)
  from Cache_refines_lru [OF this run]
  have "abs_cache c' = snd (lru_run (\<lambda>n. 0) 0 (settings c) (CSet ''c'' 7 [] 10 10) (abs_cache c))" by simp
  also have "abs_cache c = [(''b'', 1, 0, 0, False), (''a'', 1, 0, 0, False)]"
    by (simp add: abs_cache_def its contents_def content_def) (simp add: ent_def)
  finally have abs: "abs_cache c' = lru_put 2 10 ''c'' (7, 10 + Minute, 10 + Minute, False) [(''b'', 1, 0, 0, False), (''a'', 1, 0, 0, False)]"
    by (simp add: sel Cache_deadlines_def Cache_jitterTTL_def Let_def)
  have "map fst (abs_cache c') = [''a'', ''c'']"
    unfolding abs by (simp add: lru_put_def lru_evict_def lru_remove_def content_live_def Let_def)
  then show ?thesis
    unfolding Let_def c0_def [symmetric] ent_def [symmetric] c_def [symmetric] bf_def [symmetric] run snd_conv .
qed

section \<open>Loading through the cache\<close>

text \<open>What \<^verbatim>\<open>New\<close> guarantees whatever the options: an empty cache with a positive lifetime.\<close>

definition settings_ok :: "('v, 'f) Cache \<Rightarrow> bool" where
  "settings_ok c \<longleftrightarrow> 0 < defaultTTL c \<and> 0 \<le> staleWhileRevalidate c \<and> 0 \<le> maxEntries c \<and> ttlJitter c < 1 \<and> items c = []"

lemma jitter_cap: "fl (99 / 100) < 1"
proof -
  have "fl (99 / 100) \<le> 99 / 100 * one_ulp" by (rule fl_upper) simp
  also have "\<dots> < 1" by (simp add: one_ulp_def)
  finally show ?thesis .
qed

lemma apply_cache_option_ok: "settings_ok c \<Longrightarrow> settings_ok (apply_cache_option opt c)"
  using jitter_cap by (cases opt) (auto simp: settings_ok_def Let_def)

lemma fold_cache_option_ok: "settings_ok c \<Longrightarrow> settings_ok (fold apply_cache_option opts c)"
  by (induction opts arbitrary: c) (simp_all add: apply_cache_option_ok)

lemma Cache_New_ok: "settings_ok (Cache_New env opts)" "cache_inv (Cache_New env opts)" "abs_cache (Cache_New env opts) = []"
proof -
  let ?c = "\<lparr>items = [], c_loader = None, defaultTTL = Minute, staleWhileRevalidate = 0, refreshTimeout = 5 * Second,
             maxEntries = 0, nextAccessOrder = 0, c_name = '''', c_stats = stats_zero, ttlJitter = 0, negativeTTL = 0,
             notFoundErr = Some Cache_ErrNotFound, c_bloom = None, c_disabled = env\<rparr>"
  have "settings_ok ?c" by (simp add: settings_ok_def)
  then have ok: "settings_ok (fold apply_cache_option opts ?c)" by (rule fold_cache_option_ok)
  then show "settings_ok (Cache_New env opts)" by (simp add: Cache_New_def settings_ok_def Let_def)
  then show "cache_inv (Cache_New env opts)" "abs_cache (Cache_New env opts) = []"
    by (simp_all add: cache_inv_def settings_ok_def abs_cache_def contents_def)
qed

text \<open>A jittered lifetime is positive and not longer than the lifetime.\<close>

lemma jitterTTL_bounds:
  assumes "draws draw" "0 < ttl" "ttlJitter c \<le> 999 / 1000"
  shows "0 < Cache_jitterTTL draw c ttl" "Cache_jitterTTL draw c ttl \<le> ttl"
proof -
  let ?m = "\<lfloor>fmul (float64_of_int ttl) (ttlJitter c)\<rfloor>"
  have "?m < ttl" if "0 < ttlJitter c"
  proof -
    have f: "0 < float64_of_int ttl" "float64_of_int ttl \<le> of_int ttl * one_ulp"
      using assms(2) fl_upper [of "of_int ttl"] by (simp_all add: float64_of_int_def)
    have "fmul (float64_of_int ttl) (ttlJitter c) \<le> float64_of_int ttl * ttlJitter c * one_ulp"
      unfolding fmul_def using f(1) that by (intro fl_upper) simp
    also have "\<dots> \<le> (of_int ttl * one_ulp) * (999 / 1000) * one_ulp"
      using f assms(3) that by (intro mult_right_mono mult_mono) (simp_all add: less_imp_le)
    also have "\<dots> = of_int ttl * (one_ulp * (999 / 1000) * one_ulp)" by simp
    also have "\<dots> < of_int ttl * 1"
      using assms(2) by (intro mult_strict_left_mono) (simp_all add: one_ulp_def)
    finally show ?thesis by (simp add: floor_less_iff)
  qed
  moreover have "0 \<le> draw (?m + 1) \<and> draw (?m + 1) < ?m + 1" if "0 < ?m"
    using assms(1) [unfolded draws_def, rule_format, of "?m + 1"] that by linarith
  ultimately show "0 < Cache_jitterTTL draw c ttl" "Cache_jitterTTL draw c ttl \<le> ttl"
    using assms(2) by (auto simp: Cache_jitterTTL_def Let_def)
qed

lemma lru_put_get:
  assumes "content_live now x"
  shows "map_of (lru_put mx now k x l) k = Some x"
proof -
  let ?l = "filter (\<lambda>p. content_live now (snd p)) (lru_remove k l)"
  have eq: "lru_put mx now k x l = (if mx \<le> 0 then ?l @ [(k, x)] else drop (Suc (length ?l) - nat mx) ?l @ [(k, x)])"
    using assms by (auto simp: lru_put_def lru_evict_def Let_def)
  have "map_of ?l k = None" by (auto simp: map_of_eq_None_iff lru_remove_def)
  moreover from this have "map_of (drop n ?l) k = None" for n
    using set_drop_subset [of n ?l] unfolding map_of_eq_None_iff by blast
  ultimately show ?thesis by (simp add: eq map_add_def)
qed

lemma settings_eqD:
  assumes "settings c1 = settings c"
  shows "c_loader c1 = c_loader c" "Cache_notFoundError c1 = Cache_notFoundError c" "c_disabled c1 = c_disabled c"
    "maxEntries c1 = maxEntries c" "defaultTTL c1 = defaultTTL c" "staleWhileRevalidate c1 = staleWhileRevalidate c"
    "ttlJitter c1 = ttlJitter c"
  using assms settings_sel [where c = c1] settings_sel [where c = c] by metis+

lemma Cache_Get_result:
  assumes "cache_inv c" "\<not> c_disabled c" "k \<noteq> ''''"
  shows "fst (Cache_Get k now c) =
     (case map_of (abs_cache c) k of None \<Rightarrow> None | Some x \<Rightarrow> if content_live now x then Some (fst x) else None)"
  using assms
  by (auto simp: Cache_Get_def abs_cache_get expired_content content_def split: option.split)

lemma load_then_get:
  assumes "cache_inv d" "length (items d) < 2 ^ 63" "\<not> c_disabled d" "k \<noteq> ''''"
    and "draws draw" "0 < defaultTTL d" "0 \<le> staleWhileRevalidate d" "ttlJitter d \<le> 999 / 1000"
  shows "fst (Cache_Get k now (load_store bf draw zero k (Inr v) now d)) = Some v"
proof -
  let ?d = "load_store bf draw zero k (Inr v) now d"
  note A = load_store_abs [OF assms(1,2), of bf draw zero k "Inr v" now]
  let ?x = "now + Cache_jitterTTL draw d (defaultTTL d)"
  have "content_live now (v, ?x, ?x + staleWhileRevalidate d, False)"
    using jitterTTL_bounds(1) [OF assms(5,6,8)] by (simp add: content_live_def)
  then have "map_of (abs_cache ?d) k = Some (v, ?x, ?x + staleWhileRevalidate d, False)"
    using A by (simp add: lru_put_get Let_def)
  moreover have "\<not> c_disabled ?d" using A assms(3) settings_eqD(3) by blast
  ultimately show ?thesis
    using A \<open>content_live now (v, ?x, ?x + staleWhileRevalidate d, False)\<close> assms(4) by (simp add: Cache_Get_result)
qed

text \<open>
  C27. \<^verbatim>\<open>GetOrLoad\<close> on an enabled cache: a fresh value is returned without loading, a stale one too, with
  a background refresh when there is a loader; a remembered not-found and a key rejected by the
  filter give the not-found error without calling the loader; otherwise the loader decides, its error
  is wrapped, and a value loaded by this caller is found by a \<^verbatim>\<open>Get\<close> at the instant it was stored. A disabled cache only
  passes the loader's answer through and stores nothing.
\<close>

theorem Cache_GetOrLoad_spec:
  assumes inv: "cache_inv c" "length (items c) < 2 ^ 63" and env: "\<forall>d. cache_inv d \<longrightarrow> cache_inv (env d) \<and> settings (env d) = settings d \<and> length (items (env d)) < 2 ^ 63"
    and key: "key \<noteq> ''''" and cfg: "draws draw" "0 < defaultTTL c" "0 \<le> staleWhileRevalidate c" "ttlJitter c \<le> 999 / 1000"
    and run: "Cache_GetOrLoad bf draw zero key loaders now later flight env c = (res, called, refresh, c')"
    and loader: "loader = firstLoader (c_loader c) loaders"
    and rejected: "rejected \<longleftrightarrow> (case c_bloom c of None \<Rightarrow> False | Some f \<Rightarrow> \<not> bf_ContainsString bf key f)"
  shows "if c_disabled c
     then items c' = items (if loader = None then c else env (Cache_recordMiss c)) \<and> \<not> refresh \<and> (called \<longleftrightarrow> loader \<noteq> None) \<and>
          res = (case loader of None \<Rightarrow> Inl ErrLoaderNil | Some f \<Rightarrow> wrap_load (f key))
     else case lru_find key now (abs_cache c) of
         Fresh v \<Rightarrow> res = Inr v \<and> \<not> called \<and> \<not> refresh
       | Stale v \<Rightarrow> res = Inr v \<and> \<not> called \<and> (refresh \<longleftrightarrow> loader \<noteq> None)
       | Negative \<Rightarrow> res = Inl (Cache_notFoundError c) \<and> \<not> called \<and> \<not> refresh
       | Missing \<Rightarrow> \<not> refresh \<and>
           (if rejected then res = Inl (Cache_notFoundError c) \<and> \<not> called
            else case loader of
                None \<Rightarrow> res = Inl ErrLoaderNil \<and> \<not> called
              | Some f \<Rightarrow>
                  (case flight of
                     Shared r \<Rightarrow> res = wrap_load r \<and> \<not> called
                   | Leader \<Rightarrow> called \<and> res = wrap_load (f key) \<and>
                       (\<forall>v. f key = Inr v \<longrightarrow> fst (Cache_Get key later c') = Some v)))"
proof (cases "c_disabled c")
  case True
  then show ?thesis
    using run key loader
    by (auto simp: Cache_GetOrLoad_def Let_def Cache_recordMiss_def Cache_recordLoad_def Cache_recordLoadError_def wrap_load_def
        record_stat_def split: option.splits sum.splits)
next
  case False
  obtain r c1 where look: "Cache_lookup key now c = (r, c1)" by (cases "Cache_lookup key now c")
  have L: "cache_inv c1" "settings c1 = settings c" "c_bloom c1 = c_bloom c" "r = lru_find key now (abs_cache c)"
    using Cache_lookup_abs [OF inv look] by simp_all
  note S = settings_eqD [OF L(2)]
  have get: "fst (Cache_Get key later (load_store bf draw zero key (Inr v) later (env c1))) = Some v" for v
  proof -
    have "cache_inv (env c1)" "settings (env c1) = settings c" "length (items (env c1)) < 2 ^ 63"
      using env L(1,2) by auto
    then show ?thesis
      using load_then_get [of "env c1" key draw] False key cfg settings_eqD [of "env c1" c] by simp
  qed
  have rej: "(case c_bloom c1 of None \<Rightarrow> False | Some f \<Rightarrow> \<not> bf_ContainsString bf key f) = rejected"
    by (simp add: rejected L(3))
  note run' = run [unfolded Cache_GetOrLoad_def, simplified key False look L(4) if_False prod.case simp_thms rej S loader [symmetric]]
  show ?thesis
  proof (cases "lru_find key now (abs_cache c)")
    case Missing
    have hit: "fst (Cache_Get key later (load_store bf draw zero key (f key) later (env c1))) = Some v" if "f key = Inr v" for f v
      using get that by simp
    show ?thesis
    proof (cases rejected)
      case True
      then show ?thesis using run' Missing False by simp
    next
      case nr: False
      then show ?thesis
        using run' Missing False hit by (cases loader; cases flight) auto
    qed
  qed (use run' False in auto)
qed

text \<open>While the loader runs another goroutine empties the cache; the loaded value is found all the same.\<close>

theorem Cache_GetOrLoad_spec_witness:
  "let c = (Cache_New False [] :: (int, unit) Cache);
       bf = \<lparr>bf_ContainsString = (\<lambda>k f. True), bf_AddString = (\<lambda>k f. f)\<rparr>;
       (res, called, refresh, c') = Cache_GetOrLoad bf (\<lambda>n. 0) 0 ''k'' [Some (\<lambda>key. Inr 7)] 10 12 Leader (\<lambda>d. d\<lparr>items := []\<rparr>) c
   in res = Inr 7 \<and> called \<and> fst (Cache_Get ''k'' 12 c') = Some 7"
proof -
  define c where "c = (Cache_New False [] :: (int, unit) Cache)"
  define bf :: "unit BloomFilter" where "bf = \<lparr>bf_ContainsString = (\<lambda>k f. True), bf_AddString = (\<lambda>k f. f)\<rparr>"
  define env :: "(int, unit) Cache \<Rightarrow> (int, unit) Cache" where "env = (\<lambda>d. d\<lparr>items := []\<rparr>)"
  define loader :: "int Loader" where "loader = (\<lambda>key. Inr 7)"
  obtain res called refresh c' where run:
    "Cache_GetOrLoad bf (\<lambda>n. 0) 0 ''k'' [Some loader] 10 12 Leader env c = (res, called, refresh, c')"
    by (metis prod.exhaust)
  have sel: "c_disabled c = False" "defaultTTL c = Minute" "staleWhileRevalidate c = 0" "ttlJitter c = 0"
      "c_bloom c = None" "items c = []" "abs_cache c = []"
    by (simp_all add: c_def Cache_New_def Let_def abs_cache_def contents_def)
  have find: "lru_find ''k'' 10 (abs_cache c) = Missing" by (simp add: lru_find_def sel)
  have "cache_inv c" by (simp add: cache_inv_def sel)
  moreover have "\<forall>d. cache_inv d \<longrightarrow> cache_inv (env d) \<and> settings (env d) = settings d \<and> length (items (env d)) < 2 ^ 63"
    by (simp add: env_def cache_inv_def)
  moreover have "draws (\<lambda>n. 0)" by (simp add: draws_def)
  ultimately have "called \<and> res = wrap_load (loader ''k'') \<and> (\<forall>v. loader ''k'' = Inr v \<longrightarrow> fst (Cache_Get ''k'' 12 c') = Some v)"
    using Cache_GetOrLoad_spec [OF _ _ _ _ _ _ _ _ run refl refl] sel find by simp
  then have "res = Inr 7 \<and> called \<and> fst (Cache_Get ''k'' 12 c') = Some 7" by (simp add: loader_def wrap_load_def)
  then show ?thesis
    unfolding Let_def c_def [symmetric] bf_def [symmetric] env_def [symmetric] loader_def [symmetric] run prod.case .
qed

text \<open>
  Two consequences the code does not intend. A remembered not-found is a hit for \<^verbatim>\<open>Get\<close>, which returns
  the zero value as if it were cached; and a lookup rejected by the filter counts two misses.
\<close>

lemma Cache_Get_negative:
  assumes "\<not> c_disabled c" "k \<noteq> ''''" "m_get (items c) k = Some ent" "e_negative ent" "entry_fresh ent now"
  shows "fst (Cache_Get k now c) = Some (e_value ent)"
  using assms by (simp add: Cache_Get_def entry_expired_def)

lemma Cache_bloom_reject_counts_twice:
  assumes "\<not> c_disabled c" "key \<noteq> ''''" "m_get (items c) key = None" "c_bloom c = Some f" "\<not> bf_ContainsString bf key f"
    and "Cache_GetOrLoad bf draw zero key loaders now later flight env c = (res, called, refresh, c')"
  shows "s_Misses (c_stats c') = s_Misses (c_stats c) + 2"
  using assms
  by (auto simp: Cache_GetOrLoad_def Cache_lookup_def Cache_recordMiss_def Cache_recordBloomReject_def record_stat_def)

section \<open>Model caches\<close>

text \<open>
  The typed front end: a loader by key type \<open>'k\<close>, a key function and a prefix. \<open>sprint\<close> is
  \<^verbatim>\<open>fmt.Sprint\<close> on that type.
\<close>

record ('v, 'f, 'k) ModelCache =
  mc_cache :: "('v, 'f) Cache"
  mc_loader :: "('k \<Rightarrow> goerror + 'v) option"
  mc_key :: "('k \<Rightarrow> string) option"
  mc_prefix :: string

definition ModelCache_cacheKey :: "('k \<Rightarrow> string) \<Rightarrow> ('v, 'f, 'k) ModelCache \<Rightarrow> 'k \<Rightarrow> string" where
  "ModelCache_cacheKey sprint m i =
     (let key = (case mc_key m of None \<Rightarrow> sprint i | Some f \<Rightarrow> f i)
      in if mc_prefix m = '''' then key else mc_prefix m @ '':'' @ key)"

definition ModelCache_Get :: "('k \<Rightarrow> string) \<Rightarrow> 'f BloomFilter \<Rightarrow> (int \<Rightarrow> int) \<Rightarrow> 'v \<Rightarrow> 'k \<Rightarrow> time \<Rightarrow> time \<Rightarrow>
    'v flight \<Rightarrow> (('v, 'f) Cache \<Rightarrow> ('v, 'f) Cache) \<Rightarrow> ('v, 'f, 'k) ModelCache \<Rightarrow> (goerror + 'v) \<times> bool \<times> bool \<times> ('v, 'f, 'k) ModelCache" where
  "ModelCache_Get sprint bf draw zero i now later flight env m =
     (case mc_loader m of
        None \<Rightarrow> (Inl ErrLoaderNil, False, False, m\<lparr>mc_cache := Cache_recordMiss (mc_cache m)\<rparr>)
      | Some load \<Rightarrow>
          let (res, called, refresh, c) =
                Cache_GetOrLoad bf draw zero (ModelCache_cacheKey sprint m i) [Some (\<lambda>_. load i)] now later flight env (mc_cache m)
          in (res, called, refresh, m\<lparr>mc_cache := c\<rparr>))"

definition ModelCache_Set :: "('k \<Rightarrow> string) \<Rightarrow> (int \<Rightarrow> int) \<Rightarrow> 'k \<Rightarrow> 'v \<Rightarrow> duration list \<Rightarrow> time \<Rightarrow> time \<Rightarrow>
    ('v, 'f, 'k) ModelCache \<Rightarrow> ('v, 'f, 'k) ModelCache" where
  "ModelCache_Set sprint draw i v ttl t now m =
     m\<lparr>mc_cache := Cache_Set draw (ModelCache_cacheKey sprint m i) v ttl t now (mc_cache m)\<rparr>"

definition ModelCache_Peek :: "('k \<Rightarrow> string) \<Rightarrow> 'k \<Rightarrow> time \<Rightarrow> ('v, 'f, 'k) ModelCache \<Rightarrow> 'v option \<times> ('v, 'f, 'k) ModelCache" where
  "ModelCache_Peek sprint i now m =
     (let (r, c) = Cache_Get (ModelCache_cacheKey sprint m i) now (mc_cache m) in (r, m\<lparr>mc_cache := c\<rparr>))"

definition ModelCache_Invalidate :: "('k \<Rightarrow> string) \<Rightarrow> 'k \<Rightarrow> ('v, 'f, 'k) ModelCache \<Rightarrow> bool \<times> ('v, 'f, 'k) ModelCache" where
  "ModelCache_Invalidate sprint i m =
     (let (r, c) = Cache_Delete (ModelCache_cacheKey sprint m i) (mc_cache m) in (r, m\<lparr>mc_cache := c\<rparr>))"

definition ModelCache_Clear :: "('v, 'f, 'k) ModelCache \<Rightarrow> ('v, 'f, 'k) ModelCache" where
  "ModelCache_Clear m = m\<lparr>mc_cache := Cache_Clear (mc_cache m)\<rparr>"

definition ModelCache_Snapshot :: "('v, 'f, 'k) ModelCache \<Rightarrow> CacheStats" where
  "ModelCache_Snapshot m = Cache_Snapshot (mc_cache m)"

lemma ModelCache_key_inj:
  assumes "\<And>i j. sprint i = sprint j \<Longrightarrow> i = j" "mc_key m = None"
  shows "ModelCache_cacheKey sprint m i = ModelCache_cacheKey sprint m j \<longleftrightarrow> i = j"
  using assms by (auto simp: ModelCache_cacheKey_def Let_def)

text \<open>An invalidated model is not peeked, other models are.\<close>

lemma ModelCache_Invalidate_then_Peek:
  assumes "cache_inv (mc_cache m)" "length (items (mc_cache m)) < 2 ^ 63" "ModelCache_Invalidate sprint i m = (r, m')"
  shows "fst (ModelCache_Peek sprint i now m') = None"
proof -
  let ?k = "ModelCache_cacheKey sprint m i"
  obtain c where c: "Cache_Delete ?k (mc_cache m) = (r, c)" "m' = m\<lparr>mc_cache := c\<rparr>"
    using assms(3) by (auto simp: ModelCache_Invalidate_def split: prod.splits)
  have key: "ModelCache_cacheKey sprint m' i = ?k" by (simp add: c(2) ModelCache_cacheKey_def Let_def)
  have "m_get (items c) ?k = None \<or> ?k = ''''"
    using c(1) by (auto simp: Cache_Delete_def record_stat_def split: option.splits if_splits)
  then have "fst (Cache_Get ?k now c) = None" by (auto simp: Cache_Get_def)
  then show ?thesis by (simp add: ModelCache_Peek_def key split_beta) (simp add: c(2))
qed

section \<open>The filter through the operations\<close>

lemma c_bloom_next [simp]: "c_bloom (snd (Cache_nextAccessOrderLocked c)) = c_bloom c"
  by (simp add: Cache_nextAccessOrderLocked_def Let_def split_beta)

lemma c_bloom_writers [simp]:
  "c_bloom (put_entry k v x s neg c) = c_bloom c" "c_bloom (touch_entry k ent c) = c_bloom c"
  "c_bloom (Cache_evictLocked now c) = c_bloom c"
  by (simp_all add: put_entry_def touch_entry_def Cache_evictLocked_def Let_def split_beta)

text \<open>Only a successful load touches the filter, and it only adds its key.\<close>

lemma cache_run_bloom:
  "c_bloom (snd (cache_run bf draw zero call c)) =
     (case call of CLoaded k (Inr v) now \<Rightarrow> map_option (bf_AddString bf k) (c_bloom c) | _ \<Rightarrow> c_bloom c)"
proof (cases call)
  case (CLoaded k r now)
  then show ?thesis
    by (cases r) (auto simp: load_store_def Let_def Cache_recordLoad_def Cache_recordLoadError_def split: option.split)
qed (auto simp: Cache_Set_def Cache_Get_def Cache_lookup_def refresh_store_def Cache_Delete_def Cache_Clear_def Let_def
       Cache_recordMiss_def Cache_recordLoadError_def split_beta split: option.split sum.split)

end
