(* ===== verification/Sha256.thy ===== *)
theory Sha256
  imports GoStrings "HOL-Library.Word"
begin

text \<open>
  The hash functions of the Go library that request signing uses (\<^verbatim>\<open>crypto/sha256\<close>, \<^verbatim>\<open>crypto/hmac\<close>,
  \<^verbatim>\<open>encoding/hex\<close>), written out on 32-bit words after FIPS 180-4 and RFC 2104.
\<close>

unbundle bit_operations_syntax

text \<open>
  The round constants and the initial state are the first 32 bits of the fractional parts of the cube
  roots of the first 64 primes, and of the square roots of the first eight.
\<close>

fun int_root :: "nat \<Rightarrow> nat \<Rightarrow> nat \<Rightarrow> nat \<Rightarrow> nat" where
  "int_root k n 0 acc = acc"
| "int_root k n (Suc b) acc = int_root k n b (if (acc + 2 ^ b) ^ k \<le> n then acc + 2 ^ b else acc)"

definition root_fraction :: "nat \<Rightarrow> nat \<Rightarrow> 32 word" where
  "root_fraction k p = of_nat (int_root k (p * 2 ^ (32 * k)) 40 0)"

definition first_primes :: "nat list" where
  "first_primes = filter (\<lambda>n. list_all (\<lambda>d. n mod d \<noteq> 0) [2..<n]) [2..<312]"

definition sha256_K :: "32 word list" where
  "sha256_K = map (root_fraction 3) first_primes"

type_synonym sha_state = "32 word \<times> 32 word \<times> 32 word \<times> 32 word \<times> 32 word \<times> 32 word \<times> 32 word \<times> 32 word"

definition sha256_H :: sha_state where
  "sha256_H =
     (root_fraction 2 2, root_fraction 2 3, root_fraction 2 5, root_fraction 2 7,
      root_fraction 2 11, root_fraction 2 13, root_fraction 2 17, root_fraction 2 19)"

definition sha_s0 :: "32 word \<Rightarrow> 32 word" where
  "sha_s0 x = word_rotr 7 x XOR word_rotr 18 x XOR drop_bit 3 x"

definition sha_s1 :: "32 word \<Rightarrow> 32 word" where
  "sha_s1 x = word_rotr 17 x XOR word_rotr 19 x XOR drop_bit 10 x"

text \<open>The message schedule, kept reversed: the head is the newest word.\<close>

fun schedule :: "nat \<Rightarrow> 32 word list \<Rightarrow> 32 word list" where
  "schedule 0 ws = ws"
| "schedule (Suc n) ws = schedule n ((sha_s1 (ws ! 1) + ws ! 6 + sha_s0 (ws ! 14) + ws ! 15) # ws)"

fun sha_round :: "32 word \<times> 32 word \<Rightarrow> sha_state \<Rightarrow> sha_state" where
  "sha_round (k, w) (a, b, c, d, e, f, g, h) =
     (let S1 = word_rotr 6 e XOR word_rotr 11 e XOR word_rotr 25 e;
          ch = (e AND f) XOR (NOT e AND g);
          t1 = h + S1 + ch + k + w;
          S0 = word_rotr 2 a XOR word_rotr 13 a XOR word_rotr 22 a;
          maj = (a AND b) XOR (a AND c) XOR (b AND c);
          t2 = S0 + maj
      in (t1 + t2, a, b, c, d + t1, e, f, g))"

fun word32_of_bytes :: "8 word list \<Rightarrow> 32 word list" where
  "word32_of_bytes (a # b # c # d # bs) =
     (push_bit 24 (ucast a) OR push_bit 16 (ucast b) OR push_bit 8 (ucast c) OR ucast d) # word32_of_bytes bs"
| "word32_of_bytes _ = []"

definition sha_block :: "8 word list \<Rightarrow> sha_state \<Rightarrow> sha_state" where
  "sha_block block st =
     (let ws = rev (schedule 48 (rev (word32_of_bytes block)))
      in case st of (a, b, c, d, e, f, g, h) \<Rightarrow>
         (case fold sha_round (zip sha256_K ws) st of (a', b', c', d', e', f', g', h') \<Rightarrow>
            (a + a', b + b', c + c', d + d', e + e', f + f', g + g', h + h')))"

definition bytes_of_word :: "nat \<Rightarrow> nat \<Rightarrow> 8 word list" where
  "bytes_of_word n x = map (\<lambda>i. of_nat (x div 256 ^ (n - 1 - i))) [0..<n]"

definition sha_pad :: "8 word list \<Rightarrow> 8 word list" where
  "sha_pad msg = msg @ [0x80] @ replicate ((119 - length msg mod 64) mod 64) 0 @ bytes_of_word 8 (8 * length msg)"

function sha_blocks :: "8 word list \<Rightarrow> sha_state \<Rightarrow> sha_state" where
  "sha_blocks bs st = (if length bs < 64 then st else sha_blocks (drop 64 bs) (sha_block (take 64 bs) st))"
  by pat_completeness auto
termination
  by (relation "measure (\<lambda>(bs, st). length bs)") auto

declare sha_blocks.simps [simp del]

definition sha256_Sum256 :: "8 word list \<Rightarrow> 8 word list" where
  "sha256_Sum256 msg =
     (case sha_blocks (sha_pad msg) sha256_H of (a, b, c, d, e, f, g, h) \<Rightarrow>
        concat (map (\<lambda>w. bytes_of_word 4 (unat w)) [a, b, c, d, e, f, g, h]))"

definition hmac_sha256 :: "8 word list \<Rightarrow> 8 word list \<Rightarrow> 8 word list" where
  "hmac_sha256 key msg =
     (let key = (if length key > 64 then sha256_Sum256 key else key);
          key = key @ replicate (64 - length key) 0
      in sha256_Sum256 (map (\<lambda>b. b XOR 0x5c) key @ sha256_Sum256 (map (\<lambda>b. b XOR 0x36) key @ msg)))"

definition hex_EncodeToString :: "8 word list \<Rightarrow> string" where
  "hex_EncodeToString bs = concat (map (\<lambda>b. [hex_digit (unat b div 16), hex_digit (unat b mod 16)]) bs)"

lemma length_sha256 [simp]: "length (sha256_Sum256 msg) = 32"
  by (simp add: sha256_Sum256_def bytes_of_word_def split: prod.split)

end
