(* ===== verification/DI.thy ===== *)
theory DI
  imports Prelude
begin

text \<open>
  The dependency-injection container \<^verbatim>\<open>core/di/di.go\<close>: lazy singletons keyed by their type, resolved
  re-entrantly by providers, and closed in reverse order of instantiation.

  A provider is user code that runs while the container's lock is released. It is a tree of what it
  may do with the container (\<open>prog\<close>): resolve a type and go on with the outcome, register a provider,
  close the container, and in the end return a value, fail or panic. \<^verbatim>\<open>Resolve\<close> consists of the two
  critical sections \<open>Resolve_enter\<close> and \<open>Resolve_exit\<close> with the provider's run between them.
\<close>

section \<open>Types and values\<close>

text \<open>A \<^verbatim>\<open>reflect.Type\<close>: its identity, and the text that \<^verbatim>\<open>%s\<close> prints for it.\<close>

datatype rtype = RType (rt_id: nat) (rt_string: string)

text \<open>
  An interface value is \<open>None\<close> for nil, and otherwise an object with its dynamic type. \<open>o_close\<close> is
  \<open>None\<close> when the object has no \<^verbatim>\<open>Close\<close> method, and otherwise what \<^verbatim>\<open>Close\<close> returns.
\<close>

datatype 'v obj = Obj (o_type: rtype) (o_val: 'v) (o_close: "goerror option option")

type_synonym 'v iface = "'v obj option"

text \<open>
  \<open>impl d T\<close>: a value of dynamic type \<open>d\<close> can be asserted to the type \<open>T\<close> (\<open>d\<close> is \<open>T\<close>, or \<open>T\<close> is an
  interface that \<open>d\<close> implements). The assertion \<^verbatim>\<open>v.(T)\<close> panics when it cannot, and on nil.
\<close>

definition assertable :: "(rtype \<Rightarrow> rtype \<Rightarrow> bool) \<Rightarrow> 'v iface \<Rightarrow> rtype \<Rightarrow> bool" where
  "assertable impl v T = (case v of None \<Rightarrow> False | Some ob \<Rightarrow> impl (o_type ob) T)"

datatype gopanic = AssertionPanic rtype | UserPanic string

datatype 'v resolved = Got "'v iface" | Failed goerror | Panics gopanic

datatype 'v prog =
    Return "'v iface"
  | Fail goerror
  | Throw string
  | DoResolve rtype "'v resolved \<Rightarrow> 'v prog"
  | DoProvide rtype "'v prog" "goerror option \<Rightarrow> 'v prog"
  | DoClose "goerror option \<Rightarrow> 'v prog"

section \<open>The container\<close>

definition ErrNotRegistered :: goerror where "ErrNotRegistered = Err ''di: type not registered''"
definition ErrCyclic :: goerror where "ErrCyclic = Err ''di: cyclic dependency''"
definition ErrContainerClosed :: goerror where "ErrContainerClosed = Err ''di: container is closed''"

text \<open>
  A provider is stored with the type argument of its \<^verbatim>\<open>Provider[T]\<close>, which the type assertion in
  \<^verbatim>\<open>Resolve\<close> checks. \<open>di_calls\<close> is a history variable: the objects whose \<^verbatim>\<open>Close\<close> was called, in order.
\<close>

record 'v Container =
  di_providers :: "(rtype, rtype \<times> 'v prog) gomap"
  di_instances :: "(rtype, 'v iface) gomap"
  di_building :: "(rtype, bool) gomap"
  di_closers :: "'v obj list"
  di_closed :: bool
  di_calls :: "'v obj list"

definition Container_New :: "'v Container" where
  "Container_New = \<lparr>di_providers = [], di_instances = [], di_building = [], di_closers = [], di_closed = False, di_calls = []\<rparr>"

definition Provide :: "rtype \<Rightarrow> 'v prog option \<Rightarrow> 'v Container \<Rightarrow> goerror option \<times> 'v Container" where
  "Provide key provider c =
     (case provider of None \<Rightarrow> (Some (Err ''di: provider is nil''), c)
      | Some p \<Rightarrow>
          if di_closed c then (Some ErrContainerClosed, c)
          else if m_get (di_instances c) key \<noteq> None then
            (Some (Err (''di: '' @ rt_string key @ '' already instantiated'')), c)
          else (None, c\<lparr>di_providers := m_put key (key, p) (di_providers c)\<rparr>))"

definition Supply :: "rtype \<Rightarrow> 'v iface \<Rightarrow> 'v Container \<Rightarrow> goerror option \<times> 'v Container" where
  "Supply key v c = Provide key (Some (Return v)) c"

definition closerFor :: "'v iface \<Rightarrow> 'v obj option" where
  "closerFor v = (case v of None \<Rightarrow> None | Some ob \<Rightarrow> if o_close ob = None then None else Some ob)"

definition call_closer :: "'v obj option \<Rightarrow> 'v Container \<Rightarrow> 'v Container" where
  "call_closer cl c = (case cl of None \<Rightarrow> c | Some ob \<Rightarrow> c\<lparr>di_calls := di_calls c @ [ob]\<rparr>)"

text \<open>The first critical section of \<^verbatim>\<open>Resolve\<close>, up to the call of the provider.\<close>

datatype 'v entered_di = Done "'v resolved" | Build "'v prog"

definition Resolve_enter :: "(rtype \<Rightarrow> rtype \<Rightarrow> bool) \<Rightarrow> rtype \<Rightarrow> 'v Container \<Rightarrow> 'v entered_di \<times> 'v Container" where
  "Resolve_enter impl key c =
     (if di_closed c then (Done (Failed ErrContainerClosed), c)
      else case m_get (di_instances c) key of
        Some inst \<Rightarrow> (Done (if assertable impl inst key then Got inst else Panics (AssertionPanic key)), c)
      | None \<Rightarrow>
          (case m_get (di_providers c) key of
             None \<Rightarrow> (Done (Failed (WrapText ErrNotRegistered (rt_string key))), c)
           | Some (tag, p) \<Rightarrow>
               if m_get (di_building c) key = Some True then (Done (Failed (WrapText ErrCyclic (rt_string key))), c)
               else if tag \<noteq> key then (Done (Panics (AssertionPanic key)), c)
               else (Build p, c\<lparr>di_building := m_put key True (di_building c)\<rparr>)))"

text \<open>The second critical section, with what the provider returned.\<close>

definition Resolve_exit ::
  "(rtype \<Rightarrow> rtype \<Rightarrow> bool) \<Rightarrow> rtype \<Rightarrow> goerror + 'v iface \<Rightarrow> 'v Container \<Rightarrow> 'v resolved \<times> 'v Container" where
  "Resolve_exit impl key res c =
     (let c = c\<lparr>di_building := m_del key (di_building c)\<rparr> in
      case res of
        Inl err \<Rightarrow> (Failed (Wrap (''di: build '' @ rt_string key) err), c)
      | Inr v \<Rightarrow>
          if di_closed c then (Failed ErrContainerClosed, call_closer (closerFor v) c)
          else case m_get (di_instances c) key of
            Some inst \<Rightarrow>
              (if assertable impl inst key then Got inst else Panics (AssertionPanic key), call_closer (closerFor v) c)
          | None \<Rightarrow>
              (Got v, c\<lparr>di_instances := m_put key v (di_instances c),
                        di_closers := di_closers c @ (case closerFor v of None \<Rightarrow> [] | Some ob \<Rightarrow> [ob])\<rparr>))"

text \<open>\<^verbatim>\<open>Close\<close> calls the closers last to first and joins their errors.\<close>

definition Container_Close :: "'v Container \<Rightarrow> goerror option \<times> 'v Container" where
  "Container_Close c =
     (if di_closed c then (None, c)
      else (foldl (\<lambda>err ob. case o_close ob of Some (Some cerr) \<Rightarrow> errors_Join [err, Some cerr] | _ \<Rightarrow> err)
              None (rev (di_closers c)),
            c\<lparr>di_closed := True, di_closers := [], di_calls := di_calls c @ rev (di_closers c)\<rparr>))"

section \<open>Running a provider, and \<^verbatim>\<open>Resolve\<close>\<close>

text \<open>
  \<open>run R p c\<close> runs a provider with \<open>R\<close> for its nested calls of \<^verbatim>\<open>Resolve\<close>. \<open>resolve\<close> bounds the depth of
  nested calls by its first argument; the result is \<open>None\<close> when the depth is not enough.
\<close>

primrec run ::
  "(rtype \<Rightarrow> 'v Container \<Rightarrow> ('v resolved \<times> 'v Container) option) \<Rightarrow> 'v prog \<Rightarrow> 'v Container \<Rightarrow>
     ('v resolved \<times> 'v Container) option" where
  "run R (Return v) c = Some (Got v, c)"
| "run R (Fail e) c = Some (Failed e, c)"
| "run R (Throw m) c = Some (Panics (UserPanic m), c)"
| "run R (DoResolve T f) c = (case R T c of None \<Rightarrow> None | Some (r, c') \<Rightarrow> run R (f r) c')"
| "run R (DoProvide T p f) c = (case Provide T (Some p) c of (e, c') \<Rightarrow> run R (f e) c')"
| "run R (DoClose f) c = (case Container_Close c of (e, c') \<Rightarrow> run R (f e) c')"

primrec resolve ::
  "nat \<Rightarrow> (rtype \<Rightarrow> rtype \<Rightarrow> bool) \<Rightarrow> rtype \<Rightarrow> 'v Container \<Rightarrow> ('v resolved \<times> 'v Container) option" where
  "resolve 0 = (\<lambda>impl key c. None)"
| "resolve (Suc n) = (\<lambda>impl key c.
     case Resolve_enter impl key c of
       (Done r, c') \<Rightarrow> Some (r, c')
     | (Build p, c') \<Rightarrow>
         (case run (resolve n impl) p c' of
            None \<Rightarrow> None
          | Some (Got v, c'') \<Rightarrow> Some (Resolve_exit impl key (Inr v) c'')
          | Some (Failed e, c'') \<Rightarrow> Some (Resolve_exit impl key (Inl e) c'')
          | Some (Panics m, c'') \<Rightarrow> Some (Panics m, c'')))"

text \<open>\<^verbatim>\<open>MustResolve\<close> inside a provider: an error becomes a panic.\<close>

definition MustResolve :: "rtype \<Rightarrow> ('v iface \<Rightarrow> 'v prog) \<Rightarrow> 'v prog" where
  "MustResolve T k =
     DoResolve T (\<lambda>r. case r of Got v \<Rightarrow> k v | Failed e \<Rightarrow> Throw (error_text e)
                           | Panics (UserPanic m) \<Rightarrow> Throw m | Panics (AssertionPanic T') \<Rightarrow> Throw ''interface conversion'')"

section \<open>Relations kept by every run\<close>

text \<open>
  A relation on containers that each critical section, \<^verbatim>\<open>Provide\<close> and \<^verbatim>\<open>Close\<close> satisfy is satisfied by
  every run of a provider and by every \<^verbatim>\<open>Resolve\<close>, however deeply they are nested.
\<close>

locale container_rel =
  fixes impl :: "rtype \<Rightarrow> rtype \<Rightarrow> bool" and rel :: "'v Container \<Rightarrow> 'v Container \<Rightarrow> bool"
  assumes rel_refl: "rel c c"
    and rel_trans: "rel c c' \<Longrightarrow> rel c' c'' \<Longrightarrow> rel c c''"
    and rel_enter: "Resolve_enter impl T c = (e, c') \<Longrightarrow> rel c c'"
    and rel_exit: "Resolve_exit impl T res c = (r, c') \<Longrightarrow> rel c c'"
    and rel_provide: "Provide T p c = (err, c') \<Longrightarrow> rel c c'"
    and rel_close: "Container_Close c = (err, c') \<Longrightarrow> rel c c'"
begin

lemma run_rel:
  assumes "\<And>T c r c'. R T c = Some (r, c') \<Longrightarrow> rel c c'" "run R p c = Some (r, c')"
  shows "rel c c'"
  using assms(2)
proof (induction p arbitrary: c)
  case (DoResolve T f)
  then obtain r1 c1 where "R T c = Some (r1, c1)" "run R (f r1) c1 = Some (r, c')"
    by (auto split: option.splits)
  then show ?case using rel_trans [OF assms(1) DoResolve.IH [OF rangeI]] by simp
next
  case (DoProvide T q f)
  then obtain e c1 where "Provide T (Some q) c = (e, c1)" "run R (f e) c1 = Some (r, c')"
    by (auto split: prod.splits)
  then show ?case using rel_trans [OF rel_provide DoProvide.IH(2) [OF rangeI]] by simp
next
  case (DoClose f)
  then obtain e c1 where "Container_Close c = (e, c1)" "run R (f e) c1 = Some (r, c')"
    by (auto split: prod.splits)
  then show ?case using rel_trans [OF rel_close DoClose.IH [OF rangeI]] by simp
qed (auto simp: rel_refl)

lemma resolve_rel: "resolve n impl T c = Some (r, c') \<Longrightarrow> rel c c'"
proof (induction n arbitrary: T c r c')
  case (Suc n)
  obtain e c1 where enter: "Resolve_enter impl T c = (e, c1)" by fastforce
  note r1 = rel_enter [OF enter]
  show ?case
  proof (cases e)
    case (Done r0)
    then show ?thesis using Suc.prems enter r1 by simp
  next
    case (Build p)
    then obtain r2 c2 where run: "run (resolve n impl) p c1 = Some (r2, c2)"
      using Suc.prems enter by (auto split: option.splits)
    have "rel c c2" using rel_trans [OF r1 run_rel [OF Suc.IH run]] .
    moreover have "rel c2 c'"
    proof (cases r2)
      case (Got v)
      then have "Resolve_exit impl T (Inr v) c2 = (r, c')" using Suc.prems enter Build run by simp
      then show ?thesis by (rule rel_exit)
    next
      case (Failed err)
      then have "Resolve_exit impl T (Inl err) c2 = (r, c')" using Suc.prems enter Build run by simp
      then show ?thesis by (rule rel_exit)
    next
      case (Panics m)
      then show ?thesis using Suc.prems enter Build run rel_refl by simp
    qed
    ultimately show ?thesis by (rule rel_trans)
  qed
qed simp

end

subsection \<open>Instances are only added, at the end\<close>

definition grows :: "'v Container \<Rightarrow> 'v Container \<Rightarrow> bool" where
  "grows c c' \<longleftrightarrow> (\<exists>new. di_instances c' = di_instances c @ new) \<and> (di_closed c \<longrightarrow> di_closed c') \<and>
     (\<exists>new. di_calls c' = di_calls c @ new)"

interpretation growing: container_rel impl grows
proof
  fix c c' c'' :: "'v Container" and T res r e p err
  show "grows c c" by (simp add: grows_def)
  show "grows c c' \<Longrightarrow> grows c' c'' \<Longrightarrow> grows c c''" by (auto simp: grows_def)
  show "Resolve_enter impl T c = (e, c') \<Longrightarrow> grows c c'"
    by (auto simp: Resolve_enter_def grows_def split: if_splits option.splits)
  show "Resolve_exit impl T res c = (r, c') \<Longrightarrow> grows c c'"
    by (auto simp: Resolve_exit_def Let_def grows_def call_closer_def m_put_new split: sum.splits if_splits option.splits)
  show "Provide T p c = (err, c') \<Longrightarrow> grows c c'"
    by (auto simp: Provide_def grows_def split: if_splits option.splits)
  show "Container_Close c = (err, c') \<Longrightarrow> grows c c'"
    by (auto simp: Container_Close_def grows_def split: if_splits)
qed

subsection \<open>The closers are the closable instances, in order of instantiation\<close>

definition closers_inv :: "'v Container \<Rightarrow> bool" where
  "closers_inv c \<longleftrightarrow>
     di_closers c = (if di_closed c then [] else List.map_filter (\<lambda>(k, v). closerFor v) (di_instances c))"

interpretation closing: container_rel impl "\<lambda>c c'. closers_inv c \<longrightarrow> closers_inv c'"
proof
  fix c c' c'' :: "'v Container" and T res r e p err
  show "closers_inv c \<longrightarrow> closers_inv c" by simp
  show "closers_inv c \<longrightarrow> closers_inv c' \<Longrightarrow> closers_inv c' \<longrightarrow> closers_inv c'' \<Longrightarrow> closers_inv c \<longrightarrow> closers_inv c''" by blast
  show "Resolve_enter impl T c = (e, c') \<Longrightarrow> closers_inv c \<longrightarrow> closers_inv c'"
    by (auto simp: Resolve_enter_def closers_inv_def split: if_splits option.splits)
  show "Resolve_exit impl T res c = (r, c') \<Longrightarrow> closers_inv c \<longrightarrow> closers_inv c'"
    by (auto simp: Resolve_exit_def Let_def closers_inv_def call_closer_def m_put_new
          List.map_filter_simps split: sum.splits if_splits option.splits)
  show "Provide T p c = (err, c') \<Longrightarrow> closers_inv c \<longrightarrow> closers_inv c'"
    by (auto simp: Provide_def closers_inv_def split: if_splits option.splits)
  show "Container_Close c = (err, c') \<Longrightarrow> closers_inv c \<longrightarrow> closers_inv c'"
    by (auto simp: Container_Close_def closers_inv_def split: if_splits)
qed

section \<open>Termination\<close>

text \<open>
  \<open>provides_in U p\<close>: whatever answers it gets, the provider registers only providers for types in \<open>U\<close>,
  and so do these. A Go program has finitely many types.
\<close>

primrec provides_in :: "rtype set \<Rightarrow> 'v prog \<Rightarrow> bool" where
  "provides_in U (Return v) = True"
| "provides_in U (Fail e) = True"
| "provides_in U (Throw m) = True"
| "provides_in U (DoResolve T f) = (\<forall>r. provides_in U (f r))"
| "provides_in U (DoProvide T p f) = (T \<in> U \<and> provides_in U p \<and> (\<forall>r. provides_in U (f r)))"
| "provides_in U (DoClose f) = (\<forall>r. provides_in U (f r))"

definition container_in :: "rtype set \<Rightarrow> 'v Container \<Rightarrow> bool" where
  "container_in U c \<longleftrightarrow> (\<forall>T tag p. m_get (di_providers c) T = Some (tag, p) \<longrightarrow> T \<in> U \<and> provides_in U p)"

definition under_way :: "'v Container \<Rightarrow> rtype set" where
  "under_way c = {T. m_get (di_building c) T = Some True}"

lemma container_in_Provide:
  "container_in U c \<Longrightarrow> T \<in> U \<Longrightarrow> provides_in U p \<Longrightarrow> Provide T (Some p) c = (e, c') \<Longrightarrow>
     container_in U c' \<and> under_way c' = under_way c"
  by (auto simp: Provide_def container_in_def under_way_def split: if_splits)

lemma container_in_Close:
  "container_in U c \<Longrightarrow> Container_Close c = (e, c') \<Longrightarrow> container_in U c' \<and> under_way c' = under_way c"
  by (auto simp: Container_Close_def container_in_def under_way_def split: if_splits)

lemma container_in_enter:
  assumes "container_in U c" "Resolve_enter impl T c = (e, c')"
  shows "container_in U c'"
    and "e = Done r \<Longrightarrow> under_way c' = under_way c"
    and "e = Build p \<Longrightarrow> T \<in> U \<and> provides_in U p \<and> T \<notin> under_way c \<and> under_way c' = insert T (under_way c)"
  using assms by (auto simp: Resolve_enter_def container_in_def under_way_def split: if_splits option.splits)

lemma container_in_exit:
  "container_in U c \<Longrightarrow> Resolve_exit impl T res c = (r, c') \<Longrightarrow> container_in U c' \<and> under_way c' = under_way c - {T}"
  by (auto simp: Resolve_exit_def Let_def container_in_def under_way_def call_closer_def
        split: sum.splits if_splits option.splits)

lemma run_returns:
  assumes "\<And>T c. container_in U c \<Longrightarrow> B \<subseteq> under_way c \<Longrightarrow>
      \<exists>r c'. R T c = Some (r, c') \<and> container_in U c' \<and> B \<subseteq> under_way c'"
    and "provides_in U p" "container_in U c" "B \<subseteq> under_way c"
  shows "\<exists>r c'. run R p c = Some (r, c') \<and> container_in U c' \<and> B \<subseteq> under_way c'"
  using assms(2-4)
proof (induction p arbitrary: c)
  case (DoResolve T f)
  obtain r1 c1 where 1: "R T c = Some (r1, c1)" "container_in U c1" "B \<subseteq> under_way c1"
    using assms(1) [OF DoResolve.prems(2,3)] by blast
  then show ?case using DoResolve.IH [OF rangeI _ 1(2,3), of r1] DoResolve.prems(1) by simp
next
  case (DoProvide T q f)
  obtain e c1 where 1: "Provide T (Some q) c = (e, c1)" by fastforce
  then have 2: "container_in U c1" "B \<subseteq> under_way c1"
    using container_in_Provide [OF DoProvide.prems(2) _ _ 1] DoProvide.prems by auto
  then show ?case using DoProvide.IH(2) [OF rangeI _ 2, of e] DoProvide.prems(1) 1 by simp
next
  case (DoClose f)
  obtain e c1 where 1: "Container_Close c = (e, c1)" by fastforce
  then have 2: "container_in U c1" "B \<subseteq> under_way c1"
    using container_in_Close [OF DoClose.prems(2) 1] DoClose.prems by auto
  then show ?case using DoClose.IH [OF rangeI _ 2, of e] DoClose.prems(1) 1 by simp
qed auto

lemma resolve_returns:
  fixes c :: "'v Container"
  assumes "finite U" "container_in U c" "card (U - under_way c) < n"
  shows "\<exists>r c'. resolve n impl T c = Some (r, c') \<and> container_in U c' \<and> under_way c \<subseteq> under_way c'"
  using assms(2,3)
proof (induction n arbitrary: T c)
  case (Suc n)
  obtain e c1 where enter: "Resolve_enter impl T c = (e, c1)" by fastforce
  note enter_facts = container_in_enter [OF Suc.prems(1) enter]
  show ?case
  proof (cases e)
    case (Done r)
    then show ?thesis using enter enter_facts(1) enter_facts(2) [OF Done] by simp
  next
    case (Build p)
    note B = enter_facts(3) [OF Build]
    have less: "card (U - under_way c1) < n"
    proof -
      have "U - under_way c1 \<subset> U - under_way c" using B by auto
      then have "card (U - under_way c1) < card (U - under_way c)"
        using \<open>finite U\<close> by (intro psubset_card_mono) auto
      then show ?thesis using Suc.prems(2) by simp
    qed
    have nested: "\<exists>r c'. resolve n impl T c = Some (r, c') \<and> container_in U c' \<and> under_way c1 \<subseteq> under_way c'"
      if "container_in U c" "under_way c1 \<subseteq> under_way c" for T and c :: "'v Container"
    proof -
      have "card (U - under_way c) \<le> card (U - under_way c1)"
        using that(2) \<open>finite U\<close> by (intro card_mono) auto
      then have "card (U - under_way c) < n" using less by simp
      from Suc.IH [OF that(1) this, of T] show ?thesis using subset_trans [OF that(2)] by blast
    qed
    obtain r2 c2 where run: "run (resolve n impl) p c1 = Some (r2, c2)" "container_in U c2" "under_way c1 \<subseteq> under_way c2"
      using run_returns [where R = "resolve n impl" and U = U and B = "under_way c1",
          OF nested conjunct1 [OF conjunct2 [OF B]] enter_facts(1) subset_refl] by blast
    have exit: "container_in U (snd (Resolve_exit impl T res c2)) \<and> under_way c \<subseteq> under_way (snd (Resolve_exit impl T res c2))" for res
      using container_in_exit [OF run(2), of impl T res] run(3) B by (cases "Resolve_exit impl T res c2") auto
    show ?thesis
    proof (cases r2)
      case (Got v)
      then show ?thesis using exit [of "Inr v"] enter Build run(1) by (cases "Resolve_exit impl T (Inr v) c2") simp
    next
      case (Failed err)
      then show ?thesis using exit [of "Inl err"] enter Build run(1) by (cases "Resolve_exit impl T (Inl err) c2") simp
    next
      case (Panics m)
      then have "resolve (Suc n) impl T c = Some (Panics m, c2)" using enter Build run(1) by simp
      moreover have "under_way c \<subseteq> under_way c2" using run(3) B by blast
      ultimately show ?thesis using run(2) by blast
    qed
  qed
qed simp

lemma run_mono:
  assumes "\<And>T c x. R T c = Some x \<Longrightarrow> R' T c = Some x" "run R p c = Some x"
  shows "run R' p c = Some x"
  using assms(2)
proof (induction p arbitrary: c)
  case (DoResolve T f)
  then obtain r1 c1 where "R T c = Some (r1, c1)" "run R (f r1) c1 = Some x" by (auto split: option.splits)
  then show ?case using DoResolve.IH [OF rangeI] assms(1) by simp
qed (auto split: prod.splits)

lemma resolve_mono: "resolve n impl T c = Some x \<Longrightarrow> n \<le> m \<Longrightarrow> resolve m impl T c = Some x"
proof (induction n arbitrary: T c x m)
  case (Suc n)
  then obtain k where k: "m = Suc k" "n \<le> k" by (cases m) auto
  obtain e c1 where enter: "Resolve_enter impl T c = (e, c1)" by fastforce
  show ?case
  proof (cases e)
    case (Build p)
    then obtain y where y: "run (resolve n impl) p c1 = Some y" using Suc.prems enter by (auto split: option.splits)
    then have "run (resolve k impl) p c1 = Some y"
      by (rule run_mono [rotated]) (use Suc.IH k in blast)
    then show ?thesis using Suc.prems k enter Build y by simp
  qed (use Suc.prems k enter in simp)
qed simp

text \<open>
  C29. Resolving always returns. For any providers of a program whose types are the finite set \<open>U\<close>, with
  whatever dependencies (cyclic ones included) and whatever the providers do in between, nesting deeper
  than the number of types is never needed, and the result does not depend on the bound. A type that is
  requested while it is itself being built gets an error whose cause is \<^verbatim>\<open>ErrCyclic\<close>.
\<close>

theorem DI_Resolve_terminates:
  assumes "finite U" "container_in U c"
  shows "\<exists>r c'. (\<forall>n > card U. resolve n impl T c = Some (r, c')) \<and> container_in U c' \<and>
     (T \<in> under_way c \<and> \<not> di_closed c \<and> m_get (di_instances c) T = None \<and> m_get (di_providers c) T \<noteq> None \<longrightarrow>
        c' = c \<and> (\<exists>err. r = Failed err \<and> errors_Is err ErrCyclic))"
proof -
  have "card (U - under_way c) \<le> card U" using assms(1) by (intro card_mono) auto
  then obtain r c' where rc: "resolve (Suc (card U)) impl T c = Some (r, c')" "container_in U c'"
    using resolve_returns [OF assms, of "Suc (card U)" impl T] by auto
  then have "\<forall>n > card U. resolve n impl T c = Some (r, c')" using resolve_mono [OF rc(1)] by simp
  moreover have "c' = c \<and> r = Failed (WrapText ErrCyclic (rt_string T))"
    if "T \<in> under_way c" "\<not> di_closed c" "m_get (di_instances c) T = None" "m_get (di_providers c) T \<noteq> None"
    using rc(1) that by (auto simp: Resolve_enter_def under_way_def)
  ultimately show ?thesis using rc(2) by (fastforce simp: ErrCyclic_def)
qed

section \<open>Type assertions\<close>

text \<open>
  What a provider of type \<open>T\<close> may return (Go's type checker makes it a value of type \<open>T\<close>; that it is
  not nil is the provider's duty), given that it gets values of the types it asks for.
\<close>

definition ok_result :: "(rtype \<Rightarrow> rtype \<Rightarrow> bool) \<Rightarrow> rtype \<Rightarrow> 'v resolved \<Rightarrow> bool" where
  "ok_result impl T r = (case r of Got v \<Rightarrow> assertable impl v T | Failed e \<Rightarrow> True | Panics (UserPanic m) \<Rightarrow> True
     | Panics (AssertionPanic T') \<Rightarrow> False)"

primrec typed :: "(rtype \<Rightarrow> rtype \<Rightarrow> bool) \<Rightarrow> 'v prog \<Rightarrow> rtype \<Rightarrow> bool" where
  "typed impl (Return v) T = assertable impl v T"
| "typed impl (Fail e) T = True"
| "typed impl (Throw m) T = True"
| "typed impl (DoResolve T' f) T = (\<forall>r. ok_result impl T' r \<longrightarrow> typed impl (f r) T)"
| "typed impl (DoProvide T' p f) T = (typed impl p T' \<and> (\<forall>e. typed impl (f e) T))"
| "typed impl (DoClose f) T = (\<forall>e. typed impl (f e) T)"

definition container_typed :: "(rtype \<Rightarrow> rtype \<Rightarrow> bool) \<Rightarrow> 'v Container \<Rightarrow> bool" where
  "container_typed impl c \<longleftrightarrow>
     (\<forall>T tag p. m_get (di_providers c) T = Some (tag, p) \<longrightarrow> tag = T \<and> typed impl p T) \<and>
     (\<forall>T v. m_get (di_instances c) T = Some v \<longrightarrow> assertable impl v T)"

lemma typed_New [simp]: "container_typed impl Container_New"
  by (simp add: container_typed_def Container_New_def)

lemma typed_Provide:
  "container_typed impl c \<Longrightarrow> typed impl p T \<Longrightarrow> Provide T (Some p) c = (e, c') \<Longrightarrow> container_typed impl c'"
  by (auto simp: Provide_def container_typed_def split: if_splits)

lemma typed_Close: "container_typed impl c \<Longrightarrow> Container_Close c = (e, c') \<Longrightarrow> container_typed impl c'"
  by (auto simp: Container_Close_def container_typed_def split: if_splits)

lemma typed_enter:
  assumes "container_typed impl c" "Resolve_enter impl T c = (e, c')"
  shows "container_typed impl c' \<and> (case e of Done r \<Rightarrow> ok_result impl T r | Build p \<Rightarrow> typed impl p T)"
  using assms
  by (auto simp: Resolve_enter_def container_typed_def ok_result_def split: if_splits option.splits)

lemma typed_exit:
  assumes "container_typed impl c" "Resolve_exit impl T res c = (r, c')" "\<And>v. res = Inr v \<Longrightarrow> assertable impl v T"
  shows "container_typed impl c' \<and> ok_result impl T r"
  using assms
  by (auto simp: Resolve_exit_def Let_def container_typed_def ok_result_def call_closer_def
        split: sum.splits if_splits option.splits)

lemma run_typed:
  assumes "\<And>T c r c'. container_typed impl c \<Longrightarrow> R T c = Some (r, c') \<Longrightarrow> container_typed impl c' \<and> ok_result impl T r"
    and "typed impl p T" "container_typed impl c" "run R p c = Some (r, c')"
  shows "container_typed impl c' \<and> ok_result impl T r"
  using assms(2-4)
proof (induction p arbitrary: c)
  case (DoResolve T' f)
  then obtain r1 c1 where 1: "R T' c = Some (r1, c1)" "run R (f r1) c1 = Some (r, c')" by (auto split: option.splits)
  then have "container_typed impl c1" "typed impl (f r1) T" using assms(1) [OF DoResolve.prems(2) 1(1)] DoResolve.prems(1) by auto
  then show ?case using DoResolve.IH [OF rangeI _ _ 1(2)] by blast
next
  case (DoProvide T' q f)
  then obtain e c1 where 1: "Provide T' (Some q) c = (e, c1)" "run R (f e) c1 = Some (r, c')" by (auto split: prod.splits)
  then have "container_typed impl c1" using typed_Provide [OF DoProvide.prems(2) _ 1(1)] DoProvide.prems(1) by simp
  then show ?case using DoProvide.IH(2) [OF rangeI _ _ 1(2)] DoProvide.prems(1) by simp
next
  case (DoClose f)
  then obtain e c1 where 1: "Container_Close c = (e, c1)" "run R (f e) c1 = Some (r, c')" by (auto split: prod.splits)
  then show ?case using DoClose.IH [OF rangeI _ typed_Close [OF DoClose.prems(2) 1(1)] 1(2)] DoClose.prems(1) by simp
qed (auto simp: ok_result_def)

text \<open>
  C30. Type safety of the container. When the providers return non-nil values of the types they are
  registered for, no type assertion of \<^verbatim>\<open>Resolve\<close> panics (neither \<^verbatim>\<open>raw.(Provider[T])\<close> nor
  \<^verbatim>\<open>inst.(T)\<close>), a successful \<^verbatim>\<open>Resolve\<close> of \<open>T\<close> gives a value that can be asserted to \<open>T\<close>, and the
  container stays well typed.
\<close>

theorem DI_type_safe:
  assumes "container_typed impl c" "resolve n impl T c = Some (r, c')"
  shows "container_typed impl c' \<and>
     (case r of Got v \<Rightarrow> assertable impl v T | Failed e \<Rightarrow> True | Panics p \<Rightarrow> \<exists>m. p = UserPanic m)"
proof -
  have "container_typed impl c' \<and> ok_result impl T r"
    using assms
  proof (induction n arbitrary: T c r c')
    case (Suc n)
    obtain e c1 where enter: "Resolve_enter impl T c = (e, c1)" by fastforce
    note E = typed_enter [OF Suc.prems(1) enter]
    show ?case
    proof (cases e)
      case (Build p)
      then obtain r2 c2 where run: "run (resolve n impl) p c1 = Some (r2, c2)"
        using Suc.prems enter by (auto split: option.splits)
      have R: "container_typed impl c2 \<and> ok_result impl T r2"
        by (rule run_typed [OF Suc.IH _ _ run]) (use E Build in simp_all)
      then show ?thesis
        using Suc.prems(2) enter Build run typed_exit [OF conjunct1 [OF R], of T _ r c']
        by (cases r2) (auto simp: ok_result_def)
    qed (use E Suc.prems enter in simp)
  qed simp
  then show ?thesis by (auto simp: ok_result_def split: resolved.splits gopanic.splits)
qed

section \<open>Singletons and shutdown under interleaving\<close>

text \<open>
  What goroutines may do to a container: whole operations, and the two critical sections of \<^verbatim>\<open>Resolve\<close>
  apart, with any outcome of the provider in between.
\<close>

inductive di_step :: "(rtype \<Rightarrow> rtype \<Rightarrow> bool) \<Rightarrow> 'v Container \<Rightarrow> 'v Container \<Rightarrow> bool" for impl where
  step_provide: "Provide T p c = (e, c') \<Longrightarrow> di_step impl c c'"
| step_resolve: "resolve n impl T c = Some (r, c') \<Longrightarrow> di_step impl c c'"
| step_enter: "Resolve_enter impl T c = (ent, c') \<Longrightarrow> di_step impl c c'"
| step_exit: "Resolve_exit impl T res c = (r, c') \<Longrightarrow> di_step impl c c'"
| step_close: "Container_Close c = (e, c') \<Longrightarrow> di_step impl c c'"

lemma step_provide': "di_step impl c (snd (Provide T p c))"
  by (rule step_provide [OF prod.collapse [symmetric]])

lemma steps_grow: "(di_step impl)\<^sup>*\<^sup>* c c' \<Longrightarrow> grows c c'"
proof (induction rule: rtranclp_induct)
  case (step d e)
  have "grows d e"
    using step.hyps(2) by cases
      (auto intro: growing.rel_provide growing.resolve_rel growing.rel_enter growing.rel_exit growing.rel_close)
  with step.IH show ?case by (rule growing.rel_trans)
qed (rule growing.rel_refl)

lemma step_closers_inv: "di_step impl c c' \<Longrightarrow> closers_inv c \<Longrightarrow> closers_inv c'"
  by (induction rule: di_step.induct)
    (blast dest: closing.rel_provide closing.resolve_rel closing.rel_enter closing.rel_exit closing.rel_close)+

lemma reachable_closers_inv: "(di_step impl)\<^sup>*\<^sup>* Container_New c \<Longrightarrow> closers_inv c"
proof (induction rule: rtranclp_induct)
  case base
  show ?case by (simp add: closers_inv_def Container_New_def List.map_filter_simps)
qed (rule step_closers_inv)

lemma resolve_stores:
  assumes "resolve n impl T c = Some (Got v, c')"
  shows "m_get (di_instances c') T = Some v"
proof (cases n)
  case (Suc k)
  obtain e c1 where enter: "Resolve_enter impl T c = (e, c1)" by fastforce
  show ?thesis
  proof (cases e)
    case (Done r)
    then show ?thesis using assms enter Suc by (auto simp: Resolve_enter_def split: if_splits option.splits)
  next
    case (Build p)
    then obtain r2 c2 where run: "run (resolve k impl) p c1 = Some (r2, c2)"
      using assms enter Suc by (auto split: option.splits)
    have "m_get (di_instances c') T = Some v" if "Resolve_exit impl T res c2 = (Got v, c')" for res
      using that by (auto simp: Resolve_exit_def Let_def call_closer_def split: sum.splits if_splits option.splits)
    then show ?thesis using assms enter Suc Build run by (cases r2) auto
  qed
qed (use assms in simp)

text \<open>
  C31. Lazy singletons with ordered cleanup. Once \<^verbatim>\<open>Resolve\<close> has returned a value for a type, every later
  \<^verbatim>\<open>Resolve\<close> of that type returns the same value without running a provider, whatever operations of
  other goroutines lie between and however they interleave, until the container is closed. Closing then
  calls \<^verbatim>\<open>Close\<close> of exactly the closable singletons, each once, in the reverse of the order in which
  they were instantiated. From then on, whatever is called, every use of the container gives \<^verbatim>\<open>ErrClosed\<close>, for
  every type, whether it was ever instantiated or not; closing again does nothing; and a provider that was still
  running when the container was closed gets \<^verbatim>\<open>ErrClosed\<close> too, its value being closed at once and not kept.
\<close>

theorem DI_singletons_closed_in_reverse:
  assumes "(di_step impl)\<^sup>*\<^sup>* Container_New c" "resolve n impl T c = Some (Got v, c1)" "assertable impl v T"
    and "(di_step impl)\<^sup>*\<^sup>* c1 c2" "\<not> di_closed c2" "Container_Close c2 = (err, c3)" "(di_step impl)\<^sup>*\<^sup>* c3 c4"
  shows "Resolve_enter impl T c2 = (Done (Got v), c2) \<and>
     di_calls c3 = di_calls c2 @ rev (List.map_filter (\<lambda>(T, v). closerFor v) (di_instances c2)) \<and>
     Container_Close c4 = (None, c4) \<and>
     (\<forall>T'. Resolve_enter impl T' c4 = (Done (Failed ErrContainerClosed), c4) \<and>
        (\<forall>k. resolve (Suc k) impl T' c4 = Some (Failed ErrContainerClosed, c4)) \<and>
        (\<forall>p. Provide T' (Some p) c4 = (Some ErrContainerClosed, c4)) \<and>
        (\<forall>w. fst (Resolve_exit impl T' (Inr w) c4) = Failed ErrContainerClosed \<and>
           di_instances (snd (Resolve_exit impl T' (Inr w) c4)) = di_instances c4 \<and>
           di_calls (snd (Resolve_exit impl T' (Inr w) c4)) = di_calls c4 @ (case closerFor w of None \<Rightarrow> [] | Some ob \<Rightarrow> [ob])))"
proof -
  have "m_get (di_instances c1) T = Some v" by (rule resolve_stores [OF assms(2)])
  moreover obtain new where "di_instances c2 = di_instances c1 @ new" using steps_grow [OF assms(4)] by (auto simp: grows_def)
  ultimately have same: "Resolve_enter impl T c2 = (Done (Got v), c2)"
    using assms(3,5) by (simp add: Resolve_enter_def map_add_def)
  have "(di_step impl)\<^sup>*\<^sup>* Container_New c2"
    using assms(1,4) di_step.step_resolve [OF assms(2)] by (meson rtranclp.rtrancl_into_rtrancl rtranclp_trans)
  then have "closers_inv c2" by (rule reachable_closers_inv)
  then have cleanup: "di_calls c3 = di_calls c2 @ rev (List.map_filter (\<lambda>(T, v). closerFor v) (di_instances c2))"
    using assms(5,6) by (auto simp: Container_Close_def closers_inv_def)
  have "di_closed c3" using assms(6) by (auto simp: Container_Close_def split: if_splits)
  then have closed: "di_closed c4" using steps_grow [OF assms(7)] by (simp add: grows_def)
  then have enter: "Resolve_enter impl T' c4 = (Done (Failed ErrContainerClosed), c4)" for T' by (simp add: Resolve_enter_def)
  then have nested: "resolve (Suc k) impl T' c4 = Some (Failed ErrContainerClosed, c4)" for T' k by simp
  have rest: "Container_Close c4 = (None, c4)" "Provide T' (Some p) c4 = (Some ErrContainerClosed, c4)"
    "fst (Resolve_exit impl T' (Inr w) c4) = Failed ErrContainerClosed"
    "di_instances (snd (Resolve_exit impl T' (Inr w) c4)) = di_instances c4"
    "di_calls (snd (Resolve_exit impl T' (Inr w) c4)) = di_calls c4 @ (case closerFor w of None \<Rightarrow> [] | Some ob \<Rightarrow> [ob])" for T' p w
    using closed by (simp_all add: Container_Close_def Provide_def Resolve_exit_def call_closer_def Let_def split: option.split)
  show ?thesis by (intro conjI allI same cleanup enter nested rest)
qed

section \<open>Witnesses, and what the container does not handle\<close>

definition rtA :: rtype where "rtA = RType 0 ''*main.A''"
definition rtB :: rtype where "rtB = RType 1 ''*main.B''"

lemma rt_distinct [simp]: "rtA \<noteq> rtB" "rtB \<noteq> rtA"
  by (simp_all add: rtA_def rtB_def)

text \<open>A provider that needs the type \<open>T\<close>, returns \<open>v\<close> when it gets it and its error otherwise.\<close>

definition needs :: "rtype \<Rightarrow> 'v iface \<Rightarrow> 'v prog" where
  "needs T v = DoResolve T (\<lambda>r. case r of Got w \<Rightarrow> Return v | Failed e \<Rightarrow> Fail e | Panics p \<Rightarrow> Throw ''panic'')"

definition cyclic_container :: "nat Container" where
  "cyclic_container =
     snd (Provide rtB (Some (needs rtA (Some (Obj rtB 2 None))))
       (snd (Provide rtA (Some (needs rtB (Some (Obj rtA 1 None)))) Container_New)))"

lemma cyclic_container_eq:
  "cyclic_container = Container_New\<lparr>di_providers :=
     [(rtA, rtA, needs rtB (Some (Obj rtA 1 None))), (rtB, rtB, needs rtA (Some (Obj rtB 2 None)))]\<rparr>"
  by (simp add: cyclic_container_def Provide_def Container_New_def)

theorem DI_Resolve_terminates_witness:
  "(\<exists>r c'. \<forall>n > 2. resolve n (=) rtA cyclic_container = Some (r, c')) \<and>
   (\<exists>err c'. resolve 3 (=) rtA cyclic_container = Some (Failed err, c') \<and> errors_Is err ErrCyclic)"
proof
  have 1: "container_in {rtA, rtB} cyclic_container"
    by (auto simp: container_in_def cyclic_container_eq needs_def split: if_splits resolved.split)
  have 2: "finite {rtA, rtB}" "card {rtA, rtB} = 2" by simp_all
  show "\<exists>r c'. \<forall>n > 2. resolve n (=) rtA cyclic_container = Some (r, c')"
    using DI_Resolve_terminates [OF 2(1) 1, of "(=)" rtA] unfolding 2(2) by blast
  show "\<exists>err c'. resolve 3 (=) rtA cyclic_container = Some (Failed err, c') \<and> errors_Is err ErrCyclic"
    by (simp add: cyclic_container_eq Container_New_def Resolve_enter_def Resolve_exit_def needs_def numeral_3_eq_3 ErrCyclic_def)
qed

definition chain_container :: "nat Container" where
  "chain_container =
     snd (Provide rtB (Some (Return (Some (Obj rtB 2 (Some None)))))
       (snd (Provide rtA (Some (needs rtB (Some (Obj rtA 1 (Some None))))) Container_New)))"

lemma chain_container_eq:
  "chain_container = Container_New\<lparr>di_providers :=
     [(rtA, rtA, needs rtB (Some (Obj rtA 1 (Some None)))), (rtB, rtB, Return (Some (Obj rtB 2 (Some None))))]\<rparr>"
  by (simp add: chain_container_def Provide_def Container_New_def)

definition chain_built :: "nat Container" where
  "chain_built = chain_container\<lparr>
     di_instances := [(rtB, Some (Obj rtB 2 (Some None))), (rtA, Some (Obj rtA 1 (Some None)))],
     di_closers := [Obj rtB 2 (Some None), Obj rtA 1 (Some None)]\<rparr>"

lemma chain_resolve: "resolve 2 (=) rtA chain_container = Some (Got (Some (Obj rtA 1 (Some None))), chain_built)"
  by (simp add: chain_container_eq chain_built_def Container_New_def Resolve_enter_def Resolve_exit_def needs_def
        numeral_2_eq_2 closerFor_def)

theorem DI_type_safe_witness:
  "container_typed (=) chain_container \<and> container_typed (=) chain_built \<and>
     assertable (=) (Some (Obj rtA (1 :: nat) (Some None))) rtA"
proof -
  have "container_typed (=) chain_container"
    by (auto simp: container_typed_def chain_container_eq Container_New_def needs_def assertable_def ok_result_def
          split: if_splits resolved.splits)
  then show ?thesis using DI_type_safe [OF _ chain_resolve] by simp
qed

theorem DI_singletons_closed_in_reverse_witness:
  "Resolve_enter (=) rtA chain_built = (Done (Got (Some (Obj rtA 1 (Some None)))), chain_built) \<and>
   di_calls (snd (Container_Close chain_built)) = [Obj rtA 1 (Some None), Obj rtB 2 (Some None)] \<and>
   Resolve_enter (=) (RType 2 ''*main.C'') (snd (Container_Close chain_built)) =
     (Done (Failed ErrContainerClosed), snd (Container_Close chain_built))"
proof -
  have "(di_step (=))\<^sup>*\<^sup>* Container_New chain_container"
    unfolding chain_container_def
    by (rule rtranclp.rtrancl_into_rtrancl [OF r_into_rtranclp]) (rule step_provide')+
  moreover have "\<not> di_closed chain_built" by (simp add: chain_built_def chain_container_eq Container_New_def)
  moreover have "assertable (=) (Some (Obj rtA (1 :: nat) (Some None))) rtA" by (simp add: assertable_def)
  moreover obtain err c3 where c3: "Container_Close chain_built = (err, c3)" by fastforce
  ultimately have "Resolve_enter (=) rtA chain_built = (Done (Got (Some (Obj rtA 1 (Some None)))), chain_built)"
    "di_calls c3 = di_calls chain_built @ rev (List.map_filter (\<lambda>(T, v). closerFor v) (di_instances chain_built))"
    "Resolve_enter (=) (RType 2 ''*main.C'') c3 = (Done (Failed ErrContainerClosed), c3)"
    using DI_singletons_closed_in_reverse [OF _ chain_resolve _ rtranclp.rtrancl_refl _ c3 rtranclp.rtrancl_refl] by blast+
  then show ?thesis
    by (simp add: c3) (simp add: chain_built_def chain_container_eq Container_New_def List.map_filter_simps closerFor_def)
qed

text \<open>
  The map \<^verbatim>\<open>building\<close> does not tell goroutines apart: a second goroutine that resolves a type while the
  first is building it gets \<^verbatim>\<open>ErrCyclic\<close> although there is no cycle.
\<close>

lemma Resolve_concurrent_false_cycle:
  "case Resolve_enter (=) rtA chain_container of (first, c) \<Rightarrow>
     (\<exists>p. first = Build p) \<and> (\<exists>err. Resolve_enter (=) rtA c = (Done (Failed err), c) \<and> errors_Is err ErrCyclic)"
  by (simp add: chain_container_eq Container_New_def Resolve_enter_def ErrCyclic_def)

text \<open>A provider that panics (or uses \<^verbatim>\<open>MustResolve\<close> on a failing dependency) leaves its type marked as being built for ever.\<close>

lemma Resolve_panic_leaves_mark:
  "\<exists>c'. resolve 1 (=) rtA (snd (Provide rtA (Some (Throw ''boom'')) Container_New)) = Some (Panics (UserPanic ''boom''), c') \<and>
     resolve 1 (=) rtA c' = Some (Failed (WrapText ErrCyclic ''*main.A''), c')"
  by (simp add: Provide_def Container_New_def Resolve_enter_def) (simp add: rtA_def)

text \<open>A provider of an interface type that returns nil: the first \<^verbatim>\<open>Resolve\<close> gives nil, the second panics.\<close>

lemma Resolve_nil_panics_later:
  "\<exists>c'. resolve 1 (=) rtA (snd (Supply rtA None Container_New)) = Some (Got None, c') \<and>
     resolve 1 (=) rtA c' = Some (Panics (AssertionPanic rtA), c')"
  by (simp add: Supply_def Provide_def Container_New_def Resolve_enter_def Resolve_exit_def closerFor_def assertable_def)

end
