(* ===== verification/CoreErrors.thy ===== *)
theory CoreErrors
  imports Prelude
begin

text \<open>
  Structured errors (\<^verbatim>\<open>core/errors/errors.go\<close>): codes, their mapping to HTTP and gRPC statuses, the code
  and the text of an arbitrary error, and which errors may be retried. An \<^verbatim>\<open>*Error\<close> is the constructor
  \<open>Coded\<close> of \<open>goerror\<close>; a nil \<^verbatim>\<open>*Error\<close> is \<open>None\<close>.

  The package \<^verbatim>\<open>google.golang.org/grpc/status\<close> is a parameter: \<open>FromError\<close> gives the code and the
  message of an error that carries a gRPC status, \<open>status_Error\<close> makes one.
\<close>

section \<open>Codes\<close>

type_synonym Code = string

definition CodeOK :: Code where "CodeOK = ''ok''"
definition CodeCanceled :: Code where "CodeCanceled = ''canceled''"
definition CodeUnknown :: Code where "CodeUnknown = ''unknown''"
definition CodeInvalidArgument :: Code where "CodeInvalidArgument = ''invalid_argument''"
definition CodeDeadlineExceeded :: Code where "CodeDeadlineExceeded = ''deadline_exceeded''"
definition CodeNotFound :: Code where "CodeNotFound = ''not_found''"
definition CodeAlreadyExists :: Code where "CodeAlreadyExists = ''already_exists''"
definition CodePermissionDenied :: Code where "CodePermissionDenied = ''permission_denied''"
definition CodeResourceExhausted :: Code where "CodeResourceExhausted = ''resource_exhausted''"
definition CodeFailedPrecondition :: Code where "CodeFailedPrecondition = ''failed_precondition''"
definition CodeAborted :: Code where "CodeAborted = ''aborted''"
definition CodeOutOfRange :: Code where "CodeOutOfRange = ''out_of_range''"
definition CodeUnimplemented :: Code where "CodeUnimplemented = ''unimplemented''"
definition CodeInternal :: Code where "CodeInternal = ''internal''"
definition CodeUnavailable :: Code where "CodeUnavailable = ''unavailable''"
definition CodeDataLoss :: Code where "CodeDataLoss = ''data_loss''"
definition CodeUnauthenticated :: Code where "CodeUnauthenticated = ''unauthenticated''"

lemmas code_defs = CodeOK_def CodeCanceled_def CodeUnknown_def CodeInvalidArgument_def CodeDeadlineExceeded_def
  CodeNotFound_def CodeAlreadyExists_def CodePermissionDenied_def CodeResourceExhausted_def CodeFailedPrecondition_def
  CodeAborted_def CodeOutOfRange_def CodeUnimplemented_def CodeInternal_def CodeUnavailable_def CodeDataLoss_def
  CodeUnauthenticated_def

text \<open>The codes of gRPC: the named ones, and any other number.\<close>

datatype codes_Code =
    codes_OK | codes_Canceled | codes_Unknown | codes_InvalidArgument | codes_DeadlineExceeded | codes_NotFound
  | codes_AlreadyExists | codes_PermissionDenied | codes_ResourceExhausted | codes_FailedPrecondition
  | codes_Aborted | codes_OutOfRange | codes_Unimplemented | codes_Internal | codes_Unavailable
  | codes_DataLoss | codes_Unauthenticated | codes_other nat

text \<open>The codes that the package declares.\<close>

definition package_codes :: "Code list" where
  "package_codes =
     [CodeOK, CodeCanceled, CodeUnknown, CodeInvalidArgument, CodeDeadlineExceeded, CodeNotFound,
      CodeAlreadyExists, CodePermissionDenied, CodeResourceExhausted, CodeFailedPrecondition, CodeAborted,
      CodeOutOfRange, CodeUnimplemented, CodeInternal, CodeUnavailable, CodeDataLoss, CodeUnauthenticated]"

definition HTTPStatus :: "Code \<Rightarrow> int" where
  "HTTPStatus code =
     (if code = CodeOK then 200
      else if code = CodeCanceled then 499
      else if code = CodeUnknown then 500
      else if code = CodeInvalidArgument then 400
      else if code = CodeDeadlineExceeded then 504
      else if code = CodeNotFound then 404
      else if code = CodeAlreadyExists then 409
      else if code = CodePermissionDenied then 403
      else if code = CodeResourceExhausted then 429
      else if code = CodeFailedPrecondition then 400
      else if code = CodeAborted then 409
      else if code = CodeOutOfRange then 400
      else if code = CodeUnimplemented then 501
      else if code = CodeUnavailable then 503
      else if code = CodeDataLoss then 500
      else if code = CodeUnauthenticated then 401
      else 500)"

definition GRPCStatus :: "Code \<Rightarrow> codes_Code" where
  "GRPCStatus code =
     (if code = CodeOK then codes_OK
      else if code = CodeCanceled then codes_Canceled
      else if code = CodeUnknown then codes_Unknown
      else if code = CodeInvalidArgument then codes_InvalidArgument
      else if code = CodeDeadlineExceeded then codes_DeadlineExceeded
      else if code = CodeNotFound then codes_NotFound
      else if code = CodeAlreadyExists then codes_AlreadyExists
      else if code = CodePermissionDenied then codes_PermissionDenied
      else if code = CodeResourceExhausted then codes_ResourceExhausted
      else if code = CodeFailedPrecondition then codes_FailedPrecondition
      else if code = CodeAborted then codes_Aborted
      else if code = CodeOutOfRange then codes_OutOfRange
      else if code = CodeUnimplemented then codes_Unimplemented
      else if code = CodeInternal then codes_Internal
      else if code = CodeUnavailable then codes_Unavailable
      else if code = CodeDataLoss then codes_DataLoss
      else if code = CodeUnauthenticated then codes_Unauthenticated
      else codes_Internal)"

definition CodeFromGRPCStatus :: "codes_Code \<Rightarrow> Code" where
  "CodeFromGRPCStatus code =
     (case code of
        codes_OK \<Rightarrow> CodeOK
      | codes_Canceled \<Rightarrow> CodeCanceled
      | codes_Unknown \<Rightarrow> CodeUnknown
      | codes_InvalidArgument \<Rightarrow> CodeInvalidArgument
      | codes_DeadlineExceeded \<Rightarrow> CodeDeadlineExceeded
      | codes_NotFound \<Rightarrow> CodeNotFound
      | codes_AlreadyExists \<Rightarrow> CodeAlreadyExists
      | codes_PermissionDenied \<Rightarrow> CodePermissionDenied
      | codes_ResourceExhausted \<Rightarrow> CodeResourceExhausted
      | codes_FailedPrecondition \<Rightarrow> CodeFailedPrecondition
      | codes_Aborted \<Rightarrow> CodeAborted
      | codes_OutOfRange \<Rightarrow> CodeOutOfRange
      | codes_Unimplemented \<Rightarrow> CodeUnimplemented
      | codes_Internal \<Rightarrow> CodeInternal
      | codes_Unavailable \<Rightarrow> CodeUnavailable
      | codes_DataLoss \<Rightarrow> CodeDataLoss
      | codes_Unauthenticated \<Rightarrow> CodeUnauthenticated
      | codes_other n \<Rightarrow> CodeInternal)"

section \<open>Errors\<close>

definition Errors_Wrap :: "Code \<Rightarrow> string \<Rightarrow> goerror option \<Rightarrow> goerror" where
  "Errors_Wrap code msg base = Coded (if code = '''' then CodeInternal else code) msg base"

definition Errors_New :: "Code \<Rightarrow> string \<Rightarrow> goerror" where
  "Errors_New code msg = Coded (if code = '''' then CodeInternal else code) msg None"

definition Error_Unwrap :: "(Code \<times> string \<times> goerror option) option \<Rightarrow> goerror option" where
  "Error_Unwrap e = (case e of None \<Rightarrow> None | Some (c, m, b) \<Rightarrow> b)"

definition Error_HTTPStatus :: "(Code \<times> string \<times> goerror option) option \<Rightarrow> int" where
  "Error_HTTPStatus e = (case e of None \<Rightarrow> 200 | Some (c, m, b) \<Rightarrow> HTTPStatus c)"

definition Error_GRPCStatus :: "(Code \<times> string \<times> goerror option) option \<Rightarrow> codes_Code" where
  "Error_GRPCStatus e = (case e of None \<Rightarrow> codes_OK | Some (c, m, b) \<Rightarrow> GRPCStatus c)"

text \<open>\<^verbatim>\<open>errors.As\<close> with a \<^verbatim>\<open>*Error\<close> as target: the first one in a depth-first walk of the causes.\<close>

fun as_Error :: "goerror \<Rightarrow> (Code \<times> string \<times> goerror option) option"
and as_Error_list :: "goerror list \<Rightarrow> (Code \<times> string \<times> goerror option) option" where
  "as_Error (Err m) = None"
| "as_Error (Wrap m e) = as_Error e"
| "as_Error (WrapText e m) = as_Error e"
| "as_Error (Joined es) = as_Error_list es"
| "as_Error (Coded c m b) = Some (c, m, b)"
| "as_Error_list [] = None"
| "as_Error_list (e # es) = (case as_Error e of None \<Rightarrow> as_Error_list es | Some x \<Rightarrow> Some x)"

definition ctx_Canceled :: goerror where "ctx_Canceled = Err ''context canceled''"
definition ctx_DeadlineExceeded :: goerror where "ctx_DeadlineExceeded = Err ''context deadline exceeded''"

definition CodeOf :: "(goerror \<Rightarrow> (codes_Code \<times> string) option) \<Rightarrow> goerror option \<Rightarrow> Code" where
  "CodeOf FromError err =
     (case err of None \<Rightarrow> CodeOK
      | Some e \<Rightarrow>
          if errors_Is e ctx_Canceled then CodeCanceled
          else if errors_Is e ctx_DeadlineExceeded then CodeDeadlineExceeded
          else case as_Error e of Some (c, m, b) \<Rightarrow> c
          | None \<Rightarrow> (case FromError e of Some (g, m) \<Rightarrow> CodeFromGRPCStatus g | None \<Rightarrow> CodeInternal))"

definition TextOf :: "(goerror \<Rightarrow> (codes_Code \<times> string) option) \<Rightarrow> goerror option \<Rightarrow> string" where
  "TextOf FromError err =
     (case err of None \<Rightarrow> ''''
      | Some e \<Rightarrow>
          (case as_Error e of Some (c, m, b) \<Rightarrow> m
           | None \<Rightarrow> (case FromError e of Some (g, m) \<Rightarrow> m | None \<Rightarrow> error_text e)))"

definition GRPCError ::
  "(goerror \<Rightarrow> (codes_Code \<times> string) option) \<Rightarrow> (codes_Code \<Rightarrow> string \<Rightarrow> goerror option) \<Rightarrow> goerror option \<Rightarrow> goerror option" where
  "GRPCError FromError status_Error err =
     (case err of None \<Rightarrow> None
      | Some e \<Rightarrow>
          if FromError e \<noteq> None then err
          else status_Error (GRPCStatus (CodeOf FromError err)) (TextOf FromError err))"

definition Retryable :: "(goerror \<Rightarrow> (codes_Code \<times> string) option) \<Rightarrow> goerror option \<Rightarrow> bool" where
  "Retryable FromError err \<longleftrightarrow>
     CodeOf FromError err \<in> {CodeUnavailable, CodeDeadlineExceeded, CodeResourceExhausted, CodeAborted, CodeInternal}"

section \<open>Properties\<close>

lemma code_roundtrip: "code \<in> set package_codes \<Longrightarrow> CodeFromGRPCStatus (GRPCStatus code) = code"
proof -
  have "list_all (\<lambda>code. CodeFromGRPCStatus (GRPCStatus code) = code) package_codes"
    by (simp add: package_codes_def GRPCStatus_def CodeFromGRPCStatus_def code_defs)
  then show "code \<in> set package_codes \<Longrightarrow> CodeFromGRPCStatus (GRPCStatus code) = code"
    by (simp add: list_all_iff)
qed

lemma grpc_roundtrip: "\<forall>k. g \<noteq> codes_other k \<Longrightarrow> GRPCStatus (CodeFromGRPCStatus g) = g"
  by (cases g) (simp_all add: GRPCStatus_def CodeFromGRPCStatus_def code_defs)

lemma code_of_unknown_status: "CodeFromGRPCStatus (codes_other n) = CodeInternal"
  by (simp add: CodeFromGRPCStatus_def)

text \<open>An HTTP status is an error status exactly for the codes other than \<open>ok\<close>.\<close>

lemma HTTPStatus_class: "(HTTPStatus code \<ge> 400) = (code \<noteq> CodeOK)" "HTTPStatus code \<in> {200} \<union> {400..<600}"
  unfolding HTTPStatus_def by simp_all

text \<open>A code is found through any chain of \<^verbatim>\<open>%w\<close> wrappers.\<close>

lemma CodeOf_wrapped: "CodeOf FromError (Some (Wrap m (Coded c t None))) = c"
  by (simp add: CodeOf_def ctx_Canceled_def ctx_DeadlineExceeded_def)

text \<open>
  C32. An error keeps its code, its text and whether it may be retried when it crosses a gRPC boundary:
  \<^verbatim>\<open>CodeOf\<close>, \<^verbatim>\<open>TextOf\<close> and \<^verbatim>\<open>Retryable\<close> of the status error that \<^verbatim>\<open>GRPCError\<close> makes are those of the
  original error, for every error whose code is one of the package's error codes. What is assumed of the status
  library is that \<^verbatim>\<open>FromError\<close> gives back the code and message that \<^verbatim>\<open>status.Error\<close> was given, and that
  the error it makes has no cause.
\<close>

theorem GRPCError_keeps_code:
  assumes "\<And>g m. g \<noteq> codes_OK \<Longrightarrow> \<exists>s. status_Error g m = Some (Err s) \<and> FromError (Err s) = Some (g, m) \<and>
       Err s \<noteq> ctx_Canceled \<and> Err s \<noteq> ctx_DeadlineExceeded"
    and "FromError e = None" "CodeOf FromError (Some e) \<in> set package_codes" "CodeOf FromError (Some e) \<noteq> CodeOK"
  shows "CodeOf FromError (GRPCError FromError status_Error (Some e)) = CodeOf FromError (Some e) \<and>
     TextOf FromError (GRPCError FromError status_Error (Some e)) = TextOf FromError (Some e) \<and>
     Retryable FromError (GRPCError FromError status_Error (Some e)) = Retryable FromError (Some e)"
proof -
  let ?c = "CodeOf FromError (Some e)" and ?m = "TextOf FromError (Some e)"
  have "GRPCStatus ?c \<noteq> codes_OK"
    using code_roundtrip [OF assms(3)] assms(4) by (auto simp: CodeFromGRPCStatus_def)
  then obtain s where t: "status_Error (GRPCStatus ?c) ?m = Some (Err s)" "FromError (Err s) = Some (GRPCStatus ?c, ?m)"
    "Err s \<noteq> ctx_Canceled" "Err s \<noteq> ctx_DeadlineExceeded"
    using assms(1) by blast
  then have "GRPCError FromError status_Error (Some e) = Some (Err s)"
    using assms(2) by (simp add: GRPCError_def)
  moreover have "CodeOf FromError (Some (Err s)) = ?c"
    using t code_roundtrip [OF assms(3)] by (simp add: CodeOf_def [of _ "Some (Err s)"])
  moreover have "TextOf FromError (Some (Err s)) = ?m"
    using t by (simp add: TextOf_def [of _ "Some (Err s)"])
  ultimately show ?thesis by (simp add: Retryable_def)
qed

text \<open>A status library for the witness: a status error spells its code in unary, a line break and its message.\<close>

definition code_number :: "codes_Code \<Rightarrow> nat" where
  "code_number g = (case g of codes_other n \<Rightarrow> 17 + n | _ \<Rightarrow> length (takeWhile (\<lambda>c. GRPCStatus c \<noteq> g) package_codes))"

definition number_code :: "nat \<Rightarrow> codes_Code" where
  "number_code n = (if n < 17 then GRPCStatus (package_codes ! n) else codes_other (n - 17))"

definition toy_status :: "codes_Code \<Rightarrow> string \<Rightarrow> goerror option" where
  "toy_status g m = (if g = codes_OK then None else Some (Err (replicate (code_number g) (CHR ''1'') @ CHR 0x0A # m)))"

definition toy_FromError :: "goerror \<Rightarrow> (codes_Code \<times> string) option" where
  "toy_FromError e =
     (case e of Err s \<Rightarrow>
        (let ones = takeWhile (\<lambda>c. c = CHR ''1'') s
         in case drop (length ones) s of c # m \<Rightarrow> if c = CHR 0x0A then Some (number_code (length ones), m) else None | [] \<Rightarrow> None)
      | _ \<Rightarrow> None)"

lemma number_code_number: "number_code (code_number g) = g"
proof -
  have st: "map GRPCStatus package_codes =
      [codes_OK, codes_Canceled, codes_Unknown, codes_InvalidArgument, codes_DeadlineExceeded, codes_NotFound, codes_AlreadyExists,
       codes_PermissionDenied, codes_ResourceExhausted, codes_FailedPrecondition, codes_Aborted, codes_OutOfRange,
       codes_Unimplemented, codes_Internal, codes_Unavailable, codes_DataLoss, codes_Unauthenticated]"
    by (simp add: package_codes_def GRPCStatus_def code_defs)
  have len: "length package_codes = 17" by (simp add: package_codes_def)
  have number: "length (takeWhile (\<lambda>c. GRPCStatus c \<noteq> g) package_codes) = length (takeWhile (\<lambda>h. h \<noteq> g) (map GRPCStatus package_codes))" for g
    by (simp add: takeWhile_map comp_def)
  have nth: "GRPCStatus (package_codes ! n) = map GRPCStatus package_codes ! n" if "n < 17" for n using that len by simp
  show ?thesis by (cases g) (simp_all add: code_number_def number_code_def number nth st)
qed

lemma toy_status_laws:
  assumes "g \<noteq> codes_OK"
  shows "\<exists>s. toy_status g m = Some (Err s) \<and> toy_FromError (Err s) = Some (g, m) \<and>
     Err s \<noteq> ctx_Canceled \<and> Err s \<noteq> ctx_DeadlineExceeded"
proof -
  let ?s = "replicate (code_number g) (CHR ''1'') @ CHR 0x0A # m"
  have "toy_FromError (Err ?s) = Some (g, m)"
    by (simp add: toy_FromError_def takeWhile_append number_code_number)
  moreover have "?s \<noteq> t" if "CHR 0x0A \<notin> set t" for t using that by auto
  then have "Err ?s \<noteq> ctx_Canceled" "Err ?s \<noteq> ctx_DeadlineExceeded"
    unfolding ctx_Canceled_def ctx_DeadlineExceeded_def goerror.inject by simp_all
  ultimately show ?thesis using assms by (simp add: toy_status_def)
qed

theorem GRPCError_keeps_code_witness:
  "let e = Wrap ''call'' (Coded ''unavailable'' ''draining'' None); g = GRPCError toy_FromError toy_status (Some e)
   in CodeOf toy_FromError g = ''unavailable'' \<and> TextOf toy_FromError g = ''draining'' \<and> Retryable toy_FromError g"
proof -
  define e where "e = Wrap ''call'' (Coded ''unavailable'' ''draining'' None)"
  have c: "CodeOf toy_FromError (Some e) = ''unavailable''" "TextOf toy_FromError (Some e) = ''draining''" "toy_FromError e = None"
    by (simp_all add: e_def CodeOf_def TextOf_def ctx_Canceled_def ctx_DeadlineExceeded_def toy_FromError_def)
  have "''unavailable'' \<in> set package_codes" "''unavailable'' \<noteq> CodeOK" by (simp_all add: package_codes_def code_defs)
  then show ?thesis
    using GRPCError_keeps_code [of toy_status toy_FromError e, OF toy_status_laws c(3)] c
    by (simp add: e_def [symmetric] Let_def Retryable_def [of _ "Some e"] CodeUnavailable_def)
qed

end
