(* ===== verification/Balancer.thy ===== *)
theory Balancer
  imports GoStrings CoreErrors Float64 "HOL-Library.Word"
begin

text \<open>
  The client-side load balancers of \<^verbatim>\<open>rpc/balancer.go\<close> and \<^verbatim>\<open>rpc/p2c_ewma.go\<close>: round robin, health-aware
  round robin, smooth weighted round robin, power of two choices (by active requests, and by a moving
  average of latencies), and consistent hashing. Each operation takes what \<^verbatim>\<open>ctx.Err()\<close> returns.
\<close>

unbundle bit_operations_syntax

section \<open>Endpoints\<close>

definition trim_endpoint :: "string \<Rightarrow> string" where
  "trim_endpoint endpoint = strings_TrimRight (strings_TrimSpace endpoint) ''/''"

fun normalize_loop :: "string list \<Rightarrow> string list \<Rightarrow> string list" where
  "normalize_loop seen [] = []"
| "normalize_loop seen (endpoint # rest) =
     (let e = trim_endpoint endpoint
      in if e = '''' then normalize_loop seen rest
         else if e \<in> set seen then normalize_loop seen rest
         else e # normalize_loop (e # seen) rest)"

definition normalizeEndpoints :: "string list \<Rightarrow> string list" where
  "normalizeEndpoints endpoints = normalize_loop [] endpoints"

text \<open>\<^verbatim>\<open>trimEndpoint\<close> of \<^verbatim>\<open>rpc/p2c_ewma.go\<close>.\<close>

definition trimEndpoint :: "string \<Rightarrow> string" where
  "trimEndpoint endpoint = (case normalizeEndpoints [endpoint] of [] \<Rightarrow> '''' | e # _ \<Rightarrow> e)"

text \<open>In the order of the list, a later entry overwrites an earlier one with the same endpoint.\<close>

definition normalizeWeights :: "(string, int) gomap \<Rightarrow> (string, int) gomap option" where
  "normalizeWeights weights =
     (if weights = [] then None
      else Some (fold (\<lambda>(endpoint, weight) out.
                   let e = trim_endpoint endpoint in if e = '''' \<or> weight \<le> 0 then out else m_put e weight out) weights []))"

definition no_endpoint :: goerror where "no_endpoint = Err ''no endpoint to pick''"

text \<open>What all the \<^verbatim>\<open>Pick\<close> methods begin with: the context, and the candidates.\<close>

definition candidates_or_error :: "goerror option \<Rightarrow> string list \<Rightarrow> goerror + string list" where
  "candidates_or_error ctx endpoints =
     (case ctx of Some err \<Rightarrow> Inl err
      | None \<Rightarrow> let candidates = normalizeEndpoints endpoints in if candidates = [] then Inl no_endpoint else Inr candidates)"

section \<open>Round robin\<close>

text \<open>\<open>at_counter xs n\<close> is \<^verbatim>\<open>xs[n % uint64(len(xs))]\<close>.\<close>

definition at_counter :: "string list \<Rightarrow> 64 word \<Rightarrow> string" where
  "at_counter xs n = xs ! (unat n mod length xs)"

record RoundRobinBalancer =
  rr_next :: "64 word"

definition RoundRobin_Pick :: "goerror option \<Rightarrow> string list \<Rightarrow> RoundRobinBalancer \<Rightarrow> (goerror + string) \<times> RoundRobinBalancer" where
  "RoundRobin_Pick ctx endpoints b =
     (case candidates_or_error ctx endpoints of
        Inl err \<Rightarrow> (Inl err, b)
      | Inr candidates \<Rightarrow> (Inr (at_counter candidates (rr_next b)), b\<lparr>rr_next := rr_next b + 1\<rparr>))"

section \<open>Health\<close>

record endpointHealth =
  eh_failures :: int
  eh_ejectedAt :: time

record HealthBalancer =
  hb_next :: "64 word"
  hb_failureThreshold :: int
  hb_ejectionDuration :: duration
  hb_endpoints :: "(string, endpointHealth) gomap"

datatype HealthBalancerOption = WithHealthFailureThreshold int | WithHealthEjectionDuration duration

fun apply_HealthBalancerOption :: "HealthBalancerOption \<Rightarrow> HealthBalancer \<Rightarrow> HealthBalancer" where
  "apply_HealthBalancerOption (WithHealthFailureThreshold n) b = (if n > 0 then b\<lparr>hb_failureThreshold := n\<rparr> else b)"
| "apply_HealthBalancerOption (WithHealthEjectionDuration d) b = (if d > 0 then b\<lparr>hb_ejectionDuration := d\<rparr> else b)"

definition NewHealthBalancer :: "HealthBalancerOption list \<Rightarrow> HealthBalancer" where
  "NewHealthBalancer opts =
     fold apply_HealthBalancerOption opts
       \<lparr>hb_next = 0, hb_failureThreshold = 2, hb_ejectionDuration = 5 * Second, hb_endpoints = []\<rparr>"

fun healthyEndpoints :: "string list \<Rightarrow> time \<Rightarrow> HealthBalancer \<Rightarrow> string list \<times> HealthBalancer" where
  "healthyEndpoints [] now b = ([], b)"
| "healthyEndpoints (endpoint # rest) now b =
     (case m_get (hb_endpoints b) endpoint of
        None \<Rightarrow> (case healthyEndpoints rest now b of (h, b') \<Rightarrow> (endpoint # h, b'))
      | Some st \<Rightarrow>
          if eh_ejectedAt st = 0 then (case healthyEndpoints rest now b of (h, b') \<Rightarrow> (endpoint # h, b'))
          else if time_Sub now (eh_ejectedAt st) \<ge> hb_ejectionDuration b then
            (case healthyEndpoints rest now
                    (b\<lparr>hb_endpoints := m_put endpoint \<lparr>eh_failures = 0, eh_ejectedAt = 0\<rparr> (hb_endpoints b)\<rparr>) of
               (h, b') \<Rightarrow> (endpoint # h, b'))
          else healthyEndpoints rest now b)"

definition Health_Pick :: "goerror option \<Rightarrow> string list \<Rightarrow> time \<Rightarrow> HealthBalancer \<Rightarrow> (goerror + string) \<times> HealthBalancer" where
  "Health_Pick ctx endpoints now b =
     (case candidates_or_error ctx endpoints of
        Inl err \<Rightarrow> (Inl err, b)
      | Inr candidates \<Rightarrow>
          (case healthyEndpoints candidates now b of (h, b') \<Rightarrow>
             let healthy = (if h = [] then candidates else h)
             in (Inr (at_counter healthy (hb_next b')), b'\<lparr>hb_next := hb_next b' + 1\<rparr>)))"

text \<open>\<^verbatim>\<open>Report\<close>, with the result of \<^verbatim>\<open>isRetryable(err)\<close> and the clock.\<close>

definition Health_Report ::
  "(goerror \<Rightarrow> (codes_Code \<times> string) option) \<Rightarrow> goerror option \<Rightarrow> string \<Rightarrow> goerror option \<Rightarrow> time \<Rightarrow> HealthBalancer \<Rightarrow> HealthBalancer" where
  "Health_Report FromError ctx endpoint err now b =
     (if ctx \<noteq> None then b
      else let e = trim_endpoint endpoint in
        if e = '''' then b
        else let st = (case m_get (hb_endpoints b) e of None \<Rightarrow> \<lparr>eh_failures = 0, eh_ejectedAt = 0\<rparr> | Some st \<Rightarrow> st);
                 st' = (if \<not> Retryable FromError err then \<lparr>eh_failures = 0, eh_ejectedAt = 0\<rparr>
                        else let st = st\<lparr>eh_failures := eh_failures st + 1\<rparr>
                             in if eh_failures st \<ge> hb_failureThreshold b then st\<lparr>eh_ejectedAt := now\<rparr> else st)
             in b\<lparr>hb_endpoints := m_put e st' (hb_endpoints b)\<rparr>)"

section \<open>Smooth weighted round robin\<close>

record WeightedRoundRobinBalancer =
  wr_weights :: "(string, int) gomap option"
  wr_current :: "(string, int) gomap"

definition NewWeightedRoundRobinBalancer :: "(string, int) gomap \<Rightarrow> WeightedRoundRobinBalancer" where
  "NewWeightedRoundRobinBalancer weights = \<lparr>wr_weights = normalizeWeights weights, wr_current = []\<rparr>"

definition weightOf :: "WeightedRoundRobinBalancer \<Rightarrow> string \<Rightarrow> int" where
  "weightOf b endpoint =
     (case wr_weights b of None \<Rightarrow> 1
      | Some ws \<Rightarrow> (case m_get ws endpoint of None \<Rightarrow> 1 | Some w \<Rightarrow> if w \<le> 0 then 1 else w))"

definition cur :: "(string, int) gomap \<Rightarrow> string \<Rightarrow> int" where
  "cur m e = (case m_get m e of None \<Rightarrow> 0 | Some v \<Rightarrow> v)"

fun wrr_loop :: "(string \<Rightarrow> int) \<Rightarrow> string list \<Rightarrow> (string, int) gomap \<Rightarrow> string \<Rightarrow> int \<Rightarrow> (string, int) gomap \<times> string \<times> int" where
  "wrr_loop w [] m chosen tot = (m, chosen, tot)"
| "wrr_loop w (e # rest) m chosen tot =
     (let m = m_put e (wrap64 (cur m e + w e)) m
      in wrr_loop w rest m (if chosen = '''' \<or> cur m e > cur m chosen then e else chosen) (wrap64 (tot + w e)))"

definition Weighted_Pick ::
  "goerror option \<Rightarrow> string list \<Rightarrow> WeightedRoundRobinBalancer \<Rightarrow> (goerror + string) \<times> WeightedRoundRobinBalancer" where
  "Weighted_Pick ctx endpoints b =
     (case candidates_or_error ctx endpoints of
        Inl err \<Rightarrow> (Inl err, b)
      | Inr candidates \<Rightarrow>
          (case wrr_loop (weightOf b) candidates (wr_current b) '''' 0 of (m, chosen, tot) \<Rightarrow>
             if chosen = '''' then (Inl no_endpoint, b\<lparr>wr_current := m\<rparr>)
             else (Inr chosen, b\<lparr>wr_current := m_put chosen (wrap64 (cur m chosen - tot)) m\<rparr>)))"

section \<open>Power of two choices\<close>

record P2CBalancer =
  p2_next :: "64 word"
  p2_active :: "(string, int) gomap"

definition NewP2CBalancer :: P2CBalancer where "NewP2CBalancer = \<lparr>p2_next = 0, p2_active = []\<rparr>"

definition markActive :: "string \<Rightarrow> int \<Rightarrow> P2CBalancer \<Rightarrow> P2CBalancer" where
  "markActive endpoint delta b =
     (if endpoint = '''' then b
      else let n = cur (p2_active b) endpoint + delta
           in b\<lparr>p2_active := (if n \<le> 0 then m_del endpoint (p2_active b) else m_put endpoint n (p2_active b))\<rparr>)"

definition lessLoaded :: "string \<Rightarrow> string \<Rightarrow> P2CBalancer \<Rightarrow> string" where
  "lessLoaded a c b = (if cur (p2_active b) a \<le> cur (p2_active b) c then a else c)"

definition P2C_Pick :: "goerror option \<Rightarrow> string list \<Rightarrow> P2CBalancer \<Rightarrow> (goerror + string) \<times> P2CBalancer" where
  "P2C_Pick ctx endpoints b =
     (case candidates_or_error ctx endpoints of
        Inl err \<Rightarrow> (Inl err, b)
      | Inr candidates \<Rightarrow>
          if length candidates = 1 then (Inr (hd candidates), markActive (hd candidates) 1 b)
          else
            let idx = p2_next b; b = b\<lparr>p2_next := p2_next b + 1\<rparr>;
                a = at_counter candidates idx;
                bidx = unat (idx * 1103515245 + 12345) mod length candidates;
                c = (if candidates ! bidx = a then candidates ! ((bidx + 1) mod length candidates) else candidates ! bidx);
                chosen = lessLoaded a c b
            in (Inr chosen, markActive chosen 1 b))"

definition P2C_Report :: "goerror option \<Rightarrow> string \<Rightarrow> P2CBalancer \<Rightarrow> P2CBalancer" where
  "P2C_Report ctx endpoint b =
     (if ctx \<noteq> None then b
      else let e = trim_endpoint endpoint in if e = '''' then b else markActive e (- 1) b)"

section \<open>Consistent hashing\<close>

record ConsistentHashBalancer =
  ch_replicas :: int
  ch_ring :: "32 word list"
  ch_nodes :: "(32 word, string) gomap"
  ch_fixedKey :: string
  ch_ringSignature :: string
  ch_next :: RoundRobinBalancer

datatype ConsistentHashOption = WithConsistentHashReplicas int | WithConsistentHashKey string

fun apply_ConsistentHashOption :: "ConsistentHashOption \<Rightarrow> ConsistentHashBalancer \<Rightarrow> ConsistentHashBalancer" where
  "apply_ConsistentHashOption (WithConsistentHashReplicas n) b = (if n > 0 then b\<lparr>ch_replicas := n\<rparr> else b)"
| "apply_ConsistentHashOption (WithConsistentHashKey key) b = b\<lparr>ch_fixedKey := key\<rparr>"

definition NewConsistentHashBalancer :: "ConsistentHashOption list \<Rightarrow> ConsistentHashBalancer" where
  "NewConsistentHashBalancer opts =
     (let b = fold apply_ConsistentHashOption opts
        \<lparr>ch_replicas = 64, ch_ring = [], ch_nodes = [], ch_fixedKey = '''', ch_ringSignature = '''', ch_next = \<lparr>rr_next = 0\<rparr>\<rparr>
      in if ch_replicas b \<le> 0 then b\<lparr>ch_replicas := 64\<rparr> else b)"

text \<open>FNV-1a on 32 bits (\<^verbatim>\<open>hash/fnv\<close>).\<close>

definition hashString :: "string \<Rightarrow> 32 word" where
  "hashString s = fold (\<lambda>c h. (h XOR of_char c) * 16777619) s 2166136261"

text \<open>\<^verbatim>\<open>hashKey\<close>: \<open>ctx_key\<close> is the key that \<^verbatim>\<open>ContextWithHashKey\<close> put into the context, or empty.\<close>

definition ch_hashKey :: "string \<Rightarrow> ConsistentHashBalancer \<Rightarrow> string" where
  "ch_hashKey ctx_key b = (if ctx_key \<noteq> '''' then ctx_key else ch_fixedKey b)"

definition replica_hashes :: "int \<Rightarrow> string \<Rightarrow> 32 word list" where
  "replica_hashes replicas endpoint = map (\<lambda>i. hashString (endpoint @ ''#'' @ strconv_Itoa (int i))) [0..<nat replicas]"

definition build_ring :: "int \<Rightarrow> string list \<Rightarrow> 32 word list \<times> (32 word, string) gomap" where
  "build_ring replicas endpoints =
     (let points = concat (map (\<lambda>e. map (\<lambda>h. (h, e)) (replica_hashes replicas e)) endpoints)
      in (sort (map fst points), fold (\<lambda>(h, e). m_put h e) points []))"

definition ringFor ::
  "string list \<Rightarrow> ConsistentHashBalancer \<Rightarrow> (32 word list \<times> (32 word, string) gomap) \<times> ConsistentHashBalancer" where
  "ringFor endpoints b =
     (let signature = strings_Join endpoints [CHR 0x00]
      in if ch_ringSignature b = signature \<and> ch_ring b \<noteq> [] then ((ch_ring b, ch_nodes b), b)
         else case build_ring (ch_replicas b) endpoints of (ring, nodes) \<Rightarrow>
           ((ring, nodes), b\<lparr>ch_ringSignature := signature, ch_ring := ring, ch_nodes := nodes\<rparr>))"

text \<open>\<^verbatim>\<open>sort.Search\<close>: bisection for the first index at which the predicate holds.\<close>

function search_loop :: "(nat \<Rightarrow> bool) \<Rightarrow> nat \<Rightarrow> nat \<Rightarrow> nat" where
  "search_loop f i j =
     (if i < j then let h = (i + j) div 2 in if \<not> f h then search_loop f (h + 1) j else search_loop f i h else i)"
  by pat_completeness auto
termination
  by (relation "measure (\<lambda>(f, i, j). j - i)") auto

declare search_loop.simps [simp del]

definition sort_Search :: "nat \<Rightarrow> (nat \<Rightarrow> bool) \<Rightarrow> nat" where
  "sort_Search n f = search_loop f 0 n"

definition ring_lookup :: "32 word list \<Rightarrow> (32 word, string) gomap \<Rightarrow> string \<Rightarrow> string" where
  "ring_lookup ring nodes key =
     (let hash = hashString key; idx = sort_Search (length ring) (\<lambda>i. ring ! i \<ge> hash);
          idx = (if idx = length ring then 0 else idx)
      in case m_get nodes (ring ! idx) of None \<Rightarrow> '''' | Some e \<Rightarrow> e)"

definition ConsistentHash_Pick ::
  "goerror option \<Rightarrow> string \<Rightarrow> string list \<Rightarrow> ConsistentHashBalancer \<Rightarrow> (goerror + string) \<times> ConsistentHashBalancer" where
  "ConsistentHash_Pick ctx ctx_key endpoints b =
     (case candidates_or_error ctx endpoints of
        Inl err \<Rightarrow> (Inl err, b)
      | Inr candidates \<Rightarrow>
          let key = ch_hashKey ctx_key b in
          if key = '''' then
            (case RoundRobin_Pick ctx candidates (ch_next b) of (r, n) \<Rightarrow> (r, b\<lparr>ch_next := n\<rparr>))
          else case ringFor candidates b of ((ring, nodes), b') \<Rightarrow>
            if ring = [] then (Inl no_endpoint, b') else (Inr (ring_lookup ring nodes key), b'))"

section \<open>Candidates\<close>

lemma normalize_loop_props:
  "distinct (normalize_loop seen es) \<and> '''' \<notin> set (normalize_loop seen es) \<and>
     set (normalize_loop seen es) = trim_endpoint ` set es - set seen - {''''}"
  by (induction seen es rule: normalize_loop.induct) (auto simp: Let_def)

lemma normalize_props:
  "distinct (normalizeEndpoints es)" "'''' \<notin> set (normalizeEndpoints es)"
  "set (normalizeEndpoints es) = trim_endpoint ` set es - {''''}"
  using normalize_loop_props [of "[]" es] by (auto simp: normalizeEndpoints_def)

lemma candidates_cases:
  obtains (Err) err where "candidates_or_error ctx es = Inl err"
  | (Ok) "ctx = None" "candidates_or_error ctx es = Inr (normalizeEndpoints es)" "normalizeEndpoints es \<noteq> []"
  by (cases ctx; cases "normalizeEndpoints es = []") (auto simp: candidates_or_error_def Let_def)

lemma candidates_None:
  "normalizeEndpoints es \<noteq> [] \<Longrightarrow> candidates_or_error None es = Inr (normalizeEndpoints es)"
  by (simp add: candidates_or_error_def Let_def)

lemma candidates_InrD:
  "candidates_or_error ctx es = Inr cs \<Longrightarrow> ctx = None \<and> cs = normalizeEndpoints es \<and> cs \<noteq> []"
  by (auto simp: candidates_or_error_def Let_def split: option.splits if_splits)

lemma at_counter_in: "xs \<noteq> [] \<Longrightarrow> at_counter xs n \<in> set xs"
  by (simp add: at_counter_def)

text \<open>
  Trimming is not idempotent: white space before the final slashes survives, and is trimmed the next
  time. A report for such an endpoint is booked under another name than the pick.
\<close>

lemma normalize_not_idempotent:
  "normalizeEndpoints [''a /''] = [''a '']" "normalizeEndpoints (normalizeEndpoints [''a /'']) = [''a'']"
proof -
  have 1: "strings_TrimSpace ''a /'' = ''a /''" "strings_TrimSpace ''a '' = ''a''" by code_simp+
  have "trim_endpoint ''a /'' = ''a ''" "trim_endpoint ''a '' = ''a''"
    unfolding trim_endpoint_def 1 by (simp_all add: strings_TrimRight_def)
  then show "normalizeEndpoints [''a /''] = [''a '']" "normalizeEndpoints (normalizeEndpoints [''a /'']) = [''a'']"
    by (simp_all add: normalizeEndpoints_def)
qed

section \<open>Weighted round robin is fair\<close>

lemma weightOf_pos: "1 \<le> weightOf b e"
  by (auto simp: weightOf_def split: option.split)

lemma weightOf_nonneg [simp]: "0 \<le> weightOf b e"
  using weightOf_pos [of b e] by simp

lemma cur_put [simp]: "cur (m_put e v m) x = (if x = e then v else cur m x)"
  by (simp add: cur_def)

lemma wrr_loop_spec:
  assumes "wrr_loop w es m ch tot = (m', ch', tot')" "distinct es" "'''' \<notin> set es" "ch \<notin> set es"
    and "\<forall>e \<in> set es. 1 \<le> w e \<and> int64_range (cur m e + w e)" "0 \<le> tot" "tot + sum w (set es) < 2 ^ 63"
  shows "(\<forall>e. cur m' e = cur m e + (if e \<in> set es then w e else 0)) \<and> tot' = tot + sum w (set es) \<and>
     (ch' = ch \<or> ch' \<in> set es) \<and> (ch \<noteq> '''' \<or> es \<noteq> [] \<longrightarrow> ch' \<noteq> '''' \<and>
     (\<forall>e \<in> set es. cur m' e \<le> cur m' ch') \<and> (ch \<noteq> '''' \<longrightarrow> cur m' ch \<le> cur m' ch'))"
  using assms
proof (induction es arbitrary: m ch tot)
  case (Cons e es)
  define m1 where "m1 = m_put e (cur m e + w e) m"
  define ch1 where "ch1 = (if ch = '''' \<or> cur m1 e > cur m1 ch then e else ch)"
  have e: "e \<notin> set es" "e \<noteq> ''''" "ch \<noteq> e" "ch \<notin> set es" using Cons.prems by auto
  have "0 \<le> sum w (set es)" using Cons.prems(5) by (intro sum_nonneg) force
  then have t: "wrap64 (tot + w e) = tot + w e"
    using Cons.prems(5-7) e(1) by (intro wrap64_id) (auto simp: int64_range_def)
  have "wrap64 (cur m e + w e) = cur m e + w e" using Cons.prems(5) by (simp add: wrap64_id)
  then have loop: "wrr_loop w es m1 ch1 (tot + w e) = (m', ch', tot')"
    using Cons.prems(1) by (simp add: Let_def t m1_def ch1_def)
  have ch1: "ch1 \<noteq> ''''" "ch1 \<notin> set es" using e by (simp_all add: ch1_def)
  have pre: "distinct es" "'''' \<notin> set es" "\<forall>x \<in> set es. 1 \<le> w x \<and> int64_range (cur m1 x + w x)"
    "0 \<le> tot + w e" "tot + w e + sum w (set es) < 2 ^ 63"
    using Cons.prems e(1) by (auto simp: m1_def)
  have IH: "ch' \<noteq> ''''" "\<forall>x \<in> set es. cur m' x \<le> cur m' ch'" "cur m' ch1 \<le> cur m' ch'" "ch' = ch1 \<or> ch' \<in> set es"
    "\<forall>x. cur m' x = cur m1 x + (if x \<in> set es then w x else 0)" "tot' = tot + w e + sum w (set es)"
    using Cons.IH [OF loop pre(1,2) ch1(2) pre(3-5)] ch1(1) by blast+
  have vals: "cur m' x = cur m x + (if x \<in> set (e # es) then w x else 0)" for x
    using IH(5) e(1) by (simp add: m1_def)
  have "cur m' e = cur m1 e" "cur m' ch = cur m1 ch" using IH(5) e by simp_all
  then have "cur m' e \<le> cur m' ch1" "ch \<noteq> '''' \<longrightarrow> cur m' ch \<le> cur m' ch1" by (auto simp: ch1_def)
  then have "\<forall>x \<in> set (e # es). cur m' x \<le> cur m' ch'" "ch \<noteq> '''' \<longrightarrow> cur m' ch \<le> cur m' ch'"
    using IH(2,3) by auto
  moreover have "ch' = ch \<or> ch' \<in> set (e # es)" using IH(4) by (auto simp: ch1_def split: if_splits)
  moreover have "tot' = tot + sum w (set (e # es))" using IH(6) e(1) by simp
  ultimately show ?case using vals IH(1) by blast
qed simp

text \<open>Values of a fair state: they sum to zero, and none is a whole round behind.\<close>

definition wrr_inv :: "(string \<Rightarrow> int) \<Rightarrow> string set \<Rightarrow> (string, int) gomap \<Rightarrow> bool" where
  "wrr_inv w S m \<longleftrightarrow> sum (cur m) S = 0 \<and> (\<forall>e \<in> S. - sum w S < cur m e)"

lemma wrr_inv_upper:
  assumes "wrr_inv w S m" "e \<in> S" "finite S"
  shows "cur m e \<le> (int (card S) - 1) * sum w S"
proof -
  have "cur m e = - sum (cur m) (S - {e})"
    using assms sum.remove [of S e "cur m"] by (simp add: wrr_inv_def)
  also have "\<dots> = (\<Sum>x \<in> S - {e}. - cur m x)" by (simp add: sum_negf)
  also have "\<dots> \<le> of_nat (card (S - {e})) * sum w S"
    by (rule sum_bounded_above) (use assms(1) in \<open>auto simp: wrr_inv_def\<close>)
  also have "int (card (S - {e})) = int (card S) - 1"
    using assms(2,3) card_gt_0_iff [of S] by (auto simp: of_nat_diff)
  finally show ?thesis .
qed

lemma Weighted_Pick_step:
  fixes b :: WeightedRoundRobinBalancer and endpoints :: "string list"
  defines "S \<equiv> set (normalizeEndpoints endpoints)" and "W \<equiv> sum (weightOf b) (set (normalizeEndpoints endpoints))"
  assumes "S \<noteq> {}" "wrr_inv (weightOf b) S (wr_current b)" "int (card S) * W < 2 ^ 63"
  shows "\<exists>chosen b'. Weighted_Pick None endpoints b = (Inr chosen, b') \<and> chosen \<in> S \<and> wr_weights b' = wr_weights b \<and>
     (\<forall>e \<in> S. cur (wr_current b') e = cur (wr_current b) e + weightOf b e - (if e = chosen then W else 0)) \<and>
     wrr_inv (weightOf b) S (wr_current b')"
proof -
  let ?w = "weightOf b" and ?m = "wr_current b" and ?C = "normalizeEndpoints endpoints"
  have fin: "finite S" and ne: "?C \<noteq> []" using assms(3) by (auto simp: S_def)
  have W: "W = sum ?w S" by (simp add: W_def S_def)
  have inv: "sum (cur ?m) S = 0" "\<forall>e \<in> S. - W < cur ?m e" using assms(4) by (simp_all add: wrr_inv_def W)
  have w_le: "?w e \<le> W" if "e \<in> S" for e
    unfolding W by (intro member_le_sum that fin) simp
  have Wpos: "0 < W" using assms(3) w_le weightOf_pos [of b] by (meson ex_in_conv less_le_trans zero_less_one)
  have card: "1 \<le> int (card S)" using assms(3) fin by (simp add: Suc_leI card_gt_0_iff)
  have W63: "W < 2 ^ 63"
  proof -
    have "1 * W \<le> int (card S) * W" by (rule mult_right_mono [OF card]) (use Wpos in simp)
    then show ?thesis using assms(5) by linarith
  qed
  have range: "int64_range (cur ?m e + ?w e)" if "e \<in> S" for e
  proof -
    have "cur ?m e + ?w e \<le> int (card S) * W"
      using wrr_inv_upper [OF assms(4) that fin] w_le [OF that] by (simp add: W algebra_simps)
    then show ?thesis using assms(5) W63 weightOf_pos [of b e] inv(2) that by (auto simp: int64_range_def)
  qed
  obtain m' ch tot' where loop: "wrr_loop ?w ?C ?m '''' 0 = (m', ch, tot')" by (metis prod_cases3)
  have sp: "\<forall>e. cur m' e = cur ?m e + (if e \<in> S then ?w e else 0)" "tot' = W" "ch \<noteq> ''''" "ch \<in> S"
    "\<forall>e \<in> S. cur m' e \<le> cur m' ch"
    using wrr_loop_spec [OF loop normalize_props(1,2) normalize_props(2)] range weightOf_pos W63 ne
    by (auto simp: W_def S_def)
  have "sum (cur m') S = sum (\<lambda>e. cur ?m e + ?w e) S" using sp(1) by (intro sum.cong) auto
  then have sum': "sum (cur m') S = W" using inv(1) by (simp add: sum.distrib W)
  have "sum (cur m') S \<le> of_nat (card S) * cur m' ch" by (rule sum_bounded_above) (use sp(5) in blast)
  then have "0 < int (card S) * cur m' ch" using sum' Wpos by simp
  then have pos: "0 < cur m' ch" by (simp add: zero_less_mult_iff)
  have "wrap64 (cur m' ch - W) = cur m' ch - W"
    using pos range [OF sp(4)] sp(1,4) W63 Wpos by (intro wrap64_id) (auto simp: int64_range_def)
  then have pick: "Weighted_Pick None endpoints b = (Inr ch, b\<lparr>wr_current := m_put ch (cur m' ch - W) m'\<rparr>)"
    using sp(2,3) loop ne by (simp add: Weighted_Pick_def candidates_None)
  let ?m' = "m_put ch (cur m' ch - W) m'"
  have vals: "cur ?m' e = cur ?m e + ?w e - (if e = ch then W else 0)" if "e \<in> S" for e
    using sp(1,4) that by auto
  have "sum (cur ?m') (S - {ch}) = sum (cur m') (S - {ch})" by (rule sum.cong) auto
  then have "sum (cur ?m') S = sum (cur m') S - W"
    using sum.remove [OF fin sp(4), of "cur ?m'"] sum.remove [OF fin sp(4), of "cur m'"] by simp
  moreover have "- W < cur ?m' e" if "e \<in> S" for e
    using pos sp(1) inv(2) that weightOf_pos [of b e] by auto
  ultimately have "wrr_inv ?w S ?m'" using sum' by (simp add: wrr_inv_def W)
  then show ?thesis using pick sp(4) vals by auto
qed

text \<open>The picks of \<open>n\<close> calls in a row.\<close>

fun Weighted_picks :: "nat \<Rightarrow> string list \<Rightarrow> WeightedRoundRobinBalancer \<Rightarrow> (goerror + string) list \<times> WeightedRoundRobinBalancer" where
  "Weighted_picks 0 endpoints b = ([], b)"
| "Weighted_picks (Suc n) endpoints b =
     (case Weighted_picks n endpoints b of (ps, b') \<Rightarrow>
        case Weighted_Pick None endpoints b' of (p, b'') \<Rightarrow> (ps @ [p], b''))"

lemma Weighted_picks_inv:
  fixes b :: WeightedRoundRobinBalancer and endpoints :: "string list"
  defines "S \<equiv> set (normalizeEndpoints endpoints)" and "W \<equiv> sum (weightOf b) (set (normalizeEndpoints endpoints))"
  assumes "S \<noteq> {}" "wr_current b = []" "int (card S) * W < 2 ^ 63" "Weighted_picks n endpoints b = (ps, b')"
  shows "length ps = n \<and> set ps \<subseteq> Inr ` S \<and> wr_weights b' = wr_weights b \<and> wrr_inv (weightOf b) S (wr_current b') \<and>
     (\<forall>e \<in> S. cur (wr_current b') e = int n * weightOf b e - W * int (count_list ps (Inr e)))"
  using assms(6)
proof (induction n arbitrary: ps b')
  case 0
  have W: "0 < W"
  proof -
    obtain e where "e \<in> S" using assms(3) by blast
    moreover have "weightOf b e \<le> W" unfolding W_def by (intro member_le_sum) (use \<open>e \<in> S\<close> in \<open>simp_all add: S_def\<close>)
    ultimately show ?thesis using weightOf_pos [of b e] by simp
  qed
  then show ?case using 0 assms(4) by (simp add: wrr_inv_def cur_def W_def S_def)
next
  case (Suc n)
  obtain qs b1 where 1: "Weighted_picks n endpoints b = (qs, b1)" by fastforce
  note IH = Suc.IH [OF 1]
  have w: "weightOf b1 = weightOf b" using IH by (simp add: weightOf_def fun_eq_iff)
  obtain ch b2 where 2: "Weighted_Pick None endpoints b1 = (Inr ch, b2)" "ch \<in> S" "wr_weights b2 = wr_weights b1"
    "\<forall>e \<in> S. cur (wr_current b2) e = cur (wr_current b1) e + weightOf b e - (if e = ch then W else 0)"
    "wrr_inv (weightOf b) S (wr_current b2)"
    using Weighted_Pick_step [of endpoints b1] IH assms(3,5) unfolding w S_def W_def by blast
  have ps: "ps = qs @ [Inr ch]" "b' = b2" using Suc.prems 1 2(1) by auto
  have "cur (wr_current b2) e = int (Suc n) * weightOf b e - W * int (count_list ps (Inr e))" if "e \<in> S" for e
  proof -
    have "cur (wr_current b1) e = int n * weightOf b e - W * int (count_list qs (Inr e))" using IH that by blast
    moreover have "cur (wr_current b2) e = cur (wr_current b1) e + weightOf b e - (if e = ch then W else 0)"
      using 2(4) that by blast
    ultimately show ?thesis by (auto simp: ps(1) algebra_simps)
  qed
  then show ?case using IH 2 ps by auto
qed

lemma sum_count_list: "set ps \<subseteq> A \<Longrightarrow> finite A \<Longrightarrow> (\<Sum>x \<in> A. count_list ps x) = length ps"
proof (induction ps)
  case (Cons a ps)
  have "(\<Sum>x \<in> A. count_list (a # ps) x) = (\<Sum>x \<in> A. count_list ps x + (if a = x then 1 else 0))"
    by (rule sum.cong) auto
  then show ?case using Cons by (simp add: sum.distrib)
qed simp

text \<open>
  C33. Smooth weighted round robin is fair. With unchanged endpoints and weights of total \<open>W\<close> (small enough
  for the counters not to overflow), every call picks a candidate, no candidate is ever ahead of its share
  by a whole pick, and each round of \<open>W\<close> calls picks every candidate exactly as often as its weight says.
\<close>

theorem Weighted_Pick_fair:
  fixes weights :: "(string, int) gomap" and endpoints :: "string list"
  defines "b \<equiv> NewWeightedRoundRobinBalancer weights" and "S \<equiv> set (normalizeEndpoints endpoints)"
  defines "W \<equiv> sum (weightOf b) S"
  assumes "S \<noteq> {}" "int (card S) * W < 2 ^ 63" "Weighted_picks n endpoints b = (ps, b')"
  shows "length ps = n \<and> set ps \<subseteq> Inr ` S \<and>
     (\<forall>e \<in> S. W * int (count_list ps (Inr e)) < int n * weightOf b e + W) \<and>
     (\<forall>k e. int n = int k * W \<longrightarrow> e \<in> S \<longrightarrow> int (count_list ps (Inr e)) = int k * weightOf b e)"
proof -
  have "wr_current b = []" by (simp add: b_def NewWeightedRoundRobinBalancer_def)
  then have R: "length ps = n" "set ps \<subseteq> Inr ` S" "wrr_inv (weightOf b) S (wr_current b')"
    "\<forall>e \<in> S. cur (wr_current b') e = int n * weightOf b e - W * int (count_list ps (Inr e))"
    using Weighted_picks_inv [of endpoints b n ps b'] assms(4-6) unfolding S_def W_def by blast+
  have bound: "W * int (count_list ps (Inr e)) < int n * weightOf b e + W" if "e \<in> S" for e
    using R(3,4) that by (auto simp: wrr_inv_def W_def)
  have exact: "int (count_list ps (Inr e)) = int k * weightOf b e" if n: "int n = int k * W" and e: "e \<in> S" for k e
  proof (rule ccontr)
    have fin: "finite S" by (simp add: S_def)
    have pos: "0 < W"
      unfolding W_def using fin assms(4) weightOf_pos [of b] by (intro sum_pos) (auto intro: less_le_trans [OF zero_less_one])
    have le: "int (count_list ps (Inr x)) \<le> int k * weightOf b x" if "x \<in> S" for x
    proof -
      have "W * int (count_list ps (Inr x)) < W * (int k * weightOf b x + 1)"
        using bound [OF that] n by (simp add: algebra_simps)
      then show ?thesis using pos by (simp add: mult_less_cancel_left)
    qed
    assume "int (count_list ps (Inr e)) \<noteq> int k * weightOf b e"
    then have "(\<Sum>x \<in> S. int (count_list ps (Inr x))) < (\<Sum>x \<in> S. int k * weightOf b x)"
      using le e fin by (intro sum_strict_mono_ex1) (auto intro: le_neq_trans)
    also have "\<dots> = int n" by (simp add: n W_def sum_distrib_left)
    also have "(\<Sum>x \<in> S. int (count_list ps (Inr x))) = int (\<Sum>y \<in> (Inr ` S :: (goerror + string) set). count_list ps y)"
      by (simp add: sum.reindex)
    also have "\<dots> = int n" using sum_count_list [OF R(2)] fin R(1) by simp
    finally show False by simp
  qed
  show ?thesis using R(1,2) bound exact by blast
qed

lemma trim_names: "trim_endpoint ''a'' = ''a''" "trim_endpoint ''b'' = ''b''" "trim_endpoint ''c'' = ''c''"
  by code_simp+

theorem Weighted_Pick_fair_witness:
  "fst (Weighted_picks 3 [''a'', ''b''] (NewWeightedRoundRobinBalancer [(''a'', 2), (''b'', 1)])) = [Inr ''a'', Inr ''b'', Inr ''a''] \<and>
   int (count_list (fst (Weighted_picks 3 [''a'', ''b''] (NewWeightedRoundRobinBalancer [(''a'', 2), (''b'', 1)]))) (Inr ''a'')) = 2"
proof -
  let ?b = "NewWeightedRoundRobinBalancer [(''a'', 2), (''b'', 1)]" and ?E = "[''a'', ''b'']"
  have nrm: "normalizeEndpoints ?E = ?E" by (simp add: normalizeEndpoints_def trim_names)
  have b: "?b = \<lparr>wr_weights = Some [(''a'', 2), (''b'', 1)], wr_current = []\<rparr>"
    by (simp add: NewWeightedRoundRobinBalancer_def normalizeWeights_def trim_names)
  have w: "weightOf ?b ''a'' = 2" "weightOf ?b ''b'' = 1" by (simp_all add: b weightOf_def)
  have small: "wrap64 i = i" if "- 100 \<le> i" "i \<le> 100" for i using that by (intro wrap64_id) (simp add: int64_range_def)
  have "fst (Weighted_picks 3 ?E ?b) = [Inr ''a'', Inr ''b'', Inr ''a'']"
    by (simp add: numeral_3_eq_3 Weighted_Pick_def candidates_None nrm b weightOf_def Let_def cur_def small)
  moreover obtain ps b' where run: "Weighted_picks 3 ?E ?b = (ps, b')" by fastforce
  moreover have "int (count_list ps (Inr ''a'')) = int 1 * weightOf ?b ''a''"
    using Weighted_Pick_fair [OF _ _ run] w by (simp add: nrm)
  ultimately show ?thesis using w by simp
qed

section \<open>Consistent hashing moves no more keys than it must\<close>

lemma search_loop_spec:
  assumes "i \<le> j" "j \<le> n" "\<forall>k < i. \<not> f k" "\<forall>k. j \<le> k \<and> k < n \<longrightarrow> f k" "\<forall>k l. k \<le> l \<and> l < n \<and> f k \<longrightarrow> f l"
  shows "search_loop f i j \<le> n \<and> (\<forall>k < search_loop f i j. \<not> f k) \<and> (\<forall>k. search_loop f i j \<le> k \<and> k < n \<longrightarrow> f k)"
  using assms
proof (induction f i j rule: search_loop.induct)
  case (1 f i j)
  let ?h = "(i + j) div 2"
  show ?case
  proof (cases "i < j")
    case True
    then have h: "i \<le> ?h" "?h < j" by auto
    show ?thesis
    proof (cases "f ?h")
      case True
      have up: "\<forall>k. ?h \<le> k \<and> k < n \<longrightarrow> f k" using 1(7) True by blast
      have "search_loop f i j = search_loop f i ?h" using \<open>i < j\<close> True by (subst search_loop.simps) simp
      then show ?thesis using 1(2) [OF \<open>i < j\<close> refl _ h(1) _ 1(5) up 1(7)] True h 1(4) by simp
    next
      case False
      have down: "\<forall>k < ?h + 1. \<not> f k" using 1(4,7) False h by (metis less_Suc_eq_le Suc_eq_plus1 less_le_trans)
      have "search_loop f i j = search_loop f (?h + 1) j" using \<open>i < j\<close> False by (subst search_loop.simps) simp
      then show ?thesis using 1(1) [OF \<open>i < j\<close> refl False _ 1(4) down 1(6,7)] h by simp
    qed
  next
    case False
    then have "search_loop f i j = i" by (subst search_loop.simps) simp
    then show ?thesis using False 1(3-6) by auto
  qed
qed

text \<open>The point of a ring that serves a hash: the least one not below it, and the least of all if there is none.\<close>

definition serving_point :: "32 word set \<Rightarrow> 32 word \<Rightarrow> 32 word" where
  "serving_point H h = (if \<exists>x \<in> H. h \<le> x then Min {x \<in> H. h \<le> x} else Min H)"

lemma serving_point_in: "finite H \<Longrightarrow> H \<noteq> {} \<Longrightarrow> serving_point H h \<in> H"
proof -
  assume *: "finite H" "H \<noteq> {}"
  have "Min {x \<in> H. h \<le> x} \<in> {x \<in> H. h \<le> x}" if "\<exists>x \<in> H. h \<le> x" using that * by (intro Min_in) auto
  then show ?thesis using Min_in [OF *] by (auto simp: serving_point_def)
qed

lemma serving_point_subset:
  assumes "finite H" "H' \<subseteq> H" "serving_point H h \<in> H'"
  shows "serving_point H' h = serving_point H h"
proof -
  have fin: "finite H'" using assms(1,2) by (rule rev_finite_subset)
  show ?thesis
  proof (cases "\<exists>x \<in> H. h \<le> x")
    case True
    then have "serving_point H h \<in> {x \<in> H. h \<le> x}"
      unfolding serving_point_def using assms(1) by (simp only: if_True) (intro Min_in; auto)
    then have ex: "\<exists>x \<in> H'. h \<le> x" using assms(3) by blast
    have "Min {x \<in> H'. h \<le> x} = serving_point H h"
      using True assms fin \<open>serving_point H h \<in> {x \<in> H. h \<le> x}\<close> by (intro Min_eqI) (auto simp: serving_point_def)
    then show ?thesis using ex by (simp add: serving_point_def)
  next
    case False
    then have "\<not> (\<exists>x \<in> H'. h \<le> x)" using assms(2) by blast
    moreover have "Min H' = Min H" using False assms fin by (intro Min_eqI) (auto simp: serving_point_def)
    ultimately show ?thesis using False by (simp add: serving_point_def)
  qed
qed

lemma ring_index:
  fixes ring :: "32 word list" and h :: "32 word"
  assumes "sorted ring" "ring \<noteq> []"
  defines "idx \<equiv> sort_Search (length ring) (\<lambda>i. ring ! i \<ge> h)"
  shows "ring ! (if idx = length ring then 0 else idx) = serving_point (set ring) h"
proof -
  have mono: "\<forall>k l. k \<le> l \<and> l < length ring \<and> h \<le> ring ! k \<longrightarrow> h \<le> ring ! l"
  proof (intro allI impI, elim conjE)
    fix k l assume "k \<le> l" "l < length ring" "h \<le> ring ! k"
    then show "h \<le> ring ! l" using sorted_nth_mono [OF assms(1), of k l] by simp
  qed
  have "idx \<le> length ring \<and> (\<forall>k < idx. \<not> h \<le> ring ! k) \<and> (\<forall>k. idx \<le> k \<and> k < length ring \<longrightarrow> h \<le> ring ! k)"
    unfolding idx_def sort_Search_def by (rule search_loop_spec [OF le0 order_refl _ _ mono]) auto
  then have idx: "idx \<le> length ring" "\<forall>k < idx. \<not> h \<le> ring ! k" "\<forall>k. idx \<le> k \<and> k < length ring \<longrightarrow> h \<le> ring ! k"
    by blast+
  have low: "ring ! 0 \<le> x" if x: "x \<in> set ring" for x
  proof -
    obtain k where "k < length ring" "x = ring ! k" using x by (auto simp: in_set_conv_nth)
    then show ?thesis using sorted_nth_mono [OF assms(1), of 0 k] by simp
  qed
  show ?thesis
  proof (cases "idx = length ring")
    case True
    then have "\<not> (\<exists>x \<in> set ring. h \<le> x)" using idx(2) by (auto simp: in_set_conv_nth)
    moreover have "Min (set ring) = ring ! 0" by (rule Min_eqI) (use low assms(2) in simp_all)
    ultimately show ?thesis using True by (simp add: serving_point_def)
  next
    case False
    then have lt: "idx < length ring" using idx(1) by simp
    have "ring ! idx \<le> x" if "x \<in> set ring" "h \<le> x" for x
    proof -
      obtain k where k: "k < length ring" "x = ring ! k" using \<open>x \<in> set ring\<close> by (auto simp: in_set_conv_nth)
      then have "idx \<le> k" using idx(2) that(2) not_less by blast
      then show ?thesis using sorted_nth_mono [OF assms(1)] k by blast
    qed
    then have "Min {x \<in> set ring. h \<le> x} = ring ! idx" by (intro Min_eqI) (use lt idx(3) in simp_all)
    moreover have "\<exists>x \<in> set ring. h \<le> x" using lt idx(3) nth_mem by blast
    ultimately show ?thesis using False by (simp add: serving_point_def)
  qed
qed

definition ring_points :: "int \<Rightarrow> string list \<Rightarrow> (32 word \<times> string) list" where
  "ring_points replicas es = concat (map (\<lambda>e. map (\<lambda>h. (h, e)) (replica_hashes replicas e)) es)"

lemma m_get_fold_put: "m_get (fold (\<lambda>(h, e). m_put h e) ps m) k = (m_get m ++ map_of (rev ps)) k"
proof (induction ps arbitrary: m)
  case (Cons p ps)
  obtain h e where "p = (h, e)" by fastforce
  then show ?case by (auto simp: Cons.IH map_add_def split: option.split)
qed simp

lemma map_of_filter: "map_of xs h = Some e \<Longrightarrow> P (h, e) \<Longrightarrow> map_of (filter P xs) h = Some e"
  by (induction xs) (auto split: if_splits)

text \<open>The endpoint that serves a key among the candidates \<open>es\<close>.\<close>

definition ring_choice :: "int \<Rightarrow> string \<Rightarrow> string list \<Rightarrow> string" where
  "ring_choice replicas key es =
     the (map_of (rev (ring_points replicas es)) (serving_point (fst ` set (ring_points replicas es)) (hashString key)))"

lemma ring_points_ne: "0 < replicas \<Longrightarrow> es \<noteq> [] \<Longrightarrow> ring_points replicas es \<noteq> []"
  by (cases es) (auto simp: ring_points_def replica_hashes_def)

lemma ring_lookup_choice:
  assumes "0 < replicas" "es \<noteq> []" "build_ring replicas es = (ring, nodes)"
  shows "ring \<noteq> [] \<and> ring_lookup ring nodes key = ring_choice replicas key es"
proof -
  let ?P = "ring_points replicas es"
  have ring: "ring = sort (map fst ?P)" and nodes: "nodes = fold (\<lambda>(h, e). m_put h e) ?P []"
    using assms(3) by (simp_all add: build_ring_def ring_points_def Let_def)
  have set: "set ring = fst ` set ?P" by (simp add: ring)
  then have ne: "ring \<noteq> []" using ring_points_ne [OF assms(1,2)] by (metis image_is_empty set_empty)
  let ?p = "serving_point (fst ` set ?P) (hashString key)"
  have "?p \<in> fst ` set ?P" using serving_point_in [of "fst ` set ?P"] ring_points_ne [OF assms(1,2)] by simp
  then obtain e where e: "map_of (rev ?P) ?p = Some e" by (metis domD dom_map_of_conv_image_fst set_rev)
  then have "m_get nodes ?p = Some e" by (simp add: nodes m_get_fold_put map_add_def)
  moreover have "sorted ring" by (simp add: ring)
  ultimately show ?thesis
    using ne e ring_index [OF _ ne, of "hashString key"] by (simp add: ring_lookup_def ring_choice_def Let_def set)
qed

lemma ring_choice_in:
  assumes "0 < replicas" "es \<noteq> []"
  shows "map_of (rev (ring_points replicas es)) (serving_point (fst ` set (ring_points replicas es)) (hashString key)) =
      Some (ring_choice replicas key es) \<and> ring_choice replicas key es \<in> set es"
proof -
  let ?P = "ring_points replicas es" and ?p = "serving_point (fst ` set (ring_points replicas es)) (hashString key)"
  have "?p \<in> fst ` set ?P" using serving_point_in [of "fst ` set ?P"] ring_points_ne [OF assms] by simp
  then obtain e where e: "map_of (rev ?P) ?p = Some e" by (metis domD dom_map_of_conv_image_fst set_rev)
  then have "(?p, e) \<in> set ?P" using map_of_SomeD by fastforce
  then have "e \<in> set es" by (auto simp: ring_points_def)
  then show ?thesis using e by (simp add: ring_choice_def)
qed

lemma ring_points_filter: "ring_points r (filter P es) = filter (\<lambda>(h, e). P e) (ring_points r es)"
  by (induction es) (auto simp: ring_points_def filter_map comp_def)

lemma subseq_set: "subseq xs ys \<Longrightarrow> set xs \<subseteq> set ys"
  by (induction rule: list_emb.induct) auto

lemma subseq_distinct_filter: "subseq xs ys \<Longrightarrow> distinct ys \<Longrightarrow> filter (\<lambda>x. x \<in> set xs) ys = xs"
proof (induction rule: list_emb.induct)
  case (list_emb_Cons xs ys y)
  then have "y \<notin> set xs" using subseq_set by fastforce
  then show ?case using list_emb_Cons by simp
next
  case (list_emb_Cons2 x y xs ys)
  then have "filter (\<lambda>z. z \<in> set (x # xs)) ys = filter (\<lambda>z. z \<in> set xs) ys" by (intro filter_cong) auto
  then show ?case using list_emb_Cons2 by simp
qed simp

lemma ring_choice_monotone:
  assumes "0 < replicas" "distinct es" "subseq es' es" "ring_choice replicas key es \<in> set es'"
  shows "ring_choice replicas key es' = ring_choice replicas key es"
proof -
  let ?e = "ring_choice replicas key es"
  let ?P = "ring_points replicas es" and ?P' = "ring_points replicas es'"
  let ?p = "serving_point (fst ` set ?P) (hashString key)"
  have ne: "es \<noteq> []" using subseq_set [OF assms(3)] assms(4) by auto
  have P': "?P' = filter (\<lambda>(h, e). e \<in> set es') ?P"
    using ring_points_filter [of replicas "\<lambda>e. e \<in> set es'" es] subseq_distinct_filter [OF assms(3,2)] by simp
  have e: "map_of (rev ?P) ?p = Some ?e" using ring_choice_in [OF assms(1) ne] by blast
  then have e': "map_of (rev ?P') ?p = Some ?e"
    using map_of_filter [OF e, of "\<lambda>(h, e). e \<in> set es'"] assms(4) by (simp add: P' rev_filter)
  then have "?p \<in> fst ` set ?P'" by (metis domI dom_map_of_conv_image_fst set_rev)
  then have "serving_point (fst ` set ?P') (hashString key) = ?p"
    by (intro serving_point_subset) (auto simp: P')
  then show ?thesis using e' by (simp add: ring_choice_def [of replicas key es'])
qed

text \<open>The signature of the cached ring identifies the candidates, as long as they contain no NUL byte.\<close>

definition nul_free :: "string list \<Rightarrow> bool" where
  "nul_free es \<longleftrightarrow> list_all (\<lambda>e. CHR 0x00 \<notin> set e) es"

lemma Join_Cons: "strings_Join (x # xs) [c] = x @ concat (map (\<lambda>y. c # y) xs)"
proof -
  have "(@) [c] = (#) c" by (simp add: fun_eq_iff)
  then show ?thesis by (simp add: strings_Join_def)
qed

lemma Join_inj_aux:
  assumes "x @ concat (map (\<lambda>y. c # y) xs) = y @ concat (map (\<lambda>y. c # y) ys)" "c \<notin> set x" "c \<notin> set y"
    and "\<forall>z \<in> set xs \<union> set ys. c \<notin> set z"
  shows "x = y \<and> xs = ys"
  using assms
proof (induction xs arbitrary: x y ys)
  case Nil
  then show ?case by (cases ys) auto
next
  case (Cons x' xs)
  have "c \<in> set (y @ concat (map (\<lambda>y. c # y) ys))"
    unfolding Cons.prems(1) [symmetric] by simp
  then have "ys \<noteq> []" using Cons.prems(3) by auto
  then obtain y' ys' where ys: "ys = y' # ys'" by (cases ys) blast+
  let ?a = "x' @ concat (map (\<lambda>y. c # y) xs)" and ?b = "y' @ concat (map (\<lambda>y. c # y) ys')"
  have eq: "x @ c # ?a = y @ c # ?b" using Cons.prems(1) ys by simp
  have "x = takeWhile (\<lambda>d. d \<noteq> c) (x @ c # ?a)" using Cons.prems(2) by (subst takeWhile_append2) auto
  also have "\<dots> = y" unfolding eq using Cons.prems(3) by (subst takeWhile_append2) auto
  finally have xy: "x = y" .
  then have "?a = ?b" using eq by simp
  then have "x' = y' \<and> xs = ys'" by (rule Cons.IH) (use Cons.prems(4) ys in auto)
  then show ?case using xy ys by simp
qed

lemma Join_inj:
  assumes "strings_Join xs [c] = strings_Join ys [c]" "xs \<noteq> []" "ys \<noteq> []" "\<forall>x \<in> set xs \<union> set ys. c \<notin> set x"
  shows "xs = ys"
proof -
  obtain x xs' y ys' where xy: "xs = x # xs'" "ys = y # ys'" using assms(2,3) by (meson neq_Nil_conv)
  then have "x @ concat (map (\<lambda>y. c # y) xs') = y @ concat (map (\<lambda>y. c # y) ys')" using assms(1) by (simp only: Join_Cons)
  from Join_inj_aux [OF this] show ?thesis using assms(4) xy by simp
qed

definition ch_inv :: "int \<Rightarrow> ConsistentHashBalancer \<Rightarrow> bool" where
  "ch_inv replicas b \<longleftrightarrow> ch_replicas b = replicas \<and> (ch_ring b \<noteq> [] \<longrightarrow>
     (\<exists>es. es \<noteq> [] \<and> nul_free es \<and> ch_ringSignature b = strings_Join es [CHR 0x00] \<and>
        build_ring replicas es = (ch_ring b, ch_nodes b)))"

lemma ringFor_spec:
  assumes "ch_inv replicas b" "es \<noteq> []" "nul_free es" "ringFor es b = (rn, b')"
  shows "rn = build_ring replicas es \<and> ch_inv replicas b' \<and> ch_fixedKey b' = ch_fixedKey b"
proof (cases "ch_ringSignature b = strings_Join es [CHR 0x00] \<and> ch_ring b \<noteq> []")
  case True
  then obtain es' where es': "es' \<noteq> []" "nul_free es'" "ch_ringSignature b = strings_Join es' [CHR 0x00]"
    "build_ring replicas es' = (ch_ring b, ch_nodes b)"
    using assms(1) by (auto simp: ch_inv_def)
  have "es' = es"
    by (rule Join_inj [of _ "CHR 0x00"]) (use True es' assms(2,3) in \<open>auto simp: nul_free_def list_all_iff\<close>)
  moreover have "rn = (ch_ring b, ch_nodes b)" "b' = b" using True assms(4) by (auto simp: ringFor_def)
  ultimately show ?thesis using assms(1) es'(4) by simp
next
  case False
  obtain ring nodes where rn: "build_ring replicas es = (ring, nodes)" by fastforce
  have "ch_replicas b = replicas" using assms(1) by (simp add: ch_inv_def)
  then have b': "rn = (ring, nodes)" "b' = b\<lparr>ch_ringSignature := strings_Join es [CHR 0x00], ch_ring := ring, ch_nodes := nodes\<rparr>"
    using assms(4) rn unfolding ringFor_def Let_def if_not_P [OF False] by auto
  have "ch_inv replicas b'"
    unfolding ch_inv_def using b'(2) rn assms(2,3) \<open>ch_replicas b = replicas\<close> by (intro conjI impI exI [of _ es]) simp_all
  then show ?thesis using b' rn by simp
qed

lemma ConsistentHash_Pick_spec:
  assumes "ch_inv replicas b" "0 < replicas" "nul_free (normalizeEndpoints es)" "ConsistentHash_Pick ctx key es b = (r, b')"
  shows "ch_inv replicas b' \<and> ch_fixedKey b' = ch_fixedKey b \<and>
     (ctx = None \<and> normalizeEndpoints es \<noteq> [] \<and> ch_hashKey key b \<noteq> '''' \<longrightarrow>
        r = Inr (ring_choice replicas (ch_hashKey key b) (normalizeEndpoints es)))"
proof (cases rule: candidates_cases [of ctx es])
  case (Err err)
  then show ?thesis using assms by (auto simp: ConsistentHash_Pick_def candidates_or_error_def Let_def split: option.splits if_splits)
next
  case Ok
  show ?thesis
  proof (cases "ch_hashKey key b = ''''")
    case True
    then show ?thesis using assms Ok by (auto simp: ConsistentHash_Pick_def ch_inv_def split: prod.splits)
  next
    case False
    obtain ring nodes b1 where rf: "ringFor (normalizeEndpoints es) b = ((ring, nodes), b1)" by (metis prod.exhaust)
    note R = ringFor_spec [OF assms(1) Ok(3) assms(3) rf]
    then have "build_ring replicas (normalizeEndpoints es) = (ring, nodes)" by simp
    note L = ring_lookup_choice [OF assms(2) Ok(3) this]
    have "r = Inr (ring_lookup ring nodes (ch_hashKey key b)) \<and> b' = b1"
      using False Ok(2) assms(4) rf L by (simp add: ConsistentHash_Pick_def Let_def)
    then show ?thesis using R L by simp
  qed
qed

text \<open>A history of picks on one balancer.\<close>

fun ch_run :: "(goerror option \<times> string \<times> string list) list \<Rightarrow> ConsistentHashBalancer \<Rightarrow> ConsistentHashBalancer" where
  "ch_run [] b = b"
| "ch_run ((ctx, key, es) # reqs) b = ch_run reqs (snd (ConsistentHash_Pick ctx key es b))"

definition reqs_nul_free :: "(goerror option \<times> string \<times> string list) list \<Rightarrow> bool" where
  "reqs_nul_free = list_all (\<lambda>(ctx, key, es). nul_free (normalizeEndpoints es))"

lemma ch_run_inv:
  "ch_inv replicas b \<Longrightarrow> 0 < replicas \<Longrightarrow> reqs_nul_free reqs \<Longrightarrow>
     ch_inv replicas (ch_run reqs b) \<and> ch_fixedKey (ch_run reqs b) = ch_fixedKey b"
proof (induction reqs b rule: ch_run.induct)
  case (2 ctx key es reqs b)
  obtain r b' where p: "ConsistentHash_Pick ctx key es b = (r, b')" by fastforce
  have "ch_inv replicas b' \<and> ch_fixedKey b' = ch_fixedKey b"
    using ConsistentHash_Pick_spec [OF 2(2,3) _ p] 2(4) by (simp add: reqs_nul_free_def)
  then show ?case using 2(1,3,4) p by (simp add: reqs_nul_free_def)
qed simp

lemma ch_New: "0 < ch_replicas (NewConsistentHashBalancer opts)"
  "ch_inv (ch_replicas (NewConsistentHashBalancer opts)) (NewConsistentHashBalancer opts)"
proof -
  have "ch_ring (fold apply_ConsistentHashOption opts b) = ch_ring b" for b
  proof (induction opts arbitrary: b)
    case (Cons a opts)
    then show ?case by (cases a) auto
  qed simp
  then show "0 < ch_replicas (NewConsistentHashBalancer opts)"
    "ch_inv (ch_replicas (NewConsistentHashBalancer opts)) (NewConsistentHashBalancer opts)"
    by (simp_all add: NewConsistentHashBalancer_def ch_inv_def Let_def)
qed

text \<open>
  C34. Consistent hashing moves no key that it need not move. If a key is served by the endpoint \<open>e\<close>, it
  is still served by \<open>e\<close> when any other endpoints leave, and conversely an endpoint that joins only takes
  keys over for itself; this holds with hash collisions between endpoints, and whatever picks the
  balancer, or another one with the same options, has served before. The chosen endpoint is a candidate.
\<close>

theorem ConsistentHash_minimal_movement:
  fixes opts :: "ConsistentHashOption list"
  defines "b0 \<equiv> NewConsistentHashBalancer opts"
  assumes "reqs_nul_free reqs" "reqs_nul_free reqs'" "nul_free (normalizeEndpoints es)" "ch_hashKey key b0 \<noteq> ''''"
    and "ConsistentHash_Pick None key es (ch_run reqs b0) = (Inr e, b1)"
    and "subseq (normalizeEndpoints es') (normalizeEndpoints es)" "e \<in> set (normalizeEndpoints es')"
  shows "e \<in> set (normalizeEndpoints es) \<and> fst (ConsistentHash_Pick None key es' (ch_run reqs' b0)) = Inr e"
proof -
  let ?r = "ch_replicas b0" and ?k = "ch_hashKey key b0"
  have r: "0 < ?r" "ch_inv ?r b0" using ch_New [of opts] by (simp_all add: b0_def)
  have sub: "set (normalizeEndpoints es') \<subseteq> set (normalizeEndpoints es)" by (rule subseq_set [OF assms(7)])
  then have ne: "normalizeEndpoints es \<noteq> []" "normalizeEndpoints es' \<noteq> []" using assms(8) by auto
  have key: "ch_hashKey key (ch_run rs b0) = ?k" if "reqs_nul_free rs" for rs
    using ch_run_inv [OF r(2,1) that] by (simp add: ch_hashKey_def)
  have e: "e = ring_choice ?r ?k (normalizeEndpoints es)"
    using ConsistentHash_Pick_spec [OF _ r(1) assms(4,6)] ch_run_inv [OF r(2,1) assms(2)] key [OF assms(2)] ne assms(5) by simp
  obtain res b2 where 2: "ConsistentHash_Pick None key es' (ch_run reqs' b0) = (res, b2)" by fastforce
  have "nul_free (normalizeEndpoints es')" using sub assms(4) by (auto simp: nul_free_def list_all_iff)
  then have "res = Inr (ring_choice ?r ?k (normalizeEndpoints es'))"
    using ConsistentHash_Pick_spec [OF _ r(1) _ 2] ch_run_inv [OF r(2,1) assms(3)] key [OF assms(3)] ne assms(5) by simp
  also have "ring_choice ?r ?k (normalizeEndpoints es') = e"
    unfolding e by (rule ring_choice_monotone [OF r(1) normalize_props(1) assms(7)]) (use e assms(8) in simp)
  finally show ?thesis using 2 sub assms(8) by auto
qed

section \<open>Health-aware picking\<close>

definition ejected :: "time \<Rightarrow> HealthBalancer \<Rightarrow> string \<Rightarrow> bool" where
  "ejected now b e = (case m_get (hb_endpoints b) e of None \<Rightarrow> False
     | Some st \<Rightarrow> eh_ejectedAt st \<noteq> 0 \<and> \<not> time_Sub now (eh_ejectedAt st) \<ge> hb_ejectionDuration b)"

lemma ejected_put_other:
  "x \<noteq> e \<Longrightarrow> ejected now (b\<lparr>hb_endpoints := m_put e st (hb_endpoints b)\<rparr>) x = ejected now b x"
  by (auto simp: ejected_def split: option.split)

lemma healthyEndpoints_filter:
  "distinct es \<Longrightarrow> fst (healthyEndpoints es now b) = filter (\<lambda>e. \<not> ejected now b e) es"
proof (induction es now b rule: healthyEndpoints.induct)
  case (2 e rest now b)
  let ?b = "b\<lparr>hb_endpoints := m_put e \<lparr>eh_failures = 0, eh_ejectedAt = 0\<rparr> (hb_endpoints b)\<rparr>"
  have other: "filter (\<lambda>x. \<not> ejected now ?b x) rest = filter (\<lambda>x. \<not> ejected now b x) rest"
  proof (intro filter_cong refl)
    fix x assume "x \<in> set rest"
    then have "x \<noteq> e" using "2.prems" by auto
    then have "ejected now ?b x = ejected now b x" by (rule ejected_put_other)
    then show "(\<not> ejected now ?b x) = (\<not> ejected now b x)" by simp
  qed
  show ?case
  proof (cases "m_get (hb_endpoints b) e")
    case None
    then show ?thesis using 2 by (simp add: ejected_def [of now b e] split_beta)
  next
    case (Some st)
    then show ?thesis using 2 other by (auto simp: ejected_def [of now b e] split_beta)
  qed
qed simp

lemma healthyEndpoints_next:
  "hb_next (snd (healthyEndpoints es now b)) = hb_next b \<and> hb_failureThreshold (snd (healthyEndpoints es now b)) = hb_failureThreshold b"
  by (induction es now b rule: healthyEndpoints.induct) (auto simp: split_beta split: option.split)

lemma Health_Pick_spec:
  assumes "normalizeEndpoints es \<noteq> []"
  shows "\<exists>e b'. Health_Pick None es now b = (Inr e, b') \<and> e \<in> set (normalizeEndpoints es) \<and>
     ((\<exists>c \<in> set (normalizeEndpoints es). \<not> ejected now b c) \<longrightarrow> \<not> ejected now b e)"
proof -
  obtain h b' where hb: "healthyEndpoints (normalizeEndpoints es) now b = (h, b')" by fastforce
  then have h: "h = filter (\<lambda>e. \<not> ejected now b e) (normalizeEndpoints es)"
    using healthyEndpoints_filter [OF normalize_props(1), of es now b] by simp
  let ?h = "if h = [] then normalizeEndpoints es else h"
  have "at_counter ?h (hb_next b') \<in> set ?h" using assms by (intro at_counter_in) simp
  moreover have "set ?h \<subseteq> set (normalizeEndpoints es)" "(\<exists>c \<in> set (normalizeEndpoints es). \<not> ejected now b c) \<longrightarrow> (\<forall>e \<in> set ?h. \<not> ejected now b e)"
    by (auto simp: h filter_empty_conv)
  moreover have "Health_Pick None es now b = (Inr (at_counter ?h (hb_next b')), b'\<lparr>hb_next := hb_next b' + 1\<rparr>)"
    using hb by (simp add: Health_Pick_def candidates_None [OF assms] Let_def)
  ultimately show ?thesis by blast
qed

definition failures_of :: "HealthBalancer \<Rightarrow> string \<Rightarrow> int" where
  "failures_of b e = (case m_get (hb_endpoints b) e of None \<Rightarrow> 0 | Some st \<Rightarrow> eh_failures st)"

lemma Health_Report_retryable:
  assumes "trim_endpoint e = e" "e \<noteq> ''''" "Retryable FE err"
  shows "failures_of (Health_Report FE None e err t b) e = failures_of b e + 1"
    and "hb_failureThreshold (Health_Report FE None e err t b) = hb_failureThreshold b"
    and "hb_ejectionDuration (Health_Report FE None e err t b) = hb_ejectionDuration b"
    and "hb_failureThreshold b \<le> failures_of b e + 1 \<Longrightarrow>
      \<exists>st. m_get (hb_endpoints (Health_Report FE None e err t b)) e = Some st \<and> eh_ejectedAt st = t"
    and "x \<noteq> e \<Longrightarrow> m_get (hb_endpoints (Health_Report FE None e err t b)) x = m_get (hb_endpoints b) x"
  using assms by (auto simp: Health_Report_def failures_of_def Let_def split: option.splits)

lemma Health_Report_other:
  "x \<noteq> trim_endpoint e \<Longrightarrow> m_get (hb_endpoints (Health_Report FE ctx e err t b)) x = m_get (hb_endpoints b) x"
  by (auto simp: Health_Report_def Let_def)

lemma failing_run:
  fixes e :: string and err :: "goerror option" and FE :: "goerror \<Rightarrow> (codes_Code \<times> string) option"
  defines "run \<equiv> \<lambda>ts b. fold (\<lambda>t. Health_Report FE None e err t) ts b"
  assumes "trim_endpoint e = e" "e \<noteq> ''''" "Retryable FE err"
  shows "failures_of (run ts b) e = failures_of b e + int (length ts) \<and> hb_failureThreshold (run ts b) = hb_failureThreshold b \<and>
     hb_ejectionDuration (run ts b) = hb_ejectionDuration b \<and>
     (\<forall>x. x \<noteq> e \<longrightarrow> m_get (hb_endpoints (run ts b)) x = m_get (hb_endpoints b) x)"
  unfolding run_def
  by (induction ts arbitrary: b) (simp_all add: Health_Report_retryable [OF assms(2-4)])

text \<open>
  The health balancer ejects a failing endpoint. After at least \<^verbatim>\<open>failureThreshold\<close> retryable failures
  in a row, the last at \<open>t0\<close>, no pick within \<^verbatim>\<open>ejectionDuration\<close> of \<open>t0\<close> returns the endpoint as long as some
  other candidate is not ejected; once that time has passed it is a candidate again. A pick never fails
  because endpoints are ejected: when all are, it falls back to all candidates.
\<close>

theorem HealthBalancer_ejects:
  assumes "trim_endpoint e = e" "e \<noteq> ''''" "Retryable FE err" "0 \<le> failures_of b e"
    and "hb_failureThreshold b \<le> int (length ts) + 1" "t0 \<noteq> 0"
    and "b' = Health_Report FE None e err t0 (fold (\<lambda>t. Health_Report FE None e err t) ts b)"
    and "normalizeEndpoints es \<noteq> []"
  shows "(\<exists>x. fst (Health_Pick None es now b') = Inr x \<and> x \<in> set (normalizeEndpoints es) \<and>
        (time_Sub now t0 < hb_ejectionDuration b \<and> (\<exists>c \<in> set (normalizeEndpoints es). c \<noteq> e \<and> \<not> ejected now b c) \<longrightarrow> x \<noteq> e)) \<and>
     (hb_ejectionDuration b \<le> time_Sub now t0 \<longrightarrow> e \<in> set (normalizeEndpoints es) \<longrightarrow>
        e \<in> set (fst (healthyEndpoints (normalizeEndpoints es) now b')))"
proof -
  let ?b1 = "fold (\<lambda>t. Health_Report FE None e err t) ts b"
  note R = failing_run [OF assms(1-3), of ts b] and S = Health_Report_retryable [OF assms(1-3), where t = t0 and b = ?b1]
  obtain st where st: "m_get (hb_endpoints b') e = Some st" "eh_ejectedAt st = t0"
    using S(4) R assms(4,5) unfolding assms(7) by auto
  have dur: "hb_ejectionDuration b' = hb_ejectionDuration b" using S(3) R by (simp add: assms(7))
  have ej: "ejected now b' e \<longleftrightarrow> time_Sub now t0 < hb_ejectionDuration b"
    using st assms(6) dur by (simp add: ejected_def not_le)
  have other: "ejected now b' x = ejected now b x" if "x \<noteq> e" for x
    using S(5) [OF that] R that dur by (auto simp: ejected_def assms(7) split: option.split)
  obtain x b2 where x: "Health_Pick None es now b' = (Inr x, b2)" "x \<in> set (normalizeEndpoints es)"
    "(\<exists>c \<in> set (normalizeEndpoints es). \<not> ejected now b' c) \<longrightarrow> \<not> ejected now b' x"
    using Health_Pick_spec [OF assms(8)] by blast
  have "x \<noteq> e" if "time_Sub now t0 < hb_ejectionDuration b" "\<exists>c \<in> set (normalizeEndpoints es). c \<noteq> e \<and> \<not> ejected now b c"
    using x(3) that ej other by metis
  moreover have "e \<in> set (fst (healthyEndpoints (normalizeEndpoints es) now b'))"
    if "hb_ejectionDuration b \<le> time_Sub now t0" "e \<in> set (normalizeEndpoints es)"
    using that ej by (simp add: healthyEndpoints_filter [OF normalize_props(1)])
  ultimately show ?thesis using x(1,2) by auto
qed

theorem ConsistentHash_minimal_movement_witness:
  "let b = NewConsistentHashBalancer [WithConsistentHashReplicas 1]
   in fst (ConsistentHash_Pick None ''k'' [''a'', ''b'', ''c''] b) = Inr ''a'' \<and>
      fst (ConsistentHash_Pick None ''k'' [''a'', ''c''] (ch_run [(None, ''x'', [''b'', ''c''])] b)) = Inr ''a''"
proof -
  let ?b = "NewConsistentHashBalancer [WithConsistentHashReplicas 1]"
  have b: "?b = \<lparr>ch_replicas = 1, ch_ring = [], ch_nodes = [], ch_fixedKey = '''', ch_ringSignature = '''', ch_next = \<lparr>rr_next = 0\<rparr>\<rparr>"
    by (simp add: NewConsistentHashBalancer_def)
  have h: "hashString ''a#0'' = 4037809751" "hashString ''b#0'' = 559601318" "hashString ''c#0'' = 923663145" "hashString ''k'' = 3993778410"
    by (code_simp)+
  have n: "normalizeEndpoints [''a'', ''b'', ''c''] = [''a'', ''b'', ''c'']" "normalizeEndpoints [''a'', ''c''] = [''a'', ''c'']"
    "normalizeEndpoints [''b'', ''c''] = [''b'', ''c'']"
    by (simp_all add: normalizeEndpoints_def trim_names)
  have itoa: "strconv_Itoa 0 = ''0''" by code_simp
  have ring: "build_ring 1 [''a'', ''b'', ''c''] =
     ([559601318, 923663145, 4037809751], [(4037809751, ''a''), (559601318, ''b''), (923663145, ''c'')])"
    by (simp add: build_ring_def replica_hashes_def itoa h)
  have pick: "ConsistentHash_Pick None ''k'' [''a'', ''b'', ''c''] ?b =
     (Inr ''a'', snd (ConsistentHash_Pick None ''k'' [''a'', ''b'', ''c''] ?b))"
    by (simp add: ConsistentHash_Pick_def candidates_None n b ch_hashKey_def ringFor_def ring ring_lookup_def h
          sort_Search_def search_loop.simps)
  have "fst (ConsistentHash_Pick None ''k'' [''a'', ''c''] (ch_run [(None, ''x'', [''b'', ''c''])] ?b)) = Inr ''a''"
    using ConsistentHash_minimal_movement [where opts = "[WithConsistentHashReplicas 1]" and reqs = "[]"
        and reqs' = "[(None, ''x'', [''b'', ''c''])]" and key = "''k''" and es = "[''a'', ''b'', ''c'']" and es' = "[''a'', ''c'']"]
      pick by (simp add: reqs_nul_free_def nul_free_def n ch_hashKey_def)
  then show ?thesis using pick by (simp add: Let_def) (metis fst_conv)
qed

theorem HealthBalancer_ejects_witness:
  "let FE = (\<lambda>e. None); err = Some (Coded ''unavailable'' ''down'' None); b = NewHealthBalancer [];
       b' = Health_Report FE None ''a'' err 7 (Health_Report FE None ''a'' err 5 b)
   in \<exists>x. fst (Health_Pick None [''a'', ''b''] 8 b') = Inr x \<and> x \<in> {''a'', ''b''} \<and> x \<noteq> ''a''"
proof -
  let ?FE = "\<lambda>e :: goerror. None :: (codes_Code \<times> string) option" and ?err = "Some (Coded ''unavailable'' ''down'' None)"
  let ?b = "NewHealthBalancer []"
  have n: "normalizeEndpoints [''a'', ''b''] = [''a'', ''b'']" by (simp add: normalizeEndpoints_def trim_names)
  have "Retryable ?FE ?err" by (simp add: Retryable_def CodeOf_def ctx_Canceled_def ctx_DeadlineExceeded_def code_defs)
  then show ?thesis
    using HealthBalancer_ejects [of "''a''" ?FE ?err ?b "[5]" 7 _ "[''a'', ''b'']" 8]
    by (auto simp: n trim_names NewHealthBalancer_def failures_of_def ejected_def time_Sub_def minDuration_def maxDuration_def Let_def)
qed

section \<open>Power of two choices\<close>

definition active_wf :: "P2CBalancer \<Rightarrow> bool" where
  "active_wf b \<longleftrightarrow> (\<forall>e n. m_get (p2_active b) e = Some n \<longrightarrow> 0 < n)"

lemma markActive_spec:
  assumes "active_wf b" "e \<noteq> ''''"
  shows "active_wf (markActive e d b)" "cur (p2_active (markActive e d b)) x = (if x = e then max 0 (cur (p2_active b) e + d) else cur (p2_active b) x)"
  using assms by (auto simp: markActive_def active_wf_def Let_def cur_def split: if_splits)

lemma P2C_Pick_spec:
  assumes "active_wf b" "P2C_Pick ctx es b = (r, b')"
  shows "case r of
       Inl err \<Rightarrow> b' = b
     | Inr e \<Rightarrow> e \<in> set (normalizeEndpoints es) \<and> active_wf b' \<and>
         (\<forall>x. cur (p2_active b') x = cur (p2_active b) x + (if x = e then 1 else 0)) \<and>
         (2 \<le> length (normalizeEndpoints es) \<longrightarrow>
            (\<exists>c \<in> set (normalizeEndpoints es). c \<noteq> e \<and> cur (p2_active b) e \<le> cur (p2_active b) c))"
proof (cases rule: candidates_cases [of ctx es])
  case (Err err)
  then show ?thesis using assms(2) by (auto simp: P2C_Pick_def)
next
  case Ok
  let ?C = "normalizeEndpoints es"
  have nonneg: "0 \<le> cur (p2_active b) x" for x using assms(1) by (auto simp: active_wf_def cur_def intro: less_imp_le split: option.split)
  have mark: "active_wf (markActive e 1 b1)" "cur (p2_active (markActive e 1 b1)) x = cur (p2_active b) x + (if x = e then 1 else 0)"
    if "e \<in> set ?C" "p2_active b1 = p2_active b" for e b1 x
  proof -
    have "active_wf b1" "e \<noteq> ''''" using that assms(1) normalize_props(2) [of es] by (auto simp: active_wf_def)
    note M = markActive_spec [OF this, of 1]
    show "active_wf (markActive e 1 b1)" by (rule M(1))
    show "cur (p2_active (markActive e 1 b1)) x = cur (p2_active b) x + (if x = e then 1 else 0)"
      using M(2) [of x] that(2) nonneg [of e] by simp
  qed
  show ?thesis
  proof (cases "length ?C = 1")
    case True
    then have "hd ?C \<in> set ?C" using Ok(3) by simp
    then show ?thesis using assms(2) Ok True mark [of "hd ?C" b] by (auto simp: P2C_Pick_def)
  next
    case False
    then have len: "2 \<le> length ?C" using Ok(3) by (cases ?C; cases "tl ?C") auto
    let ?n = "length ?C" and ?b1 = "b\<lparr>p2_next := p2_next b + 1\<rparr>"
    define a where "a = at_counter ?C (p2_next b)"
    define j where "j = unat (p2_next b * 1103515245 + 12345) mod ?n"
    define c where "c = (if ?C ! j = a then ?C ! ((j + 1) mod ?n) else ?C ! j)"
    have j: "j < ?n" using Ok(3) by (simp add: j_def)
    have "?C ! ((j + 1) mod ?n) \<noteq> ?C ! j"
      using len j normalize_props(1) [of es] by (subst nth_eq_iff_index_eq) (auto simp: mod_Suc)
    then have ac: "a \<in> set ?C" "c \<in> set ?C" "c \<noteq> a"
      using at_counter_in [OF Ok(3)] j Ok(3) by (auto simp: a_def c_def)
    have e: "r = Inr (lessLoaded a c ?b1)" "b' = markActive (lessLoaded a c ?b1) 1 ?b1"
      using assms(2) Ok False by (auto simp: P2C_Pick_def Let_def a_def c_def j_def)
    have "lessLoaded a c ?b1 \<in> {a, c}" "\<exists>x \<in> {a, c}. x \<noteq> lessLoaded a c ?b1 \<and> cur (p2_active b) (lessLoaded a c ?b1) \<le> cur (p2_active b) x"
      using ac(3) by (auto simp: lessLoaded_def)
    then show ?thesis using e ac mark [of "lessLoaded a c ?b1" ?b1] by auto
  qed
qed

end
