(* ===== verification/P2CEWMA.thy ===== *)
theory P2CEWMA
  imports Balancer
begin

text \<open>
  The latency-aware balancer \<^verbatim>\<open>rpc/p2c_ewma.go\<close>: of two sampled endpoints it picks the one with the lower
  load, a moving average of its latencies times its requests in flight. The two random numbers of a pick
  are inputs; \<^verbatim>\<open>math.Exp\<close> is a parameter \<open>mexp\<close>, of which only the range is used.
\<close>

section \<open>Definitions\<close>

record ewmaStat =
  es_inflight :: int
  es_lag :: float64
  es_lastUpdate :: time
  es_pending :: "time list"

record P2CEWMABalancer =
  eb_decay :: duration
  eb_endpoints :: "(string, ewmaStat) gomap"

datatype P2CEWMAOption = WithEWMADecay duration

fun apply_P2CEWMAOption :: "P2CEWMAOption \<Rightarrow> P2CEWMABalancer \<Rightarrow> P2CEWMABalancer" where
  "apply_P2CEWMAOption (WithEWMADecay d) b = (if d > 0 then b\<lparr>eb_decay := d\<rparr> else b)"

definition NewP2CEWMABalancer :: "P2CEWMAOption option list \<Rightarrow> P2CEWMABalancer" where
  "NewP2CEWMABalancer opts =
     (let b = fold (\<lambda>opt b. case opt of None \<Rightarrow> b | Some q \<Rightarrow> apply_P2CEWMAOption q b) opts
                \<lparr>eb_decay = 600 * Millisecond, eb_endpoints = []\<rparr>
      in if eb_decay b \<le> 0 then b\<lparr>eb_decay := 600 * Millisecond\<rparr> else b)"

definition markPickLocked :: "string \<Rightarrow> time \<Rightarrow> P2CEWMABalancer \<Rightarrow> P2CEWMABalancer" where
  "markPickLocked endpoint now b =
     (let st = (case m_get (eb_endpoints b) endpoint of
                  None \<Rightarrow> \<lparr>es_inflight = 0, es_lag = 0, es_lastUpdate = 0, es_pending = []\<rparr> | Some st \<Rightarrow> st)
      in b\<lparr>eb_endpoints := m_put endpoint
             (st\<lparr>es_inflight := es_inflight st + 1, es_pending := es_pending st @ [now]\<rparr>) (eb_endpoints b)\<rparr>)"

definition loadLocked :: "string \<Rightarrow> P2CEWMABalancer \<Rightarrow> float64" where
  "loadLocked endpoint b =
     (case m_get (eb_endpoints b) endpoint of None \<Rightarrow> 0
      | Some st \<Rightarrow> fmul (es_lag st) (float64_of_int (es_inflight st + 1)))"

definition P2CEWMA_Pick ::
  "goerror option \<Rightarrow> string list \<Rightarrow> nat \<Rightarrow> nat \<Rightarrow> time \<Rightarrow> P2CEWMABalancer \<Rightarrow> (goerror + string) \<times> P2CEWMABalancer" where
  "P2CEWMA_Pick ctx endpoints i j now b =
     (case candidates_or_error ctx endpoints of
        Inl err \<Rightarrow> (Inl err, b)
      | Inr candidates \<Rightarrow>
          if length candidates = 1 then (Inr (hd candidates), markPickLocked (hd candidates) now b)
          else let j = (if j \<ge> i then j + 1 else j); a = candidates ! i; c = candidates ! j;
                   chosen = (if loadLocked c b < loadLocked a b then c else a)
               in (Inr chosen, markPickLocked chosen now b))"

definition updateLagLocked :: "(float64 \<Rightarrow> float64) \<Rightarrow> duration \<Rightarrow> duration \<Rightarrow> time \<Rightarrow> ewmaStat \<Rightarrow> ewmaStat" where
  "updateLagLocked mexp decay latency now st =
     (let sample = float64_of_int latency in
      if es_lastUpdate st = 0 then st\<lparr>es_lag := sample, es_lastUpdate := now\<rparr>
      else let delta = max 0 (time_Sub now (es_lastUpdate st));
               w = mexp (fdiv (- float64_of_int delta) (float64_of_int decay))
           in st\<lparr>es_lag := fadd (fmul (es_lag st) w) (fmul sample (fsub 1 w)), es_lastUpdate := now\<rparr>)"

definition P2CEWMA_Report :: "(float64 \<Rightarrow> float64) \<Rightarrow> string \<Rightarrow> time \<Rightarrow> P2CEWMABalancer \<Rightarrow> P2CEWMABalancer" where
  "P2CEWMA_Report mexp endpoint now b =
     (let e = trimEndpoint endpoint in
      if e = '''' then b
      else case m_get (eb_endpoints b) e of
        None \<Rightarrow> b
      | Some st \<Rightarrow>
          let st = (if es_inflight st > 0 then st\<lparr>es_inflight := es_inflight st - 1\<rparr> else st)
          in case es_pending st of
               [] \<Rightarrow> b\<lparr>eb_endpoints := m_put e st (eb_endpoints b)\<rparr>
             | start # rest \<Rightarrow>
                 b\<lparr>eb_endpoints := m_put e
                     (updateLagLocked mexp (eb_decay b) (max 0 (time_Sub now start)) now (st\<lparr>es_pending := rest\<rparr>))
                     (eb_endpoints b)\<rparr>)"

section \<open>Loads and latencies\<close>

definition ewma_inv :: "P2CEWMABalancer \<Rightarrow> bool" where
  "ewma_inv b \<longleftrightarrow> 0 < eb_decay b \<and>
     (\<forall>e st. m_get (eb_endpoints b) e = Some st \<longrightarrow> es_inflight st = int (length (es_pending st)) \<and> 0 \<le> es_lag st)"

lemma ewma_inv_New: "ewma_inv (NewP2CEWMABalancer opts)"
proof -
  have "eb_endpoints (fold (\<lambda>opt b. case opt of None \<Rightarrow> b | Some q \<Rightarrow> apply_P2CEWMAOption q b) opts b) = eb_endpoints b" for b
  proof (induction opts arbitrary: b)
    case (Cons a opts)
    then show ?case by (cases a; cases "the a") auto
  qed simp
  then show ?thesis by (auto simp: NewP2CEWMABalancer_def ewma_inv_def Let_def)
qed

lemma ewma_inv_mark: "ewma_inv b \<Longrightarrow> ewma_inv (markPickLocked e now b)"
  by (auto simp: ewma_inv_def markPickLocked_def Let_def split: option.split)

lemma ewma_inv_Pick: "ewma_inv b \<Longrightarrow> ewma_inv (snd (P2CEWMA_Pick ctx es i j now b))"
  by (auto simp: P2CEWMA_Pick_def Let_def ewma_inv_mark split: sum.split)

text \<open>A pick with draws in range returns one of two different candidates, and not the more loaded one.\<close>

lemma P2CEWMA_Pick_spec:
  assumes "2 \<le> length (normalizeEndpoints es)" "i < length (normalizeEndpoints es)" "j < length (normalizeEndpoints es) - 1"
  shows "\<exists>e c. fst (P2CEWMA_Pick None es i j now b) = Inr e \<and> {e, c} \<subseteq> set (normalizeEndpoints es) \<and> e \<noteq> c \<and>
     loadLocked e b \<le> loadLocked c b"
proof -
  let ?C = "normalizeEndpoints es" and ?j = "if j \<ge> i then j + 1 else j"
  have ne: "?C \<noteq> []" "length ?C \<noteq> 1" using assms(1) by auto
  have in_set: "?C ! i \<in> set ?C" "?C ! ?j \<in> set ?C" using assms by (auto intro!: nth_mem)
  have "?C ! i \<noteq> ?C ! ?j" using assms normalize_props(1) [of es] by (subst nth_eq_iff_index_eq) auto
  moreover have "fst (P2CEWMA_Pick None es i j now b) =
      Inr (if loadLocked (?C ! ?j) b < loadLocked (?C ! i) b then ?C ! ?j else ?C ! i)"
    using ne(2) by (simp add: P2CEWMA_Pick_def candidates_None [OF ne(1)] Let_def)
  ultimately show ?thesis
  proof (cases "loadLocked (?C ! ?j) b < loadLocked (?C ! i) b")
    case True
    with \<open>?C ! i \<noteq> ?C ! ?j\<close> \<open>fst _ = _\<close> in_set show ?thesis
      by (intro exI [of _ "?C ! ?j"] exI [of _ "?C ! i"]) (simp add: less_imp_le)
  next
    case False
    with \<open>?C ! i \<noteq> ?C ! ?j\<close> \<open>fst _ = _\<close> in_set show ?thesis
      by (intro exI [of _ "?C ! i"] exI [of _ "?C ! ?j"]) (simp add: not_less)
  qed
qed

lemma updateLag_bounds:
  fixes now :: time
  assumes "0 \<le> es_lag st" "0 \<le> latency" "\<And>x. x \<le> 0 \<Longrightarrow> 0 \<le> mexp x \<and> mexp x \<le> 1" "0 < decay"
  defines "lag' \<equiv> es_lag (updateLagLocked mexp decay latency now st)"
  shows "0 \<le> lag' \<and> lag' \<le> max (es_lag st) (float64_of_int latency) * one_ulp ^ 3"
proof (cases "es_lastUpdate st = 0")
  case True
  have s: "0 \<le> float64_of_int latency" using assms(2) by (simp add: float64_of_int_def)
  have "float64_of_int latency * 1 \<le> max (es_lag st) (float64_of_int latency) * one_ulp ^ 3"
    using s one_ulp_ge by (intro mult_mono) (auto intro: one_le_power)
  then show ?thesis using True s by (simp add: lag'_def updateLagLocked_def)
next
  case False
  define s where "s = float64_of_int latency"
  define M where "M = max (es_lag st) s"
  define w where "w = mexp (fdiv (- float64_of_int (max 0 (time_Sub now (es_lastUpdate st)))) (float64_of_int decay))"
  have s0: "0 \<le> s" using assms(2) by (simp add: s_def float64_of_int_def)
  have "fdiv (- float64_of_int (max 0 (time_Sub now (es_lastUpdate st)))) (float64_of_int decay) \<le> 0"
  proof -
    have "0 \<le> float64_of_int (max 0 (time_Sub now (es_lastUpdate st))) / float64_of_int decay"
      using assms(4) by (intro divide_nonneg_nonneg) (simp_all add: float64_of_int_def)
    then show ?thesis by (simp add: fdiv_def fl_minus flip: minus_divide_left)
  qed
  then have w: "0 \<le> w" "w \<le> 1" using assms(3) by (auto simp: w_def)
  have lag': "lag' = fadd (fmul (es_lag st) w) (fmul s (fsub 1 w))"
    using False by (simp add: lag'_def updateLagLocked_def Let_def w_def s_def)
  have a: "0 \<le> fmul (es_lag st) w" "fmul (es_lag st) w \<le> M * w * one_ulp"
  proof -
    show "0 \<le> fmul (es_lag st) w" using assms(1) w by (simp add: fmul_def)
    have "fmul (es_lag st) w \<le> es_lag st * w * one_ulp" unfolding fmul_def using assms(1) w by (intro fl_upper) simp
    also have "\<dots> \<le> M * w * one_ulp" using w by (intro mult_right_mono) (auto simp: M_def)
    finally show "fmul (es_lag st) w \<le> M * w * one_ulp" .
  qed
  have v: "0 \<le> fsub 1 w" "fsub 1 w \<le> (1 - w) * one_ulp" using w fl_upper [of "1 - w"] by (simp_all add: fsub_def)
  have b: "0 \<le> fmul s (fsub 1 w)" "fmul s (fsub 1 w) \<le> M * (1 - w) * one_ulp * one_ulp"
  proof -
    show "0 \<le> fmul s (fsub 1 w)" using s0 v by (simp add: fmul_def)
    have "fmul s (fsub 1 w) \<le> s * fsub 1 w * one_ulp" unfolding fmul_def using s0 v by (intro fl_upper) simp
    also have "\<dots> \<le> M * ((1 - w) * one_ulp) * one_ulp"
      using s0 v w by (intro mult_right_mono mult_mono) (auto simp: M_def)
    finally show "fmul s (fsub 1 w) \<le> M * (1 - w) * one_ulp * one_ulp" by (simp add: ac_simps)
  qed
  have M0: "0 \<le> M" using s0 by (simp add: M_def)
  have "lag' \<le> (fmul (es_lag st) w + fmul s (fsub 1 w)) * one_ulp" unfolding lag' fadd_def using a b by (intro fl_upper) simp
  also have "\<dots> \<le> (M * one_ulp * one_ulp) * one_ulp"
  proof (rule mult_right_mono)
    have "M * w * one_ulp \<le> M * w * one_ulp * one_ulp"
      using M0 w mult_left_mono [OF one_ulp_ge(1), of "M * w * one_ulp"] by simp
    moreover have "M * w * one_ulp * one_ulp + M * (1 - w) * one_ulp * one_ulp = M * one_ulp * one_ulp"
      by (simp add: algebra_simps)
    ultimately show "fmul (es_lag st) w + fmul s (fsub 1 w) \<le> M * one_ulp * one_ulp"
      using a(2) b(2) by linarith
  qed simp
  finally have "lag' \<le> M * one_ulp ^ 3" by (simp add: power3_eq_cube mult.assoc)
  moreover have "0 \<le> lag'" using a(1) b(1) by (simp add: lag' fadd_def)
  ultimately show ?thesis by (simp add: M_def s_def)
qed

lemma ewma_inv_Report:
  assumes "ewma_inv b" "\<And>x. x \<le> 0 \<Longrightarrow> 0 \<le> mexp x \<and> mexp x \<le> 1"
  shows "ewma_inv (P2CEWMA_Report mexp endpoint now b)"
proof -
  have "es_inflight (updateLagLocked mexp d l now st) = es_inflight st" "es_pending (updateLagLocked mexp d l now st) = es_pending st" for d l st
    by (simp_all add: updateLagLocked_def Let_def)
  moreover have "0 \<le> es_lag (updateLagLocked mexp (eb_decay b) (max 0 l) now st)" if "0 \<le> es_lag st" for l st
    using updateLag_bounds [OF that, of "max 0 l" mexp "eb_decay b" now] assms by (simp add: ewma_inv_def)
  ultimately show ?thesis
    using assms(1) by (auto simp: P2CEWMA_Report_def ewma_inv_def Let_def split: option.split list.split)
qed

end
