(* ===== verification/GoJson.thy ===== *)
theory GoJson
  imports GoStrings Float64 "HOL-Library.Char_ord" "HOL-Library.List_Lexorder"
begin

text \<open>
  The part of Go's \<^verbatim>\<open>encoding/json\<close> (with \<^verbatim>\<open>unicode/utf8\<close> and \<^verbatim>\<open>unicode/utf16\<close>) that the repository
  uses: \<^verbatim>\<open>Marshal\<close> of dynamic values, and \<^verbatim>\<open>Unmarshal\<close> into \<^verbatim>\<open>map[string]any\<close> and into structs of
  string fields. Strings are byte lists. Parsing has two stages, a lexer and an automaton on tokens with
  an explicit stack, as the library's scanner has; both are total.
\<close>

section \<open>UTF-8\<close>

abbreviation byte :: "char \<Rightarrow> nat" where "byte c \<equiv> of_char c"

definition continuation :: "char \<Rightarrow> bool" where
  "continuation c \<longleftrightarrow> 0x80 \<le> byte c \<and> byte c \<le> 0xBF"

text \<open>The number of bytes of the rune at the start of a string; 0 if there is no valid one.\<close>

fun rune_len :: "string \<Rightarrow> nat" where
  "rune_len [] = 0"
| "rune_len (c0 # cs) =
     (if byte c0 < 0x80 then 1
      else if 0xC2 \<le> byte c0 \<and> byte c0 \<le> 0xDF then
        (case cs of c1 # _ \<Rightarrow> if continuation c1 then 2 else 0 | _ \<Rightarrow> 0)
      else if 0xE0 \<le> byte c0 \<and> byte c0 \<le> 0xEF then
        (case cs of c1 # c2 # _ \<Rightarrow>
           if (if byte c0 = 0xE0 then 0xA0 else 0x80) \<le> byte c1 \<and> byte c1 \<le> (if byte c0 = 0xED then 0x9F else 0xBF) \<and>
              continuation c2 then 3 else 0
         | _ \<Rightarrow> 0)
      else if 0xF0 \<le> byte c0 \<and> byte c0 \<le> 0xF4 then
        (case cs of c1 # c2 # c3 # _ \<Rightarrow>
           if (if byte c0 = 0xF0 then 0x90 else 0x80) \<le> byte c1 \<and> byte c1 \<le> (if byte c0 = 0xF4 then 0x8F else 0xBF) \<and>
              continuation c2 \<and> continuation c3 then 4 else 0
         | _ \<Rightarrow> 0)
      else 0)"

lemma rune_len_le: "rune_len s \<le> length s"
  by (cases s) (auto split: list.split)

function valid_utf8 :: "string \<Rightarrow> bool" where
  "valid_utf8 s = (if s = [] then True else if rune_len s = 0 then False else valid_utf8 (drop (rune_len s) s))"
  by pat_completeness auto
termination
  by (relation "measure length") auto

declare valid_utf8.simps [simp del]

definition utf8_encode :: "nat \<Rightarrow> string" where
  "utf8_encode r =
     (if r < 0x80 then [char_of r]
      else if r < 0x800 then [char_of (0xC0 + r div 64), char_of (0x80 + r mod 64)]
      else if r < 0x10000 then [char_of (0xE0 + r div 4096), char_of (0x80 + r div 64 mod 64), char_of (0x80 + r mod 64)]
      else [char_of (0xF0 + r div 262144), char_of (0x80 + r div 4096 mod 64), char_of (0x80 + r div 64 mod 64), char_of (0x80 + r mod 64)])"

definition replacement :: string where
  "replacement = [CHR 0xEF, CHR 0xBF, CHR 0xBD]"

section \<open>Strings\<close>

definition hex_value :: "char \<Rightarrow> nat option" where
  "hex_value c =
     (let b = byte c in
      if 48 \<le> b \<and> b \<le> 57 then Some (b - 48)
      else if 97 \<le> b \<and> b \<le> 102 then Some (b - 87)
      else if 65 \<le> b \<and> b \<le> 70 then Some (b - 55) else None)"

definition escape_ascii :: "char \<Rightarrow> string" where
  "escape_ascii c =
     (if c = CHR 0x22 \<or> c = CHR 0x5C then [CHR 0x5C, c]
      else if c = CHR 0x08 then [CHR 0x5C, CHR ''b'']
      else if c = CHR 0x0C then [CHR 0x5C, CHR ''f'']
      else if c = CHR 0x0A then [CHR 0x5C, CHR ''n'']
      else if c = CHR 0x0D then [CHR 0x5C, CHR ''r'']
      else if c = CHR 0x09 then [CHR 0x5C, CHR ''t'']
      else if byte c < 0x20 \<or> c = CHR ''<'' \<or> c = CHR ''>'' \<or> c = CHR ''&'' then
        CHR 0x5C # ''u00'' @ [hex_digit (byte c div 16), hex_digit (byte c mod 16)]
      else [c])"

text \<open>The body of a string literal, with the escapes for HTML that \<^verbatim>\<open>Marshal\<close> makes.\<close>

function quote_body :: "string \<Rightarrow> string" where
  "quote_body s =
     (case s of [] \<Rightarrow> []
      | c # cs \<Rightarrow>
          if byte c < 0x80 then escape_ascii c @ quote_body cs
          else if rune_len s = 0 then CHR 0x5C # ''ufffd'' @ quote_body cs
          else if take 3 s = [CHR 0xE2, CHR 0x80, CHR 0xA8] then CHR 0x5C # ''u2028'' @ quote_body (drop 3 s)
          else if take 3 s = [CHR 0xE2, CHR 0x80, CHR 0xA9] then CHR 0x5C # ''u2029'' @ quote_body (drop 3 s)
          else take (rune_len s) s @ quote_body (drop (rune_len s) s))"
  by pat_completeness auto
termination
  by (relation "measure length") auto

declare quote_body.simps [simp del]

definition quote_string :: "string \<Rightarrow> string" where
  "quote_string s = CHR 0x22 # quote_body s @ [CHR 0x22]"

fun hex4 :: "string \<Rightarrow> (nat \<times> string) option" where
  "hex4 (a # b # c # d # rest) =
     (case (hex_value a, hex_value b, hex_value c, hex_value d) of
        (Some w, Some x, Some y, Some z) \<Rightarrow> Some (((w * 16 + x) * 16 + y) * 16 + z, rest)
      | _ \<Rightarrow> None)"
| "hex4 _ = None"

definition is_surrogate :: "nat \<Rightarrow> bool" where
  "is_surrogate r \<longleftrightarrow> 0xD800 \<le> r \<and> r < 0xE000"

text \<open>What follows a backslash: the bytes it stands for, and the rest.\<close>

definition unescape_u :: "string \<Rightarrow> (string \<times> string) option" where
  "unescape_u s =
     (case hex4 s of None \<Rightarrow> None
      | Some (r, rest) \<Rightarrow>
          if \<not> is_surrogate r then Some (utf8_encode r, rest)
          else case rest of
            c # d # rest2 \<Rightarrow>
              (case (if c = CHR 0x5C \<and> d = CHR ''u'' then hex4 rest2 else None) of
                 Some (r2, rest3) \<Rightarrow>
                   if r < 0xDC00 \<and> 0xDC00 \<le> r2 \<and> r2 < 0xE000 then
                     Some (utf8_encode (0x10000 + (r - 0xD800) * 1024 + (r2 - 0xDC00)), rest3)
                   else Some (replacement, rest)
               | None \<Rightarrow> Some (replacement, rest))
          | _ \<Rightarrow> Some (replacement, rest))"

definition unescape :: "string \<Rightarrow> (string \<times> string) option" where
  "unescape s =
     (case s of [] \<Rightarrow> None
      | e # rest \<Rightarrow>
          if e = CHR 0x22 \<or> e = CHR 0x5C \<or> e = CHR ''/'' then Some ([e], rest)
          else if e = CHR ''b'' then Some ([CHR 0x08], rest)
          else if e = CHR ''f'' then Some ([CHR 0x0C], rest)
          else if e = CHR ''n'' then Some ([CHR 0x0A], rest)
          else if e = CHR ''r'' then Some ([CHR 0x0D], rest)
          else if e = CHR ''t'' then Some ([CHR 0x09], rest)
          else if e = CHR ''u'' then unescape_u rest
          else None)"

lemma hex4_length: "hex4 s = Some (n, rest) \<Longrightarrow> length rest < length s"
  by (induction s rule: hex4.induct) (auto split: option.splits)

lemma unescape_length: "unescape s = Some (out, rest) \<Longrightarrow> length rest < length s"
  by (auto simp: unescape_def unescape_u_def dest!: hex4_length split: list.splits if_splits option.splits)

text \<open>A string literal after its opening quote: the value, and what follows the closing quote.\<close>

function lex_string :: "string \<Rightarrow> (string \<times> string) option" where
  "lex_string s =
     (case s of [] \<Rightarrow> None
      | c # cs \<Rightarrow>
          if c = CHR 0x22 then Some ([], cs)
          else if c = CHR 0x5C then
            (case unescape cs of None \<Rightarrow> None
             | Some (out, rest) \<Rightarrow> (case lex_string rest of None \<Rightarrow> None | Some (t, r) \<Rightarrow> Some (out @ t, r)))
          else if byte c < 0x20 then None
          else if rune_len s = 0 then (case lex_string cs of None \<Rightarrow> None | Some (t, r) \<Rightarrow> Some (replacement @ t, r))
          else (case lex_string (drop (rune_len s) s) of None \<Rightarrow> None | Some (t, r) \<Rightarrow> Some (take (rune_len s) s @ t, r)))"
  by pat_completeness auto
termination
  by (relation "measure length") (auto dest: unescape_length)

declare lex_string.simps [simp del]

lemma lex_string_length: "lex_string s = Some (t, r) \<Longrightarrow> length r < length s"
proof (induction s arbitrary: t r rule: lex_string.induct)
  case (1 s)
  show ?case
  proof (cases s)
    case Nil
    then show ?thesis using "1.prems" by (simp add: lex_string.simps [of "[]"])
  next
    case (Cons c cs)
    have len: "length (drop (rune_len s) s) \<le> length s" by simp
    show ?thesis
      using "1.prems" "1.IH" [OF Cons] Cons len
      by (subst (asm) (1) lex_string.simps) (fastforce dest: unescape_length split: if_splits option.splits)
  qed
qed

section \<open>Dynamic values and \<^verbatim>\<open>Marshal\<close>\<close>

text \<open>
  The dynamic types of \<^verbatim>\<open>any\<close> that the code handles: nil, \<^verbatim>\<open>bool\<close>, \<^verbatim>\<open>int64\<close>, \<^verbatim>\<open>float64\<close>, \<^verbatim>\<open>string\<close>, and
  non-nil \<^verbatim>\<open>[]string\<close>, \<^verbatim>\<open>[]any\<close> and \<^verbatim>\<open>map[string]any\<close>.
\<close>

datatype goany =
    ANil
  | ABool bool
  | AInt int
  | AFloat float64
  | AString string
  | AStrings "string list"
  | AList "goany list"
  | AMap "(string \<times> goany) list"

text \<open>
  \<^verbatim>\<open>strconv.ParseFloat\<close> of a number with the given exact value: rounding to 53 bits, to a multiple of
  \<open>1 / 2 ^ 1074\<close> for tiny numbers, and an error beyond the range of \<^verbatim>\<open>float64\<close>.
\<close>

definition parse_float64 :: "rat \<Rightarrow> float64 option" where
  "parse_float64 x =
     (let y = (if \<bar>x\<bar> < 1 / 2 ^ 1022 then of_int (round_even (x * 2 ^ 1074)) / 2 ^ 1074 else fl x)
      in if \<bar>y\<bar> \<ge> 2 ^ 1024 then None else Some y)"

text \<open>The exponent \<open>e\<close> with \<open>10 powi e \<le> a < 10 powi (e + 1)\<close>, for positive \<open>a\<close>.\<close>

definition dec_exp :: "rat \<Rightarrow> int" where
  "dec_exp a = (if a \<ge> 1 then int (length (nat_digits (nat \<lfloor>a\<rfloor>))) - 1 else - int (length (nat_digits (nat (\<lceil>1 / a\<rceil> - 1)))))"

text \<open>
  The shortest decimal that reads back as \<open>a\<close>, the closest one if there are several: an integer of \<open>n\<close>
  digits and a power of ten, for the least \<open>n\<close> from the given one on (17 digits are always enough).
\<close>

fun shortest :: "nat \<Rightarrow> nat \<Rightarrow> rat \<Rightarrow> int \<times> int" where
  "shortest fuel n a =
     (let p = dec_exp a + 1 - int n; s = a / 10 powi p; lo = \<lfloor>s\<rfloor>; hi = lo + 1;
          good = (\<lambda>d. parse_float64 (of_int d * 10 powi p) = Some a);
          near = (if s - of_int lo < of_int hi - s \<or> (s - of_int lo = of_int hi - s \<and> even lo) then lo else hi)
      in case fuel of
           0 \<Rightarrow> (near, p)
         | Suc f \<Rightarrow>
             if good lo \<and> good hi then (near, p)
             else if good lo then (lo, p) else if good hi then (hi, p)
             else shortest f (n + 1) a)"

fun strip_zeros :: "nat \<Rightarrow> int \<Rightarrow> nat \<times> int" where
  "strip_zeros d p = (if d \<noteq> 0 \<and> d mod 10 = 0 then strip_zeros (d div 10) (p + 1) else (d, p))"

declare strip_zeros.simps [simp del]

definition format_pos :: "rat \<Rightarrow> string" where
  "format_pos a =
     (let (d, p) = shortest 16 1 a; (d, p) = strip_zeros (nat d) p; ds = nat_digits d; n = int (length ds); dp = p + n
      in if a < 1 / 10 ^ 6 \<or> a \<ge> 10 ^ 21 then
           take 1 ds @ (if length ds > 1 then CHR ''.'' # drop 1 ds else []) @ ''e'' @
             (if dp - 1 \<ge> 0 then ''+'' else '''') @ strconv_Itoa (dp - 1)
         else if dp \<le> 0 then ''0.'' @ replicate (nat (- dp)) (CHR ''0'') @ ds
         else if dp \<ge> n then ds @ replicate (nat (dp - n)) (CHR ''0'')
         else take (nat dp) ds @ CHR ''.'' # drop (nat dp) ds)"

definition format_float :: "float64 \<Rightarrow> string" where
  "format_float f = (if f = 0 then ''0'' else if f < 0 then CHR ''-'' # format_pos (- f) else format_pos f)"

text \<open>Members of an object are sorted by key, bytewise.\<close>

primrec marshal :: "goany \<Rightarrow> string" where
  "marshal ANil = ''null''"
| "marshal (ABool b) = (if b then ''true'' else ''false'')"
| "marshal (AInt i) = strconv_Itoa i"
| "marshal (AFloat f) = format_float f"
| "marshal (AString s) = quote_string s"
| "marshal (AStrings ss) = ''['' @ strings_Join (map quote_string ss) '','' @ '']''"
| "marshal (AList vs) = ''['' @ strings_Join (map marshal vs) '','' @ '']''"
| "marshal (AMap m) =
     CHR 0x7B # strings_Join (map (\<lambda>(k, s). quote_string k @ CHR '':'' # s) (sort_key fst (map (map_prod id marshal) m))) '',''
       @ [CHR 0x7D]"

section \<open>Tokens\<close>

datatype token = LBrace | RBrace | LBrack | RBrack | Colon | Comma | NullT | BoolT bool | NumT rat | StrT string

definition is_digit :: "char \<Rightarrow> bool" where
  "is_digit c \<longleftrightarrow> 48 \<le> byte c \<and> byte c \<le> 57"

definition digits_value :: "string \<Rightarrow> nat" where
  "digits_value ds = foldl (\<lambda>n c. 10 * n + (byte c - 48)) 0 ds"

text \<open>The parts of a number after its sign: integer digits, fraction digits, exponent.\<close>

definition lex_int :: "string \<Rightarrow> (string \<times> string) option" where
  "lex_int s =
     (case s of [] \<Rightarrow> None
      | c # cs \<Rightarrow> if c = CHR ''0'' then Some (''0'', cs)
                  else if is_digit c then Some (takeWhile is_digit s, dropWhile is_digit s) else None)"

definition lex_frac :: "string \<Rightarrow> (string \<times> string) option" where
  "lex_frac s =
     (case s of c # cs \<Rightarrow> if c = CHR ''.'' then
          (if takeWhile is_digit cs = [] then None else Some (takeWhile is_digit cs, dropWhile is_digit cs)) else Some ([], s)
      | [] \<Rightarrow> Some ([], s))"

definition lex_exp :: "string \<Rightarrow> (int \<times> string) option" where
  "lex_exp s =
     (case s of c # cs \<Rightarrow>
        if c = CHR ''e'' \<or> c = CHR ''E'' then
          (let neg = (cs \<noteq> [] \<and> hd cs = CHR ''-'');
               ds = (if cs \<noteq> [] \<and> (hd cs = CHR ''-'' \<or> hd cs = CHR ''+'') then tl cs else cs)
           in if takeWhile is_digit ds = [] then None
              else Some ((if neg then - 1 else 1) * int (digits_value (takeWhile is_digit ds)), dropWhile is_digit ds))
        else Some (0, s)
      | [] \<Rightarrow> Some (0, s))"

definition lex_number :: "string \<Rightarrow> (rat \<times> string) option" where
  "lex_number s =
     (let neg = (s \<noteq> [] \<and> hd s = CHR ''-''); s = (if neg then tl s else s) in
      case lex_int s of None \<Rightarrow> None
      | Some (ds, s) \<Rightarrow>
          (case lex_frac s of None \<Rightarrow> None
           | Some (fs, s) \<Rightarrow>
               (case lex_exp s of None \<Rightarrow> None
                | Some (e, s) \<Rightarrow>
                    Some ((if neg then - 1 else 1) * (of_nat (digits_value (ds @ fs)) / 10 ^ length fs) * 10 powi e, s))))"

lemma lex_number_length: "lex_number s = Some (x, rest) \<Longrightarrow> length rest < length s"
proof -
  assume *: "lex_number s = Some (x, rest)"
  have 1: "length r < length t" if "lex_int t = Some (d, r)" for t d r
    using that length_dropWhile_le [of is_digit t]
    by (auto simp: lex_int_def less_Suc_eq_le length_dropWhile_le split: list.splits if_splits)
  have 2: "length r \<le> length t" if "lex_frac t = Some (d, r)" for t d r
    using that by (auto simp: lex_frac_def le_SucI length_dropWhile_le split: list.splits if_splits)
  have 3: "length r \<le> length t" if "lex_exp t = Some (d, r)" for t d r
  proof -
    have "length (dropWhile is_digit ds) \<le> length cs" if "ds = cs \<or> ds = tl cs" for ds cs :: string
      using that length_dropWhile_le [of is_digit ds] by auto
    then show ?thesis using that by (auto simp: lex_exp_def Let_def le_SucI split: list.splits if_splits)
  qed
  define t where "t = (if s \<noteq> [] \<and> hd s = CHR ''-'' then tl s else s)"
  obtain ds s1 fs s2 e where "lex_int t = Some (ds, s1)" "lex_frac s1 = Some (fs, s2)" "lex_exp s2 = Some (e, rest)"
    using * by (auto simp: lex_number_def Let_def t_def split: option.splits)
  then have "length rest < length t" using 1 2 3 by (metis le_less_trans)
  then show ?thesis by (auto simp: t_def split: if_splits)
qed

function lex :: "string \<Rightarrow> token list option" where
  "lex s =
     (case s of [] \<Rightarrow> Some []
      | c # cs \<Rightarrow>
          if c = CHR 0x20 \<or> c = CHR 0x09 \<or> c = CHR 0x0A \<or> c = CHR 0x0D then lex cs
          else if c = CHR 0x7B then map_option ((#) LBrace) (lex cs)
          else if c = CHR 0x7D then map_option ((#) RBrace) (lex cs)
          else if c = CHR ''['' then map_option ((#) LBrack) (lex cs)
          else if c = CHR '']'' then map_option ((#) RBrack) (lex cs)
          else if c = CHR '':'' then map_option ((#) Colon) (lex cs)
          else if c = CHR '','' then map_option ((#) Comma) (lex cs)
          else if c = CHR 0x22 then
            (case lex_string cs of None \<Rightarrow> None | Some (t, rest) \<Rightarrow> map_option ((#) (StrT t)) (lex rest))
          else if strings_HasPrefix s ''null'' then map_option ((#) NullT) (lex (drop 4 s))
          else if strings_HasPrefix s ''true'' then map_option ((#) (BoolT True)) (lex (drop 4 s))
          else if strings_HasPrefix s ''false'' then map_option ((#) (BoolT False)) (lex (drop 5 s))
          else case lex_number s of None \<Rightarrow> None | Some (x, rest) \<Rightarrow> map_option ((#) (NumT x)) (lex rest))"
  by pat_completeness auto
termination
  by (relation "measure length") (auto dest: lex_string_length lex_number_length)

declare lex.simps [simp del]

section \<open>Parsing\<close>

datatype json = JNull | JBool bool | JNum rat | JStr string | JArr "json list" | JObj "(string \<times> json) list"

text \<open>
  Open arrays with their elements, and open objects with their members and the key whose value comes
  next, the last of them first.
\<close>

datatype frame = FArr "json list" | FObj "(string \<times> json) list" string

text \<open>What may come next: a value; a value or the end of the array just opened; a key; a key or the end of the object just opened; a colon; a comma or an end.\<close>

datatype expect = Value | ValueOrEnd | Key "(string \<times> json) list" | KeyOrEnd | ColonE | More "(string \<times> json) list option" | Finished json

definition maxNestingDepth :: nat where "maxNestingDepth = 10000"

text \<open>
  The state is what is expected and the stack. An object that waits for a key or for the end has its
  members in \<open>Key\<close> or \<open>More\<close>, below the stack of the enclosing values.
\<close>

type_synonym pstate = "expect \<times> frame list"

fun deliver :: "json \<Rightarrow> frame list \<Rightarrow> pstate" where
  "deliver v [] = (Finished v, [])"
| "deliver v (FArr vs # st) = (More None, FArr (v # vs) # st)"
| "deliver v (FObj ms k # st) = (More (Some ((k, v) # ms)), st)"

definition start_value :: "token \<Rightarrow> frame list \<Rightarrow> pstate option" where
  "start_value t st =
     (case t of
        NullT \<Rightarrow> Some (deliver JNull st)
      | BoolT b \<Rightarrow> Some (deliver (JBool b) st)
      | NumT x \<Rightarrow> Some (deliver (JNum x) st)
      | StrT s \<Rightarrow> Some (deliver (JStr s) st)
      | LBrack \<Rightarrow> if length st + 1 \<le> maxNestingDepth then Some (ValueOrEnd, FArr [] # st) else None
      | LBrace \<Rightarrow> if length st + 1 \<le> maxNestingDepth then Some (KeyOrEnd, st) else None
      | _ \<Rightarrow> None)"

fun pstep :: "token \<Rightarrow> pstate \<Rightarrow> pstate option" where
  "pstep t (Value, st) = start_value t st"
| "pstep t (ValueOrEnd, FArr [] # st) =
     (if t = RBrack then Some (deliver (JArr []) st) else start_value t (FArr [] # st))"
| "pstep t (KeyOrEnd, st) =
     (case t of RBrace \<Rightarrow> Some (deliver (JObj []) st) | StrT k \<Rightarrow> Some (ColonE, FObj [] k # st) | _ \<Rightarrow> None)"
| "pstep t (Key ms, st) = (case t of StrT k \<Rightarrow> Some (ColonE, FObj ms k # st) | _ \<Rightarrow> None)"
| "pstep t (ColonE, st) = (if t = Colon then Some (Value, st) else None)"
| "pstep t (More None, FArr vs # st) =
     (if t = Comma then Some (Value, FArr vs # st)
      else if t = RBrack then Some (deliver (JArr (rev vs)) st) else None)"
| "pstep t (More (Some ms), st) =
     (if t = Comma then Some (Key ms, st) else if t = RBrace then Some (deliver (JObj (rev ms)) st) else None)"
| "pstep t _ = None"

fun prun :: "token list \<Rightarrow> pstate \<Rightarrow> pstate option" where
  "prun [] p = Some p"
| "prun (t # ts) p = (case pstep t p of None \<Rightarrow> None | Some p' \<Rightarrow> prun ts p')"

definition parse_json :: "string \<Rightarrow> json option" where
  "parse_json s =
     (case lex s of None \<Rightarrow> None
      | Some ts \<Rightarrow> (case prun ts (Value, []) of Some (Finished v, []) \<Rightarrow> Some v | _ \<Rightarrow> None))"

section \<open>\<^verbatim>\<open>Unmarshal\<close>\<close>

text \<open>Into \<^verbatim>\<open>any\<close>: numbers become \<^verbatim>\<open>float64\<close> (an error if out of range), and the last of equal keys wins.\<close>

definition put_all :: "(string \<times> 'v) list \<Rightarrow> (string, 'v) gomap" where
  "put_all ms = fold (\<lambda>(k, v). m_put k v) ms []"

primrec to_any :: "json \<Rightarrow> goany option" where
  "to_any JNull = Some ANil"
| "to_any (JBool b) = Some (ABool b)"
| "to_any (JNum x) = map_option AFloat (parse_float64 x)"
| "to_any (JStr s) = Some (AString s)"
| "to_any (JArr vs) = map_option AList (those (map to_any vs))"
| "to_any (JObj ms) =
     map_option (\<lambda>kvs. AMap (put_all kvs)) (those (map (\<lambda>(k, v). map_option (Pair k) v) (map (map_prod id to_any) ms)))"

text \<open>\<^verbatim>\<open>Unmarshal\<close> into a \<^verbatim>\<open>map[string]any\<close>: null leaves it nil.\<close>

definition unmarshal_map :: "string \<Rightarrow> (string, goany) gomap option" where
  "unmarshal_map s =
     (case parse_json s of
        Some JNull \<Rightarrow> Some []
      | Some (JObj ms) \<Rightarrow> (case to_any (JObj ms) of Some (AMap m) \<Rightarrow> Some m | _ \<Rightarrow> None)
      | _ \<Rightarrow> None)"

text \<open>
  \<^verbatim>\<open>Unmarshal\<close> into a struct whose fields are strings: a member sets the field with its name, or else the
  one whose name it matches up to case (\<^verbatim>\<open>U+212A\<close> is another \<^verbatim>\<open>k\<close> and \<^verbatim>\<open>U+017F\<close> another \<^verbatim>\<open>s\<close>). Null leaves the
  field alone, another type is an error, other members are ignored.
\<close>

fun fold_name :: "string \<Rightarrow> string" where
  "fold_name [] = []"
| "fold_name (c # cs) =
     (if c = CHR 0xE2 \<and> take 2 cs = [CHR 0x84, CHR 0xAA] then CHR ''k'' # fold_name (drop 2 cs)
      else if c = CHR 0xC5 \<and> take 1 cs = [CHR 0xBF] then CHR ''s'' # fold_name (drop 1 cs)
      else ascii_lower c # fold_name cs)"

definition match_field :: "string list \<Rightarrow> string \<Rightarrow> string option" where
  "match_field names key = (if key \<in> set names then Some key else find (\<lambda>n. fold_name n = fold_name key) names)"

fun set_fields :: "string list \<Rightarrow> (string \<times> json) list \<Rightarrow> (string, string) gomap \<Rightarrow> bool \<Rightarrow> (string, string) gomap \<times> bool" where
  "set_fields names [] m ok = (m, ok)"
| "set_fields names ((key, v) # rest) m ok =
     (case match_field names key of
        None \<Rightarrow> set_fields names rest m ok
      | Some n \<Rightarrow>
          (case v of JStr s \<Rightarrow> set_fields names rest (m_put n s m) ok
           | JNull \<Rightarrow> set_fields names rest m ok
           | _ \<Rightarrow> set_fields names rest m False))"

text \<open>The fields by name; a field that was not set is the empty string.\<close>

definition unmarshal_strings :: "string list \<Rightarrow> string \<Rightarrow> (string \<Rightarrow> string) option" where
  "unmarshal_strings names s =
     (let field = (\<lambda>m n. case m_get m n of Some v \<Rightarrow> v | None \<Rightarrow> '''')
      in case parse_json s of
           Some JNull \<Rightarrow> Some (field [])
         | Some (JObj ms) \<Rightarrow> (case set_fields names ms [] True of (m, ok) \<Rightarrow> if ok then Some (field m) else None)
         | _ \<Rightarrow> None)"

end
