(* ===== verification/JsonRoundTrip.thy ===== *)
theory JsonRoundTrip
  imports GoJson
begin

text \<open>What \<^verbatim>\<open>json.Marshal\<close> writes, \<^verbatim>\<open>json.Unmarshal\<close> reads back.\<close>

section \<open>Strings read back what was written\<close>

lemma hex_value_digit [simp]: "n < 16 \<Longrightarrow> hex_value (hex_digit n) = Some n"
  by (auto simp: hex_value_def hex_digit_def)

lemma rune_len_append:
  assumes "rune_len s \<noteq> 0"
  shows "rune_len (take (rune_len s) s @ t) = rune_len s"
proof (cases s)
  case (Cons c0 cs)
  consider (1) "byte c0 < 0x80" | (2) "0xC2 \<le> byte c0" "byte c0 \<le> 0xDF" | (3) "0xE0 \<le> byte c0" "byte c0 \<le> 0xEF"
    | (4) "0xF0 \<le> byte c0" "byte c0 \<le> 0xF4" | (5) "\<not> byte c0 < 0x80" "byte c0 < 0xC2 \<or> 0xF4 < byte c0" by linarith
  then show ?thesis
  proof cases
    case 2
    then obtain c1 r where "cs = c1 # r" "continuation c1" using assms Cons by (cases cs) (auto split: if_splits)
    then show ?thesis using 2 Cons by simp
  next
    case 3
    then obtain c1 c2 r where "cs = c1 # c2 # r" using assms Cons by (cases cs; cases "tl cs") auto
    then show ?thesis using 3 Cons assms by (simp split: if_splits)
  next
    case 4
    then obtain c1 c2 c3 r where "cs = c1 # c2 # c3 # r" using assms Cons by (cases cs; cases "tl cs"; cases "tl (tl cs)") auto
    then show ?thesis using 4 Cons assms by (simp split: if_splits)
  qed (use assms Cons in auto)
qed (use assms in simp)

lemma rune_len_ascii: "byte c < 0x80 \<Longrightarrow> rune_len (c # cs) = 1"
  by simp

declare rune_len.simps(2) [simp del]

abbreviation (input) prepend :: "string \<Rightarrow> (string \<times> string) option \<Rightarrow> (string \<times> string) option" where
  "prepend u r \<equiv> (case r of None \<Rightarrow> None | Some (t, rest) \<Rightarrow> Some (u @ t, rest))"

lemma unescape_hex:
  assumes "byte c < 0x80"
  shows "unescape (''u00'' @ [hex_digit (byte c div 16), hex_digit (byte c mod 16)] @ t) = Some ([c], t)"
proof -
  have "hex_value (CHR ''0'') = Some 0" by (simp add: hex_value_def)
  moreover have "byte c div 16 < 16" "byte c mod 16 < 16" using assms by auto
  ultimately have "hex4 (''00'' @ [hex_digit (byte c div 16), hex_digit (byte c mod 16)] @ t) = Some (byte c, t)"
    by simp
  moreover have "\<not> is_surrogate (byte c)" "utf8_encode (byte c) = [c]"
    using assms by (simp_all add: is_surrogate_def utf8_encode_def)
  ultimately show ?thesis by (simp add: unescape_def unescape_u_def)
qed

lemma lex_string_backslash: "lex_string (CHR 0x5C # t) = (case unescape t of None \<Rightarrow> None | Some (u, rest) \<Rightarrow> prepend u (lex_string rest))"
  by (subst lex_string.simps) (simp split: option.split)

lemma lex_string_escape:
  assumes "byte c < 0x80"
  shows "lex_string (escape_ascii c @ t) = prepend [c] (lex_string t)"
proof (cases "escape_ascii c = [c]")
  case True
  then have "c \<noteq> CHR 0x22" "c \<noteq> CHR 0x5C" "\<not> byte c < 0x20"
    by (auto simp: escape_ascii_def split: if_splits)
  then show ?thesis unfolding True using assms by (subst lex_string.simps) (simp add: rune_len_ascii split: option.split)
next
  case False
  then show ?thesis using unescape_hex [OF assms, of t]
    by (auto simp: escape_ascii_def lex_string_backslash unescape_def split: if_splits)
qed

lemma lex_string_rune:
  assumes "rune_len s \<noteq> 0" "s = c # cs" "\<not> byte c < 0x80"
  shows "lex_string (take (rune_len s) s @ t) = prepend (take (rune_len s) s) (lex_string t)"
proof -
  let ?n = "rune_len s"
  have n: "?n \<noteq> 0" "?n \<le> length s" using assms(1) rune_len_le by auto
  have len: "rune_len (take ?n s @ t) = ?n" by (rule rune_len_append [OF assms(1)])
  have "take ?n s = c # take (?n - 1) cs" using n assms(2) by (cases ?n) auto
  moreover have "take ?n (take ?n s @ t) = take ?n s" "drop ?n (take ?n s @ t) = t" using n by simp_all
  moreover have "c \<noteq> CHR 0x22" "c \<noteq> CHR 0x5C" "\<not> byte c < 0x20" using assms(3) by auto
  ultimately show ?thesis using len n(1)
    by (subst lex_string.simps) (simp split: option.split)
qed

lemma lex_string_u2028:
  "lex_string (CHR 0x5C # ''u2028'' @ t) = prepend [CHR 0xE2, CHR 0x80, CHR 0xA8] (lex_string t)"
  "lex_string (CHR 0x5C # ''u2029'' @ t) = prepend [CHR 0xE2, CHR 0x80, CHR 0xA9] (lex_string t)"
proof -
  have "hex_value CHR ''2'' = Some 2" "hex_value CHR ''0'' = Some 0" "hex_value CHR ''8'' = Some 8" "hex_value CHR ''9'' = Some 9"
    by code_simp+
  then have hex4: "hex4 (''2028'' @ t) = Some (0x2028, t)" "hex4 (''2029'' @ t) = Some (0x2029, t)"
    by simp_all
  have "unescape (''u2028'' @ t) = Some (utf8_encode 0x2028, t)" "unescape (''u2029'' @ t) = Some (utf8_encode 0x2029, t)"
    using hex4 by (simp_all add: unescape_def unescape_u_def is_surrogate_def)
  moreover have "utf8_encode 0x2028 = [CHR 0xE2, CHR 0x80, CHR 0xA8]" "utf8_encode 0x2029 = [CHR 0xE2, CHR 0x80, CHR 0xA9]"
    by (simp_all add: utf8_encode_def char_of_eq_iff)
  ultimately show "lex_string (CHR 0x5C # ''u2028'' @ t) = prepend [CHR 0xE2, CHR 0x80, CHR 0xA8] (lex_string t)"
    "lex_string (CHR 0x5C # ''u2029'' @ t) = prepend [CHR 0xE2, CHR 0x80, CHR 0xA9] (lex_string t)"
    unfolding lex_string_backslash by simp_all
qed

lemma lex_string_quote: "valid_utf8 s \<Longrightarrow> lex_string (quote_body s @ CHR 0x22 # r) = Some (s, r)"
proof (induction s rule: valid_utf8.induct)
  case (1 s)
  show ?case
  proof (cases s)
    case Nil
    then show ?thesis by (simp add: quote_body.simps [of "[]"] lex_string.simps [of "CHR 0x22 # r"])
  next
    case (Cons c cs)
    have n: "rune_len s \<noteq> 0" and valid: "valid_utf8 (drop (rune_len s) s)"
      using "1.prems" Cons valid_utf8.simps [of s] by (auto split: if_splits)
    then have IH: "lex_string (quote_body (drop (rune_len s) s) @ CHR 0x22 # r) = Some (drop (rune_len s) s, r)"
      using "1.IH" Cons by simp
    show ?thesis
    proof (cases "byte c < 0x80")
      case True
      then have "quote_body s = escape_ascii c @ quote_body cs" using Cons by (subst quote_body.simps) simp
      then show ?thesis using lex_string_escape [OF True] IH Cons rune_len_ascii [OF True, of cs] by simp
    next
      case False
      consider (a) "take 3 s = [CHR 0xE2, CHR 0x80, CHR 0xA8]" | (b) "take 3 s = [CHR 0xE2, CHR 0x80, CHR 0xA9]"
        | (c) "take 3 s \<noteq> [CHR 0xE2, CHR 0x80, CHR 0xA8]" "take 3 s \<noteq> [CHR 0xE2, CHR 0x80, CHR 0xA9]" by blast
      then show ?thesis
      proof cases
        case a
        then have s: "s = [CHR 0xE2, CHR 0x80, CHR 0xA8] @ drop 3 s" by (metis append_take_drop_id)
        have "rune_len s = 3" by (subst s) (simp add: rune_len.simps continuation_def)
        moreover have "quote_body s = CHR 0x5C # ''u2028'' @ quote_body (drop 3 s)"
          using Cons False n a by (subst quote_body.simps) simp
        ultimately show ?thesis using IH lex_string_u2028(1) s by simp
      next
        case b
        then have s: "s = [CHR 0xE2, CHR 0x80, CHR 0xA9] @ drop 3 s" by (metis append_take_drop_id)
        have "rune_len s = 3" by (subst s) (simp add: rune_len.simps continuation_def)
        moreover have "quote_body s = CHR 0x5C # ''u2029'' @ quote_body (drop 3 s)"
          using Cons False n b by (subst quote_body.simps) simp
        ultimately show ?thesis using IH lex_string_u2028(2) s by simp
      next
        case c
        then have "quote_body s = take (rune_len s) s @ quote_body (drop (rune_len s) s)"
          using Cons False n by (subst quote_body.simps) auto
        then show ?thesis using lex_string_rune [OF n Cons False] IH by simp
      qed
    qed
  qed
qed

section \<open>Numbers read back\<close>

lemma digits_value_snoc [simp]: "digits_value (ds @ [c]) = 10 * digits_value ds + (byte c - 48)"
  by (simp add: digits_value_def)

lemma digits_value_single [simp]: "digits_value [c] = byte c - 48"
  by (simp add: digits_value_def)

lemma byte_char_of [simp]: "n < 256 \<Longrightarrow> byte (char_of n) = n"
  by (simp add: of_char_of)

lemma nat_digits_value: "digits_value (nat_digits n) = n"
proof (induction n rule: nat_digits.induct)
  case (1 n)
  then show ?case by (cases "n < 10") (simp_all add: nat_digits.simps [of n])
qed

lemma nat_digits_digits: "c \<in> set (nat_digits n) \<Longrightarrow> is_digit c"
proof (induction n rule: nat_digits.induct)
  case (1 n)
  then show ?case by (cases "n < 10") (auto simp: nat_digits.simps [of n] is_digit_def)
qed

lemma nat_digits_nonempty [simp]: "nat_digits n \<noteq> []"
  by (simp add: nat_digits.simps [of n])

lemma nat_digits_hd: "n \<noteq> 0 \<Longrightarrow> hd (nat_digits n) \<noteq> CHR ''0''"
proof (induction n rule: nat_digits.induct)
  case (1 n)
  show ?case
  proof (cases "n < 10")
    case True
    have "byte (char_of (48 + n)) \<noteq> byte (CHR ''0'')" using 1 True by simp
    then have "char_of (48 + n) \<noteq> CHR ''0''" by metis
    then show ?thesis using True by (simp add: nat_digits.simps [of n])
  next
    case False
    then show ?thesis using 1 by (simp add: nat_digits.simps [of n] div_greater_zero_iff)
  qed
qed

text \<open>What may follow a value inside a document: nothing, or a comma, a bracket or a brace.\<close>

definition value_end :: "string \<Rightarrow> bool" where
  "value_end r \<longleftrightarrow> r = [] \<or> hd r \<in> {CHR '','', CHR '']'', CHR 0x7D}"

lemma value_end_simps [simp]: "value_end []" "value_end (CHR '','' # r)" "value_end (CHR '']'' # r)" "value_end (CHR 0x7D # r)"
  by (simp_all add: value_end_def)

lemma value_end_digits: "value_end r \<Longrightarrow> takeWhile is_digit r = [] \<and> dropWhile is_digit r = r"
  by (cases r) (auto simp: value_end_def is_digit_def)

lemma lex_int_digits:
  assumes "value_end r"
  shows "lex_int (nat_digits n @ r) = Some (nat_digits n, r)"
proof (cases "n = 0")
  case True
  have "nat_digits 0 = ''0''" by code_simp
  then show ?thesis using True by (simp add: lex_int_def)
next
  case False
  obtain c cs where ds: "nat_digits n = c # cs" by (cases "nat_digits n") auto
  have all: "\<forall>x \<in> set (nat_digits n). is_digit x" using nat_digits_digits by blast
  have "takeWhile is_digit (nat_digits n @ r) = nat_digits n" "dropWhile is_digit (nat_digits n @ r) = r"
    using value_end_digits [OF assms] all by (simp_all add: takeWhile_append2 dropWhile_append2)
  moreover have "c \<noteq> CHR ''0''" "is_digit c" using nat_digits_hd [OF False] ds all by auto
  ultimately show ?thesis using ds by (simp add: lex_int_def)
qed

lemma lex_frac_end: "value_end r \<Longrightarrow> lex_frac r = Some ([], r)"
  by (cases r) (auto simp: value_end_def lex_frac_def)

lemma lex_exp_end: "value_end r \<Longrightarrow> lex_exp r = Some (0, r)"
  by (cases r) (auto simp: value_end_def lex_exp_def)

lemma lex_number_Itoa:
  assumes "value_end r"
  shows "lex_number (strconv_Itoa i @ r) = Some (of_int i, r)"
proof -
  have "hd (nat_digits n @ r) \<noteq> CHR ''-''" for n
    using nat_digits_digits [of "hd (nat_digits n)" n] by (auto simp: is_digit_def)
  then show ?thesis
    using assms by (simp add: lex_number_def strconv_Itoa_def Let_def lex_int_digits lex_frac_end lex_exp_end nat_digits_value)
qed

section \<open>Documents read back\<close>

text \<open>
  A value that survives the trip: its strings and keys are valid UTF-8, its keys are distinct, its numbers
  are integers. Below, the tokens \<^verbatim>\<open>Marshal\<close> writes for it, the tree they parse to, and the value they
  decode to, in which numbers are \<^verbatim>\<open>float64\<close> and lists are \<^verbatim>\<open>[]any\<close>.
\<close>

primrec plain :: "goany \<Rightarrow> bool" where
  "plain ANil \<longleftrightarrow> True"
| "plain (ABool b) \<longleftrightarrow> True"
| "plain (AInt i) \<longleftrightarrow> int64_range i"
| "plain (AFloat f) \<longleftrightarrow> False"
| "plain (AString s) \<longleftrightarrow> valid_utf8 s"
| "plain (AStrings ss) \<longleftrightarrow> list_all valid_utf8 ss"
| "plain (AList vs) \<longleftrightarrow> list_all id (map plain vs)"
| "plain (AMap m) \<longleftrightarrow> distinct (map fst m) \<and> list_all valid_utf8 (map fst m) \<and> list_all snd (map (map_prod id plain) m)"

primrec depth :: "goany \<Rightarrow> nat" where
  "depth ANil = 0"
| "depth (ABool b) = 0"
| "depth (AInt i) = 0"
| "depth (AFloat f) = 0"
| "depth (AString s) = 0"
| "depth (AStrings ss) = 1"
| "depth (AList vs) = Suc (foldr max (map depth vs) 0)"
| "depth (AMap m) = Suc (foldr max (map snd (map (map_prod id depth) m)) 0)"

definition commas :: "token list list \<Rightarrow> token list" where
  "commas xs = (case xs of [] \<Rightarrow> [] | x # rest \<Rightarrow> x @ concat (map ((#) Comma) rest))"

primrec toks :: "goany \<Rightarrow> token list" where
  "toks ANil = [NullT]"
| "toks (ABool b) = [BoolT b]"
| "toks (AInt i) = [NumT (of_int i)]"
| "toks (AFloat f) = []"
| "toks (AString s) = [StrT s]"
| "toks (AStrings ss) = LBrack # commas (map (\<lambda>s. [StrT s]) ss) @ [RBrack]"
| "toks (AList vs) = LBrack # commas (map toks vs) @ [RBrack]"
| "toks (AMap m) = LBrace # commas (map (\<lambda>(k, t). StrT k # Colon # t) (sort_key fst (map (map_prod id toks) m))) @ [RBrace]"

primrec tree :: "goany \<Rightarrow> json" where
  "tree ANil = JNull"
| "tree (ABool b) = JBool b"
| "tree (AInt i) = JNum (of_int i)"
| "tree (AFloat f) = JNum f"
| "tree (AString s) = JStr s"
| "tree (AStrings ss) = JArr (map JStr ss)"
| "tree (AList vs) = JArr (map tree vs)"
| "tree (AMap m) = JObj (sort_key fst (map (map_prod id tree) m))"

primrec view :: "goany \<Rightarrow> goany" where
  "view ANil = ANil"
| "view (ABool b) = ABool b"
| "view (AInt i) = AFloat (float64_of_int i)"
| "view (AFloat f) = AFloat f"
| "view (AString s) = AString s"
| "view (AStrings ss) = AList (map AString ss)"
| "view (AList vs) = AList (map view vs)"
| "view (AMap m) = AMap (sort_key fst (map (map_prod id view) m))"

lemma sort_members: "sort_key fst (map (map_prod id h) m) = map (map_prod id h) (sort_key fst m)"
proof (induction m)
  case (Cons p m)
  have "insort_key fst (map_prod id h q) (map (map_prod id h) xs) = map (map_prod id h) (insort_key fst q xs)" for q xs
    by (induction xs) auto
  then show ?case using Cons by (simp add: id_def)
qed simp

lemma foldr_max_le: "x \<in> set xs \<Longrightarrow> (x :: nat) \<le> foldr max xs n"
  by (induction xs) auto

text \<open>The tokens of a document.\<close>

lemma strings_Join_simps [simp]:
  "strings_Join [] sep = ''''"
  "strings_Join (x # xs) sep = x @ concat (map (\<lambda>y. sep @ y) xs)"
  by (simp_all add: strings_Join_def)

lemma commas_simps [simp]: "commas [] = []" "commas (x # xs) = x @ concat (map ((#) Comma) xs)"
  by (simp_all add: commas_def)

lemma lex_punctuation [simp]:
  "lex (CHR 0x7B # r) = map_option ((#) LBrace) (lex r)" "lex (CHR 0x7D # r) = map_option ((#) RBrace) (lex r)"
  "lex (CHR ''['' # r) = map_option ((#) LBrack) (lex r)" "lex (CHR '']'' # r) = map_option ((#) RBrack) (lex r)"
  "lex (CHR '':'' # r) = map_option ((#) Colon) (lex r)" "lex (CHR '','' # r) = map_option ((#) Comma) (lex r)"
  by (subst lex.simps, simp)+

lemma lex_quote [simp]: "valid_utf8 s \<Longrightarrow> lex (quote_string s @ r) = map_option ((#) (StrT s)) (lex r)"
  by (subst lex.simps) (simp add: quote_string_def lex_string_quote)

lemma lex_words:
  "lex (''null'' @ r) = map_option ((#) NullT) (lex r)"
  "lex (''true'' @ r) = map_option ((#) (BoolT True)) (lex r)"
  "lex (''false'' @ r) = map_option ((#) (BoolT False)) (lex r)"
  by (subst lex.simps, simp add: strings_HasPrefix_def)+

lemma lex_Itoa:
  assumes "value_end r"
  shows "lex (strconv_Itoa i @ r) = map_option ((#) (NumT (of_int i))) (lex r)"
proof -
  obtain c cs where c: "strconv_Itoa i = c # cs" and d: "is_digit c \<or> c = CHR ''-''"
  proof (cases "i < 0")
    case False
    obtain d ds where "nat_digits (nat i) = d # ds" by (cases "nat_digits (nat i)") auto
    then show ?thesis using False that [of d ds] nat_digits_digits [of d "nat i"] by (simp add: strconv_Itoa_def)
  qed (simp add: strconv_Itoa_def)
  then have "c \<noteq> CHR 0x22" "c \<notin> set [CHR 0x20, CHR 0x09, CHR 0x0A, CHR 0x0D, CHR 0x7B, CHR 0x7D, CHR ''['', CHR '']'', CHR '':'', CHR '','']"
    "c \<notin> set ''ntf''"
    by (auto simp: is_digit_def)
  then show ?thesis using c lex_number_Itoa [OF assms, of i]
    by (subst lex.simps) (simp add: strings_HasPrefix_def)
qed

lemma lex_join:
  assumes "\<And>x r. x \<in> set xs \<Longrightarrow> value_end r \<Longrightarrow> lex (str x @ r) = map_option ((@) (tok x)) (lex r)" and "value_end r"
  shows "lex (strings_Join (map str xs) '','' @ r) = map_option ((@) (commas (map tok xs))) (lex r)"
proof -
  have rest: "value_end (concat (map (\<lambda>y. '','' @ y) (map str ys)) @ r)
      \<and> lex (concat (map (\<lambda>y. '','' @ y) (map str ys)) @ r) = map_option ((@) (concat (map ((#) Comma) (map tok ys)))) (lex r)"
    if "set ys \<subseteq> set xs" for ys
    using that
  proof (induction ys)
    case Nil
    then show ?case using assms(2) by (simp add: option.map_ident)
  next
    case (Cons y ys)
    then show ?case using assms(1) [of y] by (simp add: option.map_comp comp_def)
  qed
  show ?thesis
  proof (cases xs)
    case (Cons x ys)
    have "set ys \<subseteq> set xs" using Cons by auto
    from rest [OF this] show ?thesis using Cons assms(1) [of x] by (cases "lex r") simp_all
  qed (cases "lex r"; simp)
qed

lemma append_singleton [simp]: "(@) [x] = (#) x" "(@) [] = id"
  by auto

lemma lex_marshal: "plain v \<Longrightarrow> value_end r \<Longrightarrow> lex (marshal v @ r) = map_option ((@) (toks v)) (lex r)"
proof (induction v arbitrary: r)
  case (AStrings ss)
  then have "lex (strings_Join (map quote_string ss) '','' @ '']'' @ r) = map_option ((@) (commas (map (\<lambda>s. [StrT s]) ss))) (lex ('']'' @ r))"
    by (intro lex_join) (auto simp: list_all_iff)
  then show ?case by (cases "lex r") simp_all
next
  case (AList vs)
  then have "lex (strings_Join (map marshal vs) '','' @ '']'' @ r) = map_option ((@) (commas (map toks vs))) (lex ('']'' @ r))"
    by (intro lex_join) (auto simp: list_all_iff)
  then show ?case by (cases "lex r") simp_all
next
  case (AMap m)
  let ?str = "\<lambda>(k, v). quote_string k @ CHR '':'' # marshal v" and ?tok = "\<lambda>(k, v). StrT k # Colon # toks v"
  have "lex (?str p @ r') = map_option ((@) (?tok p)) (lex r')" if "p \<in> set (sort_key fst m)" "value_end r'" for p r'
  proof -
    obtain k v where p: "p = (k, v)" by (cases p)
    then have "valid_utf8 k" "plain v" using AMap.prems(1) that(1) by (fastforce simp: list_all_iff)+
    then show ?thesis using AMap.IH [of p v r'] p that by (cases "lex r'") simp_all
  qed
  then have "lex (strings_Join (map ?str (sort_key fst m)) '','' @ CHR 0x7D # r)
      = map_option ((@) (commas (map ?tok (sort_key fst m)))) (lex (CHR 0x7D # r))"
    by (rule lex_join) simp_all
  then show ?case
    by (cases "lex r") (simp_all add: sort_members comp_def case_prod_unfold)
qed (use lex_words lex_Itoa in \<open>auto simp: option.map_comp\<close>)

text \<open>The parse of the tokens.\<close>

lemma toks_first: "plain v \<Longrightarrow> \<exists>t ts. toks v = t # ts \<and> t \<noteq> RBrack"
  by (cases v) auto


lemma prun_array:
  assumes step: "\<And>x acc ts. x \<in> set xs \<Longrightarrow> prun (tok x @ ts) (Value, FArr acc # st) = prun ts (More None, FArr (tr x # acc) # st)"
    and first: "\<And>x. x \<in> set xs \<Longrightarrow> \<exists>t ts. tok x = t # ts \<and> t \<noteq> RBrack"
    and depth: "length st + 1 \<le> maxNestingDepth"
  shows "prun (LBrack # commas (map tok xs) @ RBrack # ts) (Value, st) = prun ts (deliver (JArr (map tr xs)) st)"
proof -
  have rest: "prun (concat (map ((#) Comma) (map tok ys)) @ RBrack # ts) (More None, FArr acc # st)
      = prun ts (deliver (JArr (rev acc @ map tr ys)) st)" if "set ys \<subseteq> set xs" for ys acc
    using that by (induction ys arbitrary: acc) (auto simp: step)
  show ?thesis
  proof (cases xs)
    case Nil
    then show ?thesis using depth by (simp add: start_value_def)
  next
    case (Cons x ys)
    obtain t us where t: "tok x = t # us" "t \<noteq> RBrack" using first [of x] Cons by auto
    have "prun (tok x @ us') (ValueOrEnd, FArr [] # st) = prun (tok x @ us') (Value, FArr [] # st)" for us'
      using t by simp
    then show ?thesis using Cons depth rest [of ys "[tr x]"] by (auto simp: start_value_def step)
  qed
qed

lemma prun_object:
  assumes step: "\<And>x ms k ts. x \<in> set xs \<Longrightarrow> prun (tok (snd x) @ ts) (Value, FObj ms k # st) = prun ts (More (Some ((k, tr (snd x)) # ms)), st)"
    and depth: "length st + 1 \<le> maxNestingDepth"
  shows "prun (LBrace # commas (map (\<lambda>(k, v). StrT k # Colon # tok v) xs) @ RBrace # ts) (Value, st)
    = prun ts (deliver (JObj (map (map_prod id tr) xs)) st)"
proof -
  let ?tok = "\<lambda>(k, v). StrT k # Colon # tok v"
  have rest: "prun (concat (map ((#) Comma) (map ?tok ys)) @ RBrace # ts) (More (Some ms), st)
      = prun ts (deliver (JObj (rev ms @ map (map_prod id tr) ys)) st)" if "set ys \<subseteq> set xs" for ys ms
    using that
  proof (induction ys arbitrary: ms)
    case (Cons y ys)
    then show ?case using step [of y] by (cases y) simp
  qed simp
  show ?thesis
  proof (cases xs)
    case Nil
    then show ?thesis using depth by (simp add: start_value_def)
  next
    case (Cons x ys)
    have "set ys \<subseteq> set xs" using Cons by auto
    from rest [OF this] show ?thesis using Cons depth step [of x] by (cases x) (simp add: start_value_def)
  qed
qed

lemma prun_toks:
  "plain v \<Longrightarrow> length st + depth v \<le> maxNestingDepth \<Longrightarrow> prun (toks v @ ts) (Value, st) = prun ts (deliver (tree v) st)"
proof (induction v arbitrary: st ts)
  case (AStrings ss)
  have "prun (LBrack # commas (map (\<lambda>s. [StrT s]) ss) @ RBrack # ts) (Value, st) = prun ts (deliver (JArr (map JStr ss)) st)"
    using AStrings.prems by (intro prun_array) (auto simp: start_value_def)
  then show ?case by simp
next
  case (AList vs)
  have d: "length st + 1 \<le> maxNestingDepth" using AList.prems by simp
  have "prun (toks v @ us) (Value, FArr acc # st) = prun us (More None, FArr (tree v # acc) # st)" if "v \<in> set vs" for v acc us
    using AList.IH [OF that, of "FArr acc # st" us] AList.prems that foldr_max_le [of "depth v" "map depth vs" 0]
    by (auto simp: list_all_iff)
  moreover have "\<exists>t ts. toks v = t # ts \<and> t \<noteq> RBrack" if "v \<in> set vs" for v
    using AList.prems(1) that by (intro toks_first) (simp add: list_all_iff)
  ultimately have "prun (LBrack # commas (map toks vs) @ RBrack # ts) (Value, st) = prun ts (deliver (JArr (map tree vs)) st)"
    using d by (rule prun_array)
  then show ?case by simp
next
  case (AMap m)
  have d: "length st + 1 \<le> maxNestingDepth" using AMap.prems by simp
  have "prun (toks (snd p) @ us) (Value, FObj ms k # st) = prun us (More (Some ((k, tree (snd p)) # ms)), st)"
    if "p \<in> set (sort_key fst m)" for p ms k us
    using AMap.IH [of p "snd p" "FObj ms k # st" us] AMap.prems that
      foldr_max_le [of "depth (snd p)" "map snd (map (map_prod id depth) m)" 0]
    by (cases p) (force simp: list_all_iff image_iff)
  then have "prun (LBrace # commas (map (\<lambda>(k, v). StrT k # Colon # toks v) (sort_key fst m)) @ RBrace # ts) (Value, st)
      = prun ts (deliver (JObj (map (map_prod id tree) (sort_key fst m))) st)"
    using d by (rule prun_object)
  then show ?case by (simp add: sort_members comp_def case_prod_unfold)
qed (auto simp: start_value_def)

text \<open>The value decoded from the tree.\<close>

lemma parse_float64_int:
  assumes "int64_range i"
  shows "parse_float64 (of_int i) = Some (float64_of_int i)"
proof -
  have "\<bar>i\<bar> \<le> 2 ^ 63" using assms by (auto simp: int64_range_def)
  then have "- of_int (2 ^ 63) \<le> (of_int i :: rat)" "(of_int i :: rat) \<le> of_int (2 ^ 63)" by linarith+
  then have "fl (- (2 ^ 63)) \<le> fl (of_int i)" "fl (of_int i) \<le> fl (2 ^ 63)" by (auto intro!: fl_mono)
  moreover have "fl (2 ^ 63) = 2 ^ 63" using fl_scaled_int [of 1 63] by simp
  ultimately have small: "\<bar>fl (of_int i)\<bar> < 2 ^ 1024" by (simp add: fl_minus abs_le_iff)
  show ?thesis
  proof (cases "i = 0")
    case False
    then have "\<bar>of_int i :: rat\<bar> \<ge> 1" by linarith
    moreover have "(1 :: rat) / 2 ^ 1022 \<le> 1" by simp
    ultimately have "\<not> \<bar>of_int i :: rat\<bar> < 1 / 2 ^ 1022" by linarith
    then show ?thesis using small by (simp add: parse_float64_def float64_of_int_def)
  qed (use round_even_of_int [of 0] in \<open>simp add: parse_float64_def float64_of_int_def\<close>)
qed

lemma those_map_Some: "those (map (\<lambda>x. Some (f x)) xs) = Some (map f xs)"
  by (induction xs) simp_all

lemma update_new: "k \<notin> fst ` set m \<Longrightarrow> m_put k v m = m @ [(k, v)]"
  by (simp add: m_put_new map_of_eq_None_iff)

lemma put_all_distinct: "distinct (map fst kvs) \<Longrightarrow> put_all kvs = kvs"
  using fold_put_id [of "[]" kvs] by (simp add: put_all_def gomap_wf_def)

lemma distinct_sort_members: "distinct (map fst (sort_key fst m)) \<longleftrightarrow> distinct (map fst m)"
proof (induction m)
  case (Cons p m)
  have "distinct (map fst (insort_key fst p xs)) \<longleftrightarrow> fst p \<notin> fst ` set xs \<and> distinct (map fst xs)" for xs
    by (induction xs) (auto simp: set_insort_key)
  then show ?case using Cons by simp
qed simp

lemma to_any_tree: "plain v \<Longrightarrow> to_any (tree v) = Some (view v)"
proof (induction v)
  case (AStrings ss)
  then show ?case by (simp add: comp_def those_map_Some)
next
  case (AList vs)
  then have "map (to_any \<circ> tree) vs = map (\<lambda>v. Some (view v)) vs" by (auto simp: list_all_iff)
  then show ?case unfolding tree.simps to_any.simps map_map by (simp only: those_map_Some) simp
next
  case (AMap m)
  have "map (\<lambda>(k, v). map_option (Pair k) v) (map (map_prod id to_any) (map (map_prod id tree) (sort_key fst m)))
      = map (\<lambda>p. Some (map_prod id view p)) (sort_key fst m)"
    using AMap by (force simp: list_all_iff)
  moreover have "distinct (map fst (map (map_prod id view) (sort_key fst m)))"
    using AMap.prems distinct_sort_members [of m] by (simp add: comp_def)
  ultimately show ?case
    unfolding tree.simps to_any.simps sort_members by (simp only: those_map_Some) (simp add: put_all_distinct sort_members)
qed (auto simp: parse_float64_int)

lemma parse_marshal:
  assumes "plain v" "depth v \<le> maxNestingDepth"
  shows "parse_json (marshal v) = Some (tree v)"
proof -
  have "lex [] = Some []" by (subst lex.simps) simp
  then have "lex (marshal v) = Some (toks v)" using lex_marshal [OF assms(1), of "[]"] by simp
  moreover have "prun (toks v) (Value, []) = Some (Finished (tree v), [])"
    using prun_toks [OF assms(1), of "[]" "[]"] assms(2) by simp
  ultimately show ?thesis by (simp add: parse_json_def)
qed

text \<open>An object read back: the same keys, each with the view of its value.\<close>

lemma unmarshal_marshal:
  assumes "plain (AMap m)" "depth (AMap m) \<le> maxNestingDepth"
  shows "unmarshal_map (marshal (AMap m)) = Some (map (map_prod id view) (sort_key fst m))"
proof -
  let ?t = "JObj (sort_key fst (map (map_prod id tree) m))"
  have "parse_json (marshal (AMap m)) = Some ?t" "to_any ?t = Some (AMap (sort_key fst (map (map_prod id view) m)))"
    using parse_marshal [OF assms] to_any_tree [OF assms(1)] by (simp_all only: tree.simps view.simps)
  then show ?thesis by (simp add: unmarshal_map_def sort_members del: to_any.simps)
qed

lemma m_get_sort: "distinct (map fst m) \<Longrightarrow> m_get (sort_key fst m) k = m_get m k"
  using distinct_sort_members [of m] by (metis map_of_eqI map_of_inject_set set_sort)

lemma m_get_view: "m_get (map (map_prod id view) m) k = map_option view (m_get m k)"
  by (induction m) auto

end
