(* ===== verification/GoEncoding.thy ===== *)
theory GoEncoding
  imports JsonRoundTrip
begin

text \<open>
  The text encodings that tokens and signatures use: \<^verbatim>\<open>encoding/base64\<close> with \<^verbatim>\<open>RawURLEncoding\<close>,
  \<^verbatim>\<open>strings.Split\<close> at one character, \<^verbatim>\<open>strings.Fields\<close> and \<^verbatim>\<open>strconv.ParseInt\<close>, with their round trips.
\<close>

section \<open>Base64\<close>

text \<open>Bytes are the characters of a string; a character of the encoding carries six bits.\<close>

definition b64_char :: "nat \<Rightarrow> char" where
  "b64_char n =
     (if n < 26 then char_of (65 + n) else if n < 52 then char_of (71 + n) else if n < 62 then char_of (n - 4)
      else if n = 62 then CHR ''-'' else CHR ''_'')"

definition b64_value :: "char \<Rightarrow> nat option" where
  "b64_value c =
     (let b = byte c in
      if 65 \<le> b \<and> b \<le> 90 then Some (b - 65) else if 97 \<le> b \<and> b \<le> 122 then Some (b - 71)
      else if 48 \<le> b \<and> b \<le> 57 then Some (b + 4) else if b = 45 then Some 62 else if b = 95 then Some 63 else None)"

fun sextets :: "nat list \<Rightarrow> nat list" where
  "sextets (a # b # c # r) = a div 4 # (a mod 4 * 16 + b div 16) # (b mod 16 * 4 + c div 64) # c mod 64 # sextets r"
| "sextets [a, b] = [a div 4, a mod 4 * 16 + b div 16, b mod 16 * 4]"
| "sextets [a] = [a div 4, a mod 4 * 16]"
| "sextets [] = []"

text \<open>The decoder drops the unused low bits of the last character, whatever they are.\<close>

fun octets :: "nat list \<Rightarrow> nat list option" where
  "octets (a # b # c # d # r) =
     map_option (\<lambda>t. (a * 4 + b div 16) # (b mod 16 * 16 + c div 4) # (c mod 4 * 64 + d) # t) (octets r)"
| "octets [a, b, c] = Some [a * 4 + b div 16, b mod 16 * 16 + c div 4]"
| "octets [a, b] = Some [a * 4 + b div 16]"
| "octets [a] = None"
| "octets [] = Some []"

definition base64_EncodeToString :: "string \<Rightarrow> string" where
  "base64_EncodeToString s = map b64_char (sextets (map of_char s))"

text \<open>Line breaks are skipped wherever they stand.\<close>

definition base64_DecodeString :: "string \<Rightarrow> string option" where
  "base64_DecodeString s =
     Option.bind (those (map b64_value (filter (\<lambda>c. c \<noteq> CHR 0x0A \<and> c \<noteq> CHR 0x0D) s)))
       (\<lambda>vs. map_option (map char_of) (octets vs))"

section \<open>Splitting\<close>

fun strings_Split :: "char \<Rightarrow> string \<Rightarrow> string list" where
  "strings_Split sep [] = [[]]"
| "strings_Split sep (c # cs) =
     (if c = sep then [] # strings_Split sep cs
      else case strings_Split sep cs of p # ps \<Rightarrow> (c # p) # ps | [] \<Rightarrow> [[c]])"

text \<open>The pieces between runs of white space.\<close>

fun fields_loop :: "nat \<Rightarrow> string \<Rightarrow> string \<Rightarrow> string list" where
  "fields_loop 0 cur s = []"
| "fields_loop (Suc n) cur s =
     (let flush = (\<lambda>rest. if cur = '''' then rest else rev cur # rest) in
      case s of [] \<Rightarrow> flush []
      | c # cs \<Rightarrow>
          (case find (\<lambda>w. prefix w s) space_runes of
             Some w \<Rightarrow> flush (fields_loop n [] (drop (length w) s))
           | None \<Rightarrow> fields_loop n (c # cur) cs))"

definition strings_Fields :: "string \<Rightarrow> string list" where
  "strings_Fields s = fields_loop (length s + 1) [] s"

section \<open>Numbers\<close>

text \<open>\<^verbatim>\<open>strconv.ParseInt\<close> in base ten for 64 bits: an optional sign and digits, within the range.\<close>

definition strconv_ParseInt :: "string \<Rightarrow> int option" where
  "strconv_ParseInt s =
     (let neg = (s \<noteq> [] \<and> hd s = CHR ''-'');
          ds = (if s \<noteq> [] \<and> (hd s = CHR ''-'' \<or> hd s = CHR ''+'') then tl s else s)
      in if ds = [] \<or> \<not> list_all is_digit ds then None
         else let v = (if neg then - int (digits_value ds) else int (digits_value ds)) in if int64_range v then Some v else None)"

section \<open>Round trips\<close>

lemma b64_value_char: "n < 64 \<Longrightarrow> b64_value (b64_char n) = Some n"
  by (auto simp: b64_value_def b64_char_def Let_def)

lemma b64_char_plain: "n < 64 \<Longrightarrow> b64_char n \<notin> {CHR 0x0A, CHR 0x0D, CHR ''.''}"
  using b64_value_char [of n] by (auto simp: b64_value_def)

lemma sextets_less: "list_all (\<lambda>b. b < 256) bs \<Longrightarrow> n \<in> set (sextets bs) \<Longrightarrow> n < 64"
  by (induction bs rule: sextets.induct) auto

lemma regroup:
  assumes "a < 256" "b < 256" "c < (256 :: nat)"
  shows "a div 4 * 4 + (a mod 4 * 16 + b div 16) div 16 = a"
    "(a mod 4 * 16 + b div 16) mod 16 * 16 + (b mod 16 * 4 + c div 64) div 4 = b"
    "(b mod 16 * 4 + c div 64) mod 4 * 64 + c mod 64 = c"
proof -
  have "b div 16 < 16" "c div 64 < 4" using assms by auto
  then have "(a mod 4 * 16 + b div 16) div 16 = a mod 4" "(a mod 4 * 16 + b div 16) mod 16 = b div 16"
    "(b mod 16 * 4 + c div 64) div 4 = b mod 16" "(b mod 16 * 4 + c div 64) mod 4 = c div 64"
    by simp_all
  then show "a div 4 * 4 + (a mod 4 * 16 + b div 16) div 16 = a"
    "(a mod 4 * 16 + b div 16) mod 16 * 16 + (b mod 16 * 4 + c div 64) div 4 = b"
    "(b mod 16 * 4 + c div 64) mod 4 * 64 + c mod 64 = c"
    by simp_all
qed

lemma octets_sextets: "list_all (\<lambda>b. b < 256) bs \<Longrightarrow> octets (sextets bs) = Some bs"
proof (induction bs rule: sextets.induct)
  case (1 a b c r)
  then show ?case using regroup [of a b c] by simp
next
  case (2 a b)
  then show ?case using regroup [of a b 0] by simp
next
  case (3 a)
  then show ?case using regroup [of a 0 0] by simp
qed simp

lemma bytes_of_string: "list_all (\<lambda>b. b < 256) (map byte s)"
  by (simp add: list_all_iff)

lemma encode_chars: "c \<in> set (base64_EncodeToString s) \<Longrightarrow> c \<notin> {CHR 0x0A, CHR 0x0D, CHR ''.''}"
  unfolding base64_EncodeToString_def using b64_char_plain sextets_less [OF bytes_of_string] by auto

lemma those_map: "(\<And>x. x \<in> set xs \<Longrightarrow> f x = Some (g x)) \<Longrightarrow> those (map f xs) = Some (map g xs)"
  by (induction xs) simp_all

theorem base64_roundtrip: "base64_DecodeString (base64_EncodeToString s) = Some s"
proof -
  let ?bs = "map byte s"
  have "filter (\<lambda>c. c \<noteq> CHR 0x0A \<and> c \<noteq> CHR 0x0D) (base64_EncodeToString s) = base64_EncodeToString s"
    using encode_chars [of _ s] by (auto simp: filter_id_conv)
  moreover have "those (map b64_value (map b64_char (sextets ?bs))) = Some (map id (sextets ?bs))"
    unfolding map_map by (rule those_map) (simp add: b64_value_char sextets_less [OF bytes_of_string])
  moreover have "map char_of ?bs = s" by (simp add: comp_def map_idI)
  ultimately show ?thesis
    using octets_sextets [OF bytes_of_string, of s] by (simp add: base64_DecodeString_def base64_EncodeToString_def)
qed

lemma Split_nonempty [simp]: "strings_Split sep s \<noteq> []"
  by (induction s) (auto split: list.split)

lemma Split_join: "sep \<notin> set p \<Longrightarrow> strings_Split sep (p @ sep # s) = p # strings_Split sep s"
  by (induction p) auto

lemma Split_single: "sep \<notin> set p \<Longrightarrow> strings_Split sep p = [p]"
  by (induction p) auto

lemma Split_parts: "p \<in> set (strings_Split sep s) \<Longrightarrow> sep \<notin> set p"
proof (induction s arbitrary: p)
  case (Cons c cs)
  then show ?case by (cases "strings_Split sep cs") (auto split: if_splits)
qed simp

lemma Split_concat: "strings_Split sep s = ps \<Longrightarrow> s = strings_Join ps [sep]"
proof (induction s arbitrary: ps)
  case Nil
  then show ?case by (auto simp: strings_Join_def)
next
  case (Cons c cs)
  obtain q qs where q: "strings_Split sep cs = q # qs" by (cases "strings_Split sep cs") auto
  then show ?case using Cons.IH [OF q] Cons.prems by (auto simp: strings_Join_def)
qed

lemma ParseInt_Itoa: "int64_range i \<Longrightarrow> strconv_ParseInt (strconv_Itoa i) = Some i"
proof -
  assume i: "int64_range i"
  have digit: "hd (nat_digits n) \<noteq> CHR ''-''" "hd (nat_digits n) \<noteq> CHR ''+''" "list_all is_digit (nat_digits n)" for n
    using nat_digits_digits [of "hd (nat_digits n)" n] nat_digits_digits by (auto simp: is_digit_def list_all_iff)
  show ?thesis using i by (auto simp: strconv_ParseInt_def strconv_Itoa_def digit nat_digits_value)
qed

end
