(* ===== verification/Auth.thy ===== *)
theory Auth
  imports GoEncoding Sha256
begin

text \<open>
  Principals, bearer tokens and role-based access control (\<^verbatim>\<open>src/core/auth/token.go\<close>,
  \<^verbatim>\<open>src/core/auth/rbac.go\<close>). A context is the principal it carries, if any; a validator maps a
  context and a token to the new context, or to the context and an error.
\<close>

section \<open>Definitions\<close>

definition BearerPrefix :: string where "BearerPrefix = ''Bearer ''"

definition ErrMissingCredentials :: goerror where "ErrMissingCredentials = Err ''missing credentials''"
definition ErrInvalidCredentials :: goerror where "ErrInvalidCredentials = Err ''invalid credentials''"
definition ErrPermissionDenied :: goerror where "ErrPermissionDenied = Err ''permission denied''"

record Principal =
  p_Subject :: string
  p_Roles :: "string list"
  p_Permissions :: "string list"
  p_Claims :: "(string, goany) gomap"

fun role_loop :: "string list \<Rightarrow> string \<Rightarrow> bool" where
  "role_loop [] role = False"
| "role_loop (r # rs) role = (if r = role then True else role_loop rs role)"

definition HasRole :: "Principal \<Rightarrow> string \<Rightarrow> bool" where
  "HasRole p role = role_loop (p_Roles p) role"

fun HasAnyRole :: "Principal \<Rightarrow> string list \<Rightarrow> bool" where
  "HasAnyRole p [] = False"
| "HasAnyRole p (role # roles) = (if HasRole p role then True else HasAnyRole p roles)"

fun HasAllRoles :: "Principal \<Rightarrow> string list \<Rightarrow> bool" where
  "HasAllRoles p [] = True"
| "HasAllRoles p (role # roles) = (if \<not> HasRole p role then False else HasAllRoles p roles)"

definition permissionMatches :: "string \<Rightarrow> string \<Rightarrow> bool" where
  "permissionMatches granted required =
     (if granted = required \<or> granted = ''*'' then True
      else if strings_HasSuffix granted '':*'' then strings_HasPrefix required (strings_TrimSuffix granted ''*'')
      else False)"

fun permission_loop :: "string list \<Rightarrow> string \<Rightarrow> bool" where
  "permission_loop [] permission = False"
| "permission_loop (granted # rest) permission =
     (if permissionMatches granted permission then True else permission_loop rest permission)"

definition HasPermission :: "Principal \<Rightarrow> string \<Rightarrow> bool" where
  "HasPermission p permission = permission_loop (p_Permissions p) permission"

fun HasAnyPermission :: "Principal \<Rightarrow> string list \<Rightarrow> bool" where
  "HasAnyPermission p [] = False"
| "HasAnyPermission p (q # qs) = (if HasPermission p q then True else HasAnyPermission p qs)"

fun HasAllPermissions :: "Principal \<Rightarrow> string list \<Rightarrow> bool" where
  "HasAllPermissions p [] = True"
| "HasAllPermissions p (q # qs) = (if \<not> HasPermission p q then False else HasAllPermissions p qs)"

type_synonym authctx = "Principal option"
type_synonym Validator = "authctx \<Rightarrow> string \<Rightarrow> authctx \<times> goerror option"

definition NewContext :: "authctx \<Rightarrow> Principal \<Rightarrow> authctx" where
  "NewContext ctx pr = Some pr"

definition FromContext :: "authctx \<Rightarrow> Principal option" where
  "FromContext ctx = ctx"

definition SubjectFromContext :: "authctx \<Rightarrow> string" where
  "SubjectFromContext ctx = (case FromContext ctx of None \<Rightarrow> '''' | Some pr \<Rightarrow> p_Subject pr)"

definition StaticTokenValidator :: "string \<Rightarrow> string \<Rightarrow> Validator" where
  "StaticTokenValidator expected subject ctx token =
     (if expected = '''' \<or> token = '''' then (ctx, Some ErrMissingCredentials)
      else if token \<noteq> expected then (ctx, Some ErrInvalidCredentials)
      else (NewContext ctx \<lparr>p_Subject = subject, p_Roles = [], p_Permissions = [], p_Claims = []\<rparr>, None))"

text \<open>\<^verbatim>\<open>strings.EqualFold\<close> with the prefix: none of its letters folds to a character outside ASCII.\<close>

definition ExtractBearer :: "string \<Rightarrow> string \<times> bool" where
  "ExtractBearer header =
     (let header = strings_TrimSpace header; n = length BearerPrefix
      in if length header < n \<or> map ascii_lower (take n header) \<noteq> map ascii_lower BearerPrefix then ('''', False)
         else let token = strings_TrimSpace (drop n header) in (token, token \<noteq> ''''))"

definition BearerValue :: "string \<Rightarrow> string" where
  "BearerValue token = (if token = '''' then '''' else BearerPrefix @ token)"

record Requirement =
  q_Roles :: "string list"
  q_AnyRole :: "string list"
  q_Permissions :: "string list"
  q_AnyPermission :: "string list"

definition Satisfied :: "Requirement \<Rightarrow> Principal \<Rightarrow> bool" where
  "Satisfied r p =
     (if q_Roles r \<noteq> [] \<and> \<not> HasAllRoles p (q_Roles r) then False
      else if q_AnyRole r \<noteq> [] \<and> \<not> HasAnyRole p (q_AnyRole r) then False
      else if q_Permissions r \<noteq> [] \<and> \<not> HasAllPermissions p (q_Permissions r) then False
      else if q_AnyPermission r \<noteq> [] \<and> \<not> HasAnyPermission p (q_AnyPermission r) then False
      else True)"

definition RequireRoles :: "string list \<Rightarrow> Requirement" where
  "RequireRoles roles = \<lparr>q_Roles = roles, q_AnyRole = [], q_Permissions = [], q_AnyPermission = []\<rparr>"

definition RequireAnyRole :: "string list \<Rightarrow> Requirement" where
  "RequireAnyRole roles = \<lparr>q_Roles = [], q_AnyRole = roles, q_Permissions = [], q_AnyPermission = []\<rparr>"

definition RequirePermissions :: "string list \<Rightarrow> Requirement" where
  "RequirePermissions perms = \<lparr>q_Roles = [], q_AnyRole = [], q_Permissions = perms, q_AnyPermission = []\<rparr>"

definition RequireAnyPermission :: "string list \<Rightarrow> Requirement" where
  "RequireAnyPermission perms = \<lparr>q_Roles = [], q_AnyRole = [], q_Permissions = [], q_AnyPermission = perms\<rparr>"

definition Authorize :: "authctx \<Rightarrow> Requirement \<Rightarrow> goerror option" where
  "Authorize ctx req =
     (case FromContext ctx of
        None \<Rightarrow> Some ErrMissingCredentials
      | Some pr \<Rightarrow> if \<not> Satisfied req pr then Some ErrPermissionDenied else None)"

section \<open>Roles and permissions\<close>

named_theorems auth_simps

lemma auth_errors_distinct [simp]:
  "ErrMissingCredentials \<noteq> ErrInvalidCredentials" "ErrInvalidCredentials \<noteq> ErrMissingCredentials"
  "ErrPermissionDenied \<noteq> ErrInvalidCredentials" "ErrInvalidCredentials \<noteq> ErrPermissionDenied"
  "ErrPermissionDenied \<noteq> ErrMissingCredentials" "ErrMissingCredentials \<noteq> ErrPermissionDenied"
  by (simp_all add: ErrMissingCredentials_def ErrInvalidCredentials_def ErrPermissionDenied_def)

lemma HasRole_iff [auth_simps]: "HasRole p r \<longleftrightarrow> r \<in> set (p_Roles p)"
proof -
  have "role_loop rs r \<longleftrightarrow> r \<in> set rs" for rs by (induction rs) auto
  then show ?thesis by (simp add: HasRole_def)
qed

lemma HasAnyRole_iff [auth_simps]: "HasAnyRole p rs \<longleftrightarrow> set rs \<inter> set (p_Roles p) \<noteq> {}"
  by (induction rs) (auto simp: HasRole_iff)

lemma HasAllRoles_iff [auth_simps]: "HasAllRoles p rs \<longleftrightarrow> set rs \<subseteq> set (p_Roles p)"
  by (induction rs) (auto simp: HasRole_iff)

lemma HasPermission_iff [auth_simps]: "HasPermission p q \<longleftrightarrow> (\<exists>g \<in> set (p_Permissions p). permissionMatches g q)"
proof -
  have "permission_loop gs q \<longleftrightarrow> (\<exists>g \<in> set gs. permissionMatches g q)" for gs by (induction gs) auto
  then show ?thesis by (simp add: HasPermission_def)
qed

lemma HasAnyPermission_iff [auth_simps]: "HasAnyPermission p qs \<longleftrightarrow> (\<exists>q \<in> set qs. HasPermission p q)"
  by (induction qs) auto

lemma HasAllPermissions_iff [auth_simps]: "HasAllPermissions p qs \<longleftrightarrow> (\<forall>q \<in> set qs. HasPermission p q)"
  by (induction qs) auto

lemma HasSuffix_iff: "strings_HasSuffix s p \<longleftrightarrow> suffix p s"
  by (auto simp: strings_HasSuffix_def suffix_def) (metis append_take_drop_id)

lemma HasPrefix_iff: "strings_HasPrefix s p \<longleftrightarrow> prefix p s"
  by (auto simp: strings_HasPrefix_def prefix_def) (metis append_take_drop_id)

text \<open>What a grant covers: itself, everything for \<open>*\<close>, and for \<open>area:*\<close> everything under \<open>area:\<close>.\<close>

lemma permissionMatches_iff:
  "permissionMatches g q \<longleftrightarrow> g = q \<or> g = ''*'' \<or> (\<exists>area. g = area @ '':*'' \<and> prefix (area @ '':'') q)"
proof -
  have "strings_TrimSuffix (area @ '':*'') ''*'' = area @ '':''" for area
    by (simp add: strings_TrimSuffix_def strings_HasSuffix_def)
  then show ?thesis by (auto simp: permissionMatches_def HasSuffix_iff HasPrefix_iff suffix_def)
qed

text \<open>Grants compose: what is granted by a permission that is itself granted is granted.\<close>

lemma permissionMatches_trans:
  assumes "permissionMatches a b" "permissionMatches b c"
  shows "permissionMatches a c"
proof -
  consider (eq) "a = b" | (star) "a = ''*''" | (area) x where "a = x @ '':*''" "prefix (x @ '':'') b"
    using assms(1) by (auto simp: permissionMatches_iff)
  then show ?thesis
  proof cases
    case area
    consider "b = c" | "b = ''*''" | y where "b = y @ '':*''" "prefix (y @ '':'') c"
      using assms(2) by (auto simp: permissionMatches_iff)
    then have "prefix (x @ '':'') c"
    proof cases
      case 2
      then show ?thesis using area by (cases x) auto
    next
      case (3 y)
      have "prefix (x @ '':'') ((y @ '':'') @ ''*'')" using area 3 by simp
      then have "prefix (x @ '':'') (y @ '':'')" by (auto simp: prefix_append prefix_Cons)
      then show ?thesis using 3 prefix_order.trans by blast
    qed (use area in simp)
    then show ?thesis using area by (auto simp: permissionMatches_iff)
  qed (use assms in \<open>auto simp: permissionMatches_iff\<close>)
qed

section \<open>Bearer tokens\<close>

lemma long_space_runes: "list_all (\<lambda>w. length w \<ge> 2 \<longrightarrow> CHR '' '' \<notin> set w) space_runes"
  by (simp add: space_runes_def)

lemma BearerPrefix_not_space: "left_trimmed (BearerPrefix @ t)"
  by (simp add: left_trimmed_def space_runes_def BearerPrefix_def)

lemma right_trimmed_Bearer:
  assumes "right_trimmed t" "t \<noteq> []"
  shows "right_trimmed (BearerPrefix @ t)"
  unfolding right_trimmed_def
proof
  fix w assume w: "w \<in> set space_runes"
  show "\<not> suffix w (BearerPrefix @ t)"
  proof
    assume "suffix w (BearerPrefix @ t)"
    moreover have "\<not> suffix w t" using assms(1) w by (simp add: right_trimmed_def)
    ultimately obtain x where x: "w = x @ t" "suffix x BearerPrefix" unfolding suffix_append by blast
    with \<open>\<not> suffix w t\<close> have "x \<noteq> []" by auto
    obtain y where "BearerPrefix = y @ x" using x(2) by (rule suffixE)
    then have "last x = last BearerPrefix" using last_appendR [OF \<open>x \<noteq> []\<close>, of y] by argo
    then have "CHR '' '' \<in> set w" using x(1) last_in_set [OF \<open>x \<noteq> []\<close>] by (simp add: BearerPrefix_def)
    moreover have "length w \<ge> 2" using x(1) \<open>x \<noteq> []\<close> assms(2) by (cases x; cases t) simp_all
    ultimately show False using long_space_runes w unfolding list_all_iff by blast
  qed
qed

text \<open>
  A client that sends \<^verbatim>\<open>BearerValue(token)\<close> and a server that reads the header with \<^verbatim>\<open>ExtractBearer\<close>
  agree on the token, if it neither starts nor ends with white space and is not empty; the header may
  gain white space on the way, and the scheme is not case-sensitive.
\<close>

lemma ExtractBearer_BearerValue:
  assumes "left_trimmed t" "right_trimmed t" "t \<noteq> []" "strings_TrimSpace h = p @ t" "map ascii_lower p = map ascii_lower BearerPrefix"
  shows "ExtractBearer h = (t, True)"
proof -
  have "length p = length BearerPrefix" using assms(5) by (metis length_map)
  then show ?thesis using assms by (simp add: ExtractBearer_def Let_def TrimSpace_id)
qed

lemma ExtractBearer_exact:
  assumes "left_trimmed t" "right_trimmed t" "t \<noteq> []"
  shows "ExtractBearer (BearerValue t) = (t, True)"
proof -
  have "strings_TrimSpace (BearerValue t) = BearerPrefix @ t"
    using assms BearerPrefix_not_space right_trimmed_Bearer by (simp add: BearerValue_def TrimSpace_id)
  then show ?thesis using ExtractBearer_BearerValue assms by blast
qed

lemma star_suffix_is_literal: "permissionMatches ''orders*'' q \<longleftrightarrow> q = ''orders*''"
proof -
  have "''orders*'' \<noteq> area @ '':*''" for area
  proof
    assume eq: "''orders*'' = area @ '':*''"
    have "butlast ''orders*'' = butlast (area @ '':*'')" by (simp only: eq)
    then have "''orders'' = area @ '':''" by (simp add: butlast_append)
    then have "last ''orders'' = last (area @ '':'')" by (simp only:)
    then show False by simp
  qed
  then show ?thesis by (auto simp: permissionMatches_iff)
qed

end
