(* ===== verification/JWT.thy ===== *)
theory JWT
  imports Auth
begin

text \<open>
  Signed tokens (\<^verbatim>\<open>src/core/auth/jwt.go\<close>) and the keyring that rotates their keys
  (\<^verbatim>\<open>src/core/auth/keyring.go\<close>). Claims are a record, further claims a map to dynamic values; the clock
  is an argument. \<^verbatim>\<open>json.Marshal\<close> fails on none of the dynamic values of the model, so its error
  branches have no counterpart; nor has \<^verbatim>\<open>json.Number\<close>, which decoding into \<^verbatim>\<open>any\<close> does not produce.
\<close>

section \<open>Definitions\<close>

definition jwtAlgorithmHS256 :: string where "jwtAlgorithmHS256 = ''HS256''"

definition ErrExpiredToken :: goerror where "ErrExpiredToken = Err ''expired token''"

record JWTClaims =
  c_Subject :: string
  c_Issuer :: string
  c_Audience :: string
  c_ExpiresAt :: int
  c_IssuedAt :: int
  c_NotBefore :: int
  c_Extra :: "(string, goany) gomap"

definition no_claims :: JWTClaims where
  "no_claims = \<lparr>c_Subject = '''', c_Issuer = '''', c_Audience = '''', c_ExpiresAt = 0, c_IssuedAt = 0, c_NotBefore = 0, c_Extra = []\<rparr>"

record JWTOptions =
  o_Issuer :: string
  o_Audience :: string

definition bytes_of :: "string \<Rightarrow> 8 word list" where
  "bytes_of s = map (\<lambda>c. of_nat (byte c)) s"

definition signHS256 :: "string \<Rightarrow> string \<Rightarrow> string" where
  "signHS256 input secret = map (\<lambda>b. char_of (unat b)) (hmac_sha256 (bytes_of secret) (bytes_of input))"

definition put_if :: "bool \<Rightarrow> string \<Rightarrow> goany \<Rightarrow> (string, goany) gomap \<Rightarrow> (string, goany) gomap" where
  "put_if b key v m = (if b then m_put key v m else m)"

definition marshalClaims :: "JWTClaims \<Rightarrow> string" where
  "marshalClaims claims =
     (let values = c_Extra claims;
          values = put_if (c_Subject claims \<noteq> '''') ''sub'' (AString (c_Subject claims)) values;
          values = put_if (c_Issuer claims \<noteq> '''') ''iss'' (AString (c_Issuer claims)) values;
          values = put_if (c_Audience claims \<noteq> '''') ''aud'' (AString (c_Audience claims)) values;
          values = put_if (c_ExpiresAt claims > 0) ''exp'' (AInt (c_ExpiresAt claims)) values;
          values = put_if (c_IssuedAt claims > 0) ''iat'' (AInt (c_IssuedAt claims)) values;
          values = put_if (c_NotBefore claims > 0) ''nbf'' (AInt (c_NotBefore claims)) values
      in marshal (AMap values))"

definition jwt_header :: "string \<Rightarrow> (string, goany) gomap" where
  "jwt_header kid =
     [(''alg'', AString jwtAlgorithmHS256), (''typ'', AString ''JWT'')] @ (if kid \<noteq> '''' then [(''kid'', AString kid)] else [])"

definition SignJWTWithKID :: "JWTClaims \<Rightarrow> string \<Rightarrow> string \<Rightarrow> goerror + string" where
  "SignJWTWithKID claims kid secret =
     (if secret = '''' then Inl ErrMissingCredentials
      else let headerData = marshal (AMap (jwt_header kid));
               payloadData = marshalClaims claims;
               signingInput = base64_EncodeToString headerData @ ''.'' @ base64_EncodeToString payloadData;
               signature = signHS256 signingInput secret
           in Inr (signingInput @ ''.'' @ base64_EncodeToString signature))"

definition SignJWT :: "JWTClaims \<Rightarrow> string \<Rightarrow> goerror + string" where
  "SignJWT claims secret = SignJWTWithKID claims '''' secret"

text \<open>Conversion of a \<^verbatim>\<open>float64\<close> to \<^verbatim>\<open>int64\<close>: towards zero, and the least integer if it does not fit (amd64).\<close>

definition int64_of_float64 :: "float64 \<Rightarrow> int" where
  "int64_of_float64 f =
     (let n = (if f \<ge> 0 then \<lfloor>f\<rfloor> else \<lceil>f\<rceil>) in if int64_range n then n else - (2 ^ 63))"

definition jsonNumberInt64 :: "goany \<Rightarrow> int" where
  "jsonNumberInt64 v = (case v of AFloat f \<Rightarrow> int64_of_float64 f | _ \<Rightarrow> 0)"

definition as_string :: "goany \<Rightarrow> string" where
  "as_string v = (case v of AString s \<Rightarrow> s | _ \<Rightarrow> '''')"

definition set_claim :: "string \<Rightarrow> goany \<Rightarrow> JWTClaims \<Rightarrow> JWTClaims" where
  "set_claim key v claims =
     (if key = ''sub'' then claims\<lparr>c_Subject := as_string v\<rparr>
      else if key = ''iss'' then claims\<lparr>c_Issuer := as_string v\<rparr>
      else if key = ''aud'' then claims\<lparr>c_Audience := as_string v\<rparr>
      else if key = ''exp'' then claims\<lparr>c_ExpiresAt := jsonNumberInt64 v\<rparr>
      else if key = ''iat'' then claims\<lparr>c_IssuedAt := jsonNumberInt64 v\<rparr>
      else if key = ''nbf'' then claims\<lparr>c_NotBefore := jsonNumberInt64 v\<rparr>
      else claims\<lparr>c_Extra := m_put key v (c_Extra claims)\<rparr>)"

definition unmarshalClaims :: "string \<Rightarrow> goerror + JWTClaims" where
  "unmarshalClaims data =
     (case unmarshal_map data of
        None \<Rightarrow> Inl ErrInvalidCredentials
      | Some raw \<Rightarrow> Inr (fold (\<lambda>(key, v). set_claim key v) raw no_claims))"

definition time_Unix :: "time \<Rightarrow> int" where
  "time_Unix t = (t - unixEpoch) div Second"

definition validateClaims :: "JWTClaims \<Rightarrow> JWTOptions \<Rightarrow> time \<Rightarrow> goerror option" where
  "validateClaims claims opts now =
     (if c_ExpiresAt claims > 0 \<and> time_Unix now \<ge> c_ExpiresAt claims then Some ErrExpiredToken
      else if c_NotBefore claims > 0 \<and> time_Unix now < c_NotBefore claims then Some ErrInvalidCredentials
      else if o_Issuer opts \<noteq> '''' \<and> c_Issuer claims \<noteq> o_Issuer opts then Some ErrInvalidCredentials
      else if o_Audience opts \<noteq> '''' \<and> c_Audience claims \<noteq> o_Audience opts then Some ErrInvalidCredentials
      else None)"

text \<open>A header with its fields, if it decodes and names the algorithm.\<close>

definition header_fields :: "string list \<Rightarrow> string \<Rightarrow> (string \<Rightarrow> string) option" where
  "header_fields names part =
     (case base64_DecodeString part of
        None \<Rightarrow> None
      | Some headerData \<Rightarrow>
          (case unmarshal_strings names headerData of
             None \<Rightarrow> None
           | Some f \<Rightarrow> if f ''alg'' \<noteq> jwtAlgorithmHS256 then None else Some f))"

definition VerifyJWT :: "string \<Rightarrow> string \<Rightarrow> JWTOptions \<Rightarrow> time \<Rightarrow> goerror + JWTClaims" where
  "VerifyJWT token secret opts now =
     (if secret = '''' \<or> token = '''' then Inl ErrMissingCredentials
      else case strings_Split (CHR ''.'') token of
        [p0, p1, p2] \<Rightarrow>
          (case header_fields [''alg''] p0 of
             None \<Rightarrow> Inl ErrInvalidCredentials
           | Some _ \<Rightarrow>
               if base64_DecodeString p2 \<noteq> Some (signHS256 (p0 @ ''.'' @ p1) secret) then Inl ErrInvalidCredentials
               else case base64_DecodeString p1 of
                 None \<Rightarrow> Inl ErrInvalidCredentials
               | Some payloadData \<Rightarrow>
                   (case unmarshalClaims payloadData of
                      Inl e \<Rightarrow> Inl e
                    | Inr claims \<Rightarrow>
                        (case validateClaims claims opts now of Some e \<Rightarrow> Inl e | None \<Rightarrow> Inr claims)))
      | _ \<Rightarrow> Inl ErrInvalidCredentials)"

definition claimToStrings :: "goany \<Rightarrow> string list" where
  "claimToStrings v =
     (case v of
        AString s \<Rightarrow> strings_Fields s
      | AStrings ss \<Rightarrow> ss
      | AList vs \<Rightarrow> filter (\<lambda>s. s \<noteq> '''') (List.map_filter (\<lambda>v. case v of AString s \<Rightarrow> Some s | _ \<Rightarrow> None) vs)
      | _ \<Rightarrow> [])"

text \<open>A missing key reads as nil.\<close>

definition claim_value :: "JWTClaims \<Rightarrow> string \<Rightarrow> goany" where
  "claim_value c key = (case m_get (c_Extra c) key of None \<Rightarrow> ANil | Some v \<Rightarrow> v)"

definition JWTClaims_Principal :: "JWTClaims \<Rightarrow> Principal" where
  "JWTClaims_Principal c =
     (let perms = claimToStrings (claim_value c ''permissions'');
          perms = (if perms = [] then claimToStrings (claim_value c ''scope'') else perms);
          perms = (if perms = [] then claimToStrings (claim_value c ''scp'') else perms)
      in \<lparr>p_Subject = c_Subject c, p_Roles = claimToStrings (claim_value c ''roles''), p_Permissions = perms, p_Claims = c_Extra c\<rparr>)"

definition JWTValidator :: "string \<Rightarrow> JWTOptions \<Rightarrow> time \<Rightarrow> Validator" where
  "JWTValidator secret opts now ctx token =
     (case VerifyJWT token secret opts now of
        Inl e \<Rightarrow> (ctx, Some e)
      | Inr claims \<Rightarrow> (NewContext ctx (JWTClaims_Principal claims), None))"

definition kidFromToken :: "string \<Rightarrow> goerror + string" where
  "kidFromToken token =
     (if token = '''' then Inl ErrMissingCredentials
      else case strings_Split (CHR ''.'') token of
        [p0, p1, p2] \<Rightarrow>
          (case header_fields [''alg'', ''kid''] p0 of None \<Rightarrow> Inl ErrInvalidCredentials | Some f \<Rightarrow> Inr (f ''kid''))
      | _ \<Rightarrow> Inl ErrInvalidCredentials)"

section \<open>The keyring\<close>

definition ErrNoActiveKey :: goerror where "ErrNoActiveKey = Err ''auth: no active signing key''"

record SigningKey =
  k_KID :: string
  k_Secret :: string
  k_NotAfter :: time

record JWTKeyring =
  kr_active :: string
  kr_keys :: "(string, SigningKey) gomap"

definition NewJWTKeyring :: "SigningKey \<Rightarrow> goerror + JWTKeyring" where
  "NewJWTKeyring active =
     (if k_KID active = '''' \<or> k_Secret active = '''' then Inl ErrMissingCredentials
      else Inr \<lparr>kr_active = k_KID active, kr_keys = [(k_KID active, active)]\<rparr>)"

definition Keyring_Add :: "SigningKey \<Rightarrow> JWTKeyring \<Rightarrow> JWTKeyring \<times> goerror option" where
  "Keyring_Add key kr =
     (if k_KID key = '''' \<or> k_Secret key = '''' then (kr, Some ErrMissingCredentials)
      else (kr\<lparr>kr_keys := m_put (k_KID key) key (kr_keys kr)\<rparr>, None))"

definition Keyring_Rotate :: "SigningKey \<Rightarrow> JWTKeyring \<Rightarrow> JWTKeyring \<times> goerror option" where
  "Keyring_Rotate key kr =
     (if k_KID key = '''' \<or> k_Secret key = '''' then (kr, Some ErrMissingCredentials)
      else (kr\<lparr>kr_keys := m_put (k_KID key) key (kr_keys kr), kr_active := k_KID key\<rparr>, None))"

definition Keyring_Remove :: "string \<Rightarrow> JWTKeyring \<Rightarrow> JWTKeyring \<times> goerror option" where
  "Keyring_Remove kid kr =
     (if kid = kr_active kr then (kr, Some (Err ''auth: cannot remove active key''))
      else (kr\<lparr>kr_keys := m_del kid (kr_keys kr)\<rparr>, None))"

definition Keyring_ActiveKID :: "JWTKeyring \<Rightarrow> string" where
  "Keyring_ActiveKID kr = kr_active kr"

definition Keyring_KIDs :: "JWTKeyring \<Rightarrow> string list" where
  "Keyring_KIDs kr = sort (map fst (kr_keys kr))"

definition signingKey :: "JWTKeyring \<Rightarrow> time \<Rightarrow> SigningKey option" where
  "signingKey kr now =
     (case m_get (kr_keys kr) (kr_active kr) of
        None \<Rightarrow> None
      | Some key \<Rightarrow> if k_NotAfter key \<noteq> 0 \<and> \<not> now < k_NotAfter key then None else Some key)"

definition verifyKey :: "JWTKeyring \<Rightarrow> string \<Rightarrow> SigningKey option" where
  "verifyKey kr kid = m_get (kr_keys kr) kid"

definition Keyring_Sign :: "JWTKeyring \<Rightarrow> time \<Rightarrow> JWTClaims \<Rightarrow> goerror + string" where
  "Keyring_Sign kr now claims =
     (case signingKey kr now of
        None \<Rightarrow> Inl ErrNoActiveKey
      | Some key \<Rightarrow> SignJWTWithKID claims (k_KID key) (k_Secret key))"

definition Keyring_Verify :: "JWTKeyring \<Rightarrow> string \<Rightarrow> JWTOptions \<Rightarrow> time \<Rightarrow> goerror + JWTClaims" where
  "Keyring_Verify kr token opts now =
     (case kidFromToken token of
        Inl e \<Rightarrow> Inl e
      | Inr kid \<Rightarrow>
          if kid = '''' then Inl ErrInvalidCredentials
          else case verifyKey kr kid of
            None \<Rightarrow> Inl ErrInvalidCredentials
          | Some key \<Rightarrow> VerifyJWT token (k_Secret key) opts now)"

definition Keyring_Validator :: "JWTKeyring \<Rightarrow> JWTOptions \<Rightarrow> time \<Rightarrow> Validator" where
  "Keyring_Validator kr opts now ctx token =
     (case Keyring_Verify kr token opts now of
        Inl e \<Rightarrow> (ctx, Some e)
      | Inr claims \<Rightarrow> (NewContext ctx (JWTClaims_Principal claims), None))"

section \<open>Headers\<close>

lemma header_match:
  "match_field [''alg''] ''alg'' = Some ''alg''" "match_field [''alg''] ''kid'' = None" "match_field [''alg''] ''typ'' = None"
  "match_field [''alg'', ''kid''] ''alg'' = Some ''alg''" "match_field [''alg'', ''kid''] ''kid'' = Some ''kid''"
  "match_field [''alg'', ''kid''] ''typ'' = None"
  by code_simp+

lemma header_order: "(''alg'' :: string) \<le> ''kid''" "(''alg'' :: string) \<le> ''typ''" "(''kid'' :: string) \<le> ''typ''"
  "\<not> (''typ'' :: string) \<le> ''kid''" "\<not> (''kid'' :: string) \<le> ''alg''" "\<not> (''typ'' :: string) \<le> ''alg''"
  by code_simp+

lemma header_utf8: "valid_utf8 ''alg''" "valid_utf8 ''kid''" "valid_utf8 ''typ''" "valid_utf8 ''HS256''" "valid_utf8 ''JWT''"
  by code_simp+

lemma parse_header:
  assumes "valid_utf8 kid"
  shows "parse_json (marshal (AMap (jwt_header kid))) =
    Some (JObj ([(''alg'', JStr ''HS256'')] @ (if kid \<noteq> '''' then [(''kid'', JStr kid)] else []) @ [(''typ'', JStr ''JWT'')]))"
proof -
  have "parse_json (marshal (AMap (jwt_header kid))) = Some (tree (AMap (jwt_header kid)))"
    using assms header_utf8 by (intro parse_marshal) (auto simp: jwt_header_def jwtAlgorithmHS256_def maxNestingDepth_def)
  then show ?thesis
    by (cases "kid = ''''") (simp_all add: jwt_header_def jwtAlgorithmHS256_def header_order)
qed

lemma header_fields_signed:
  assumes "valid_utf8 kid" "names = [''alg''] \<or> names = [''alg'', ''kid'']"
  obtains f where "header_fields names (base64_EncodeToString (marshal (AMap (jwt_header kid)))) = Some f"
    and "names = [''alg'', ''kid''] \<Longrightarrow> f ''kid'' = kid"
proof -
  have "\<exists>f. unmarshal_strings names (marshal (AMap (jwt_header kid))) = Some f \<and> f ''alg'' = ''HS256''
      \<and> (names = [''alg'', ''kid''] \<longrightarrow> f ''kid'' = kid)"
    using assms(2) unfolding unmarshal_strings_def parse_header [OF assms(1)] by (auto simp: header_match)
  then obtain f where f: "unmarshal_strings names (marshal (AMap (jwt_header kid))) = Some f" "f ''alg'' = ''HS256''"
      "names = [''alg'', ''kid''] \<longrightarrow> f ''kid'' = kid" by blast
  then have "header_fields names (base64_EncodeToString (marshal (AMap (jwt_header kid)))) = Some f"
    by (simp add: header_fields_def base64_roundtrip jwtAlgorithmHS256_def del: marshal.simps)
  then show thesis using that f(3) by blast
qed

section \<open>Claims\<close>

definition reserved :: "string list" where
  "reserved = [''sub'', ''iss'', ''aud'', ''exp'', ''iat'', ''nbf'']"

text \<open>The claims that a token can carry without loss, and what is read back.\<close>

definition signable :: "JWTClaims \<Rightarrow> bool" where
  "signable c \<longleftrightarrow> plain (AMap (c_Extra c)) \<and> depth (AMap (c_Extra c)) \<le> maxNestingDepth
     \<and> list_all (\<lambda>k. k \<notin> set reserved) (map fst (c_Extra c))
     \<and> valid_utf8 (c_Subject c) \<and> valid_utf8 (c_Issuer c) \<and> valid_utf8 (c_Audience c)
     \<and> c_ExpiresAt c \<le> 2 ^ 53 \<and> c_IssuedAt c \<le> 2 ^ 53 \<and> c_NotBefore c \<le> 2 ^ 53"

definition read_back :: "JWTClaims \<Rightarrow> JWTClaims" where
  "read_back c = c\<lparr>c_ExpiresAt := max 0 (c_ExpiresAt c), c_IssuedAt := max 0 (c_IssuedAt c),
     c_NotBefore := max 0 (c_NotBefore c), c_Extra := map (map_prod id view) (sort_key fst (c_Extra c))\<rparr>"

definition opt_entry :: "bool \<Rightarrow> string \<Rightarrow> goany \<Rightarrow> (string, goany) gomap" where
  "opt_entry b k v = (if b then [(k, v)] else [])"

lemma opt_entry_keys [simp]: "map fst (opt_entry b k v) = (if b then [k] else [])" "fst ` set (opt_entry b k v) = (if b then {k} else {})"
  by (simp_all add: opt_entry_def)

lemma opt_entry_set: "p \<in> set (opt_entry b k v) \<longleftrightarrow> b \<and> p = (k, v)"
  by (auto simp: opt_entry_def)

definition std_claims :: "JWTClaims \<Rightarrow> (string, goany) gomap" where
  "std_claims c =
     opt_entry (c_Subject c \<noteq> '''') ''sub'' (AString (c_Subject c)) @
     opt_entry (c_Issuer c \<noteq> '''') ''iss'' (AString (c_Issuer c)) @
     opt_entry (c_Audience c \<noteq> '''') ''aud'' (AString (c_Audience c)) @
     opt_entry (c_ExpiresAt c > 0) ''exp'' (AInt (c_ExpiresAt c)) @
     opt_entry (c_IssuedAt c > 0) ''iat'' (AInt (c_IssuedAt c)) @
     opt_entry (c_NotBefore c > 0) ''nbf'' (AInt (c_NotBefore c))"

lemma std_claims_keys: "set (map fst (std_claims c)) \<subseteq> set reserved" "distinct (map fst (std_claims c))"
  by (auto simp: std_claims_def reserved_def)

lemma put_if_new: "key \<notin> fst ` set m \<Longrightarrow> put_if b key v m = m @ opt_entry b key v"
  by (simp add: put_if_def opt_entry_def update_new)

lemma marshalClaims_signable:
  assumes "list_all (\<lambda>k. k \<notin> set reserved) (map fst (c_Extra c))"
  shows "marshalClaims c = marshal (AMap (c_Extra c @ std_claims c))"
proof -
  have "k \<notin> fst ` set (c_Extra c)" if "k \<in> set reserved" for k using assms that by (force simp: list_all_iff)
  then have "''sub'' \<notin> fst ` set (c_Extra c)" "''iss'' \<notin> fst ` set (c_Extra c)" "''aud'' \<notin> fst ` set (c_Extra c)"
    "''exp'' \<notin> fst ` set (c_Extra c)" "''iat'' \<notin> fst ` set (c_Extra c)" "''nbf'' \<notin> fst ` set (c_Extra c)"
    by (simp_all add: reserved_def)
  then show ?thesis
    unfolding marshalClaims_def Let_def std_claims_def by (simp add: put_if_new image_Un del: marshal.simps)
qed

text \<open>The loop over decoded claims sets each field from its key.\<close>

definition or_default :: "'a \<Rightarrow> (goany \<Rightarrow> 'a) \<Rightarrow> goany option \<Rightarrow> 'a" where
  "or_default d f o' = (case o' of None \<Rightarrow> d | Some v \<Rightarrow> f v)"

lemma set_claim_fields:
  "c_Subject (set_claim k v c) = (if k = ''sub'' then as_string v else c_Subject c)"
  "c_Issuer (set_claim k v c) = (if k = ''iss'' then as_string v else c_Issuer c)"
  "c_Audience (set_claim k v c) = (if k = ''aud'' then as_string v else c_Audience c)"
  "c_ExpiresAt (set_claim k v c) = (if k = ''exp'' then jsonNumberInt64 v else c_ExpiresAt c)"
  "c_IssuedAt (set_claim k v c) = (if k = ''iat'' then jsonNumberInt64 v else c_IssuedAt c)"
  "c_NotBefore (set_claim k v c) = (if k = ''nbf'' then jsonNumberInt64 v else c_NotBefore c)"
  "c_Extra (set_claim k v c) = (if k \<in> set reserved then c_Extra c else m_put k v (c_Extra c))"
  by (simp_all add: set_claim_def reserved_def)

lemma or_default_step:
  "m_get raw k = None \<Longrightarrow> or_default (if k = x then f v else d) f (m_get raw x) = or_default d f (m_get ((k, v) # raw) x)"
  by (simp add: or_default_def)

lemma set_claim_fold:
  assumes "distinct (map fst (c_Extra c @ raw))"
  shows "fold (\<lambda>(key, v). set_claim key v) raw c =
    \<lparr>c_Subject = or_default (c_Subject c) as_string (m_get raw ''sub''),
     c_Issuer = or_default (c_Issuer c) as_string (m_get raw ''iss''),
     c_Audience = or_default (c_Audience c) as_string (m_get raw ''aud''),
     c_ExpiresAt = or_default (c_ExpiresAt c) jsonNumberInt64 (m_get raw ''exp''),
     c_IssuedAt = or_default (c_IssuedAt c) jsonNumberInt64 (m_get raw ''iat''),
     c_NotBefore = or_default (c_NotBefore c) jsonNumberInt64 (m_get raw ''nbf''),
     c_Extra = c_Extra c @ filter (\<lambda>p. fst p \<notin> set reserved) raw\<rparr>"
  using assms
proof (induction raw arbitrary: c)
  case Nil
  then show ?case by (simp add: or_default_def)
next
  case (Cons p raw)
  obtain k v where p: "p = (k, v)" by (cases p)
  have extra: "k \<notin> fst ` set (c_Extra c)" and new: "m_get raw k = None"
    using Cons.prems p by (auto simp: map_of_eq_None_iff)
  have d: "distinct (map fst (c_Extra (set_claim k v c) @ raw))"
    using Cons.prems p extra by (simp add: set_claim_fields update_new)
  have "c_Extra (set_claim k v c) @ filter (\<lambda>p. fst p \<notin> set reserved) raw = c_Extra c @ filter (\<lambda>p. fst p \<notin> set reserved) ((k, v) # raw)"
    using extra by (simp add: set_claim_fields(7) update_new)
  then show ?case
    unfolding p fold.simps comp_def prod.case Cons.IH [OF d] set_claim_fields(1-6) or_default_step [OF new] by simp
qed

lemma jsonNumberInt64_view:
  assumes "0 < n" "n \<le> 2 ^ 53"
  shows "jsonNumberInt64 (view (AInt n)) = n"
proof -
  have "float64_of_int n = of_int n" using assms by (intro float64_of_int_exact) auto
  then show ?thesis using assms by (simp add: jsonNumberInt64_def int64_of_float64_def Let_def int64_range_def)
qed

lemma signable_plain:
  assumes "signable c"
  shows "plain (AMap (c_Extra c @ std_claims c))" "depth (AMap (c_Extra c @ std_claims c)) \<le> maxNestingDepth"
proof -
  have d: "distinct (map fst (c_Extra c @ std_claims c))"
    using assms std_claims_keys [of c] by (fastforce simp: signable_def list_all_iff)
  have "valid_utf8 k" if "k \<in> set reserved" for k
  proof -
    have "list_all valid_utf8 reserved" by code_simp
    then show ?thesis using that by (simp add: list_all_iff)
  qed
  then have keys: "list_all valid_utf8 (map fst (std_claims c))" using std_claims_keys(1) [of c] by (auto simp: list_all_iff)
  have vals: "plain v \<and> depth v = 0" if "(k, v) \<in> set (std_claims c)" for k v
    using that assms by (auto simp: std_claims_def signable_def int64_range_def opt_entry_set)
  show "plain (AMap (c_Extra c @ std_claims c))"
    using assms d keys vals by (auto simp: signable_def list_all_iff)
  have "foldr max (map (snd \<circ> map_prod id depth) xs) 0 = 0" if "set xs \<subseteq> set (std_claims c)" for xs
    using that vals by (induction xs) (force+)
  then show "depth (AMap (c_Extra c @ std_claims c)) \<le> maxNestingDepth"
    using assms by (simp add: signable_def)
qed

lemma m_get_std_claims:
  "m_get (std_claims c) ''sub'' = (if c_Subject c \<noteq> '''' then Some (AString (c_Subject c)) else None)"
  "m_get (std_claims c) ''iss'' = (if c_Issuer c \<noteq> '''' then Some (AString (c_Issuer c)) else None)"
  "m_get (std_claims c) ''aud'' = (if c_Audience c \<noteq> '''' then Some (AString (c_Audience c)) else None)"
  "m_get (std_claims c) ''exp'' = (if c_ExpiresAt c > 0 then Some (AInt (c_ExpiresAt c)) else None)"
  "m_get (std_claims c) ''iat'' = (if c_IssuedAt c > 0 then Some (AInt (c_IssuedAt c)) else None)"
  "m_get (std_claims c) ''nbf'' = (if c_NotBefore c > 0 then Some (AInt (c_NotBefore c)) else None)"
proof -
  have *: "m_get (opt_entry b k v) k' = (if b \<and> k = k' then Some v else None)" for b k v k' by (simp add: opt_entry_def)
  show "m_get (std_claims c) ''sub'' = (if c_Subject c \<noteq> '''' then Some (AString (c_Subject c)) else None)"
    "m_get (std_claims c) ''iss'' = (if c_Issuer c \<noteq> '''' then Some (AString (c_Issuer c)) else None)"
    "m_get (std_claims c) ''aud'' = (if c_Audience c \<noteq> '''' then Some (AString (c_Audience c)) else None)"
    "m_get (std_claims c) ''exp'' = (if c_ExpiresAt c > 0 then Some (AInt (c_ExpiresAt c)) else None)"
    "m_get (std_claims c) ''iat'' = (if c_IssuedAt c > 0 then Some (AInt (c_IssuedAt c)) else None)"
    "m_get (std_claims c) ''nbf'' = (if c_NotBefore c > 0 then Some (AInt (c_NotBefore c)) else None)"
    unfolding std_claims_def map_of_append map_add_def * by simp_all
qed

lemma unmarshal_marshalClaims:
  assumes "signable c"
  shows "unmarshalClaims (marshalClaims c) = Inr (read_back c)"
proof -
  let ?vals = "c_Extra c @ std_claims c"
  let ?raw = "map (map_prod id view) (sort_key fst ?vals)"
  have avoid: "list_all (\<lambda>k. k \<notin> set reserved) (map fst (c_Extra c))" using assms by (simp add: signable_def)
  have d: "distinct (map fst ?vals)" using signable_plain(1) [OF assms] by simp
  have "unmarshal_map (marshalClaims c) = Some ?raw"
    unfolding marshalClaims_signable [OF avoid] by (rule unmarshal_marshal [OF signable_plain [OF assms]])
  moreover have "distinct (map fst (c_Extra no_claims @ ?raw))"
    using d distinct_sort_members [of ?vals] by (simp add: no_claims_def comp_def)
  moreover have get: "m_get ?raw k = map_option view (m_get (std_claims c) k)" if "k \<in> set reserved" for k
  proof -
    have "m_get (c_Extra c) k = None" using avoid that by (auto simp: list_all_iff map_of_eq_None_iff)
    then show ?thesis unfolding m_get_view m_get_sort [OF d] by (simp add: map_add_def split: option.split)
  qed
  moreover have "filter (\<lambda>p. fst p \<notin> set reserved) ?raw = map (map_prod id view) (sort_key fst (c_Extra c))"
  proof -
    have "filter (\<lambda>p. fst p \<notin> set reserved) ?vals = c_Extra c"
      using avoid std_claims_keys(1) [of c] by (force simp: list_all_iff filter_id_conv filter_empty_conv)
    then show ?thesis by (simp add: filter_map comp_def filter_sort)
  qed
  moreover have "or_default 0 jsonNumberInt64 (map_option view (if 0 < t then Some (AInt t) else None)) = max 0 t"
    if "t \<le> 2 ^ 53" for t
    using that jsonNumberInt64_view [of t] by (simp add: or_default_def)
  moreover have "or_default [] as_string (map_option view (if s \<noteq> [] then Some (AString s) else None)) = s" for s
    by (simp add: or_default_def as_string_def)
  moreover have "list_all (\<lambda>k. k \<in> set reserved) reserved" by (simp add: list_all_iff)
  ultimately show ?thesis using assms
    by (simp add: unmarshalClaims_def set_claim_fold get m_get_std_claims signable_def read_back_def no_claims_def reserved_def)
qed

section \<open>Tokens\<close>

lemma SignJWT_token:
  assumes "SignJWTWithKID c kid secret = Inr token"
  obtains h p s where "secret \<noteq> ''''" "h = base64_EncodeToString (marshal (AMap (jwt_header kid)))"
    "p = base64_EncodeToString (marshalClaims c)" "s = base64_EncodeToString (signHS256 (h @ ''.'' @ p) secret)"
    "token = h @ ''.'' @ p @ ''.'' @ s" "strings_Split (CHR ''.'') token = [h, p, s]"
proof -
  let ?h = "base64_EncodeToString (marshal (AMap (jwt_header kid)))" and ?p = "base64_EncodeToString (marshalClaims c)"
  let ?s = "base64_EncodeToString (signHS256 (?h @ ''.'' @ ?p) secret)"
  have "secret \<noteq> ''''" "token = ?h @ ''.'' @ ?p @ ''.'' @ ?s"
    using assms by (auto simp: SignJWTWithKID_def Let_def simp del: marshal.simps split: if_splits)
  moreover have "CHR ''.'' \<notin> set (base64_EncodeToString x)" for x using encode_chars by blast
  then have "strings_Split (CHR ''.'') (?h @ ''.'' @ ?p @ ''.'' @ ?s) = [?h, ?p, ?s]"
    by (simp add: Split_join Split_single del: marshal.simps)
  ultimately show thesis using that by blast
qed

definition checked :: "JWTClaims \<Rightarrow> JWTOptions \<Rightarrow> time \<Rightarrow> goerror + JWTClaims" where
  "checked claims opts now = (case validateClaims claims opts now of Some e \<Rightarrow> Inl e | None \<Rightarrow> Inr claims)"

text \<open>Verification with the signing secret gives back the claims, subject to their validity.\<close>

lemma Verify_signed:
  assumes "SignJWTWithKID c kid secret = Inr token" "signable c" "valid_utf8 kid"
  shows "VerifyJWT token secret opts now = checked (read_back c) opts now" "kidFromToken token = Inr kid"
proof -
  obtain h p s where t: "secret \<noteq> ''''" "h = base64_EncodeToString (marshal (AMap (jwt_header kid)))"
    "p = base64_EncodeToString (marshalClaims c)" "s = base64_EncodeToString (signHS256 (h @ ''.'' @ p) secret)"
    "token = h @ ''.'' @ p @ ''.'' @ s" "strings_Split (CHR ''.'') token = [h, p, s]"
    using SignJWT_token [OF assms(1)] .
  obtain f where f: "header_fields [''alg''] h = Some f" using header_fields_signed [OF assms(3), of "[''alg'']"] t(2) by blast
  obtain g where g: "header_fields [''alg'', ''kid''] h = Some g" "g ''kid'' = kid"
    using header_fields_signed [OF assms(3), of "[''alg'', ''kid'']"] t(2) by blast
  have "base64_DecodeString s = Some (signHS256 (h @ ''.'' @ p) secret)" "base64_DecodeString p = Some (marshalClaims c)"
    using t(3,4) base64_roundtrip by auto
  moreover have "token \<noteq> ''''" using t(5) by simp
  ultimately show "VerifyJWT token secret opts now = checked (read_back c) opts now"
    using t(1,6) f unmarshal_marshalClaims [OF assms(2)] by (simp add: VerifyJWT_def checked_def)
  show "kidFromToken token = Inr kid" using \<open>token \<noteq> ''''\<close> t(6) g by (simp add: kidFromToken_def)
qed

text \<open>What an accepted token is.\<close>

definition authentic :: "string \<Rightarrow> string \<Rightarrow> JWTClaims \<Rightarrow> bool" where
  "authentic token secret claims \<longleftrightarrow>
     (\<exists>h p s f payload. token = h @ ''.'' @ p @ ''.'' @ s \<and> CHR ''.'' \<notin> set (h @ p @ s) \<and> secret \<noteq> ''''
        \<and> header_fields [''alg''] h = Some f
        \<and> base64_DecodeString s = Some (signHS256 (h @ ''.'' @ p) secret)
        \<and> base64_DecodeString p = Some payload \<and> unmarshalClaims payload = Inr claims)"

lemma Split_three: "strings_Split sep s = [a, b, c] \<longleftrightarrow> s = a @ sep # b @ sep # c \<and> sep \<notin> set (a @ b @ c)"
proof
  assume *: "strings_Split sep s = [a, b, c]"
  then have "sep \<notin> set (a @ b @ c)" using Split_parts [of _ sep s] by auto
  then show "s = a @ sep # b @ sep # c \<and> sep \<notin> set (a @ b @ c)" using Split_concat [OF *] by simp
next
  assume "s = a @ sep # b @ sep # c \<and> sep \<notin> set (a @ b @ c)"
  then show "strings_Split sep s = [a, b, c]" by (simp add: Split_join Split_single)
qed

lemma header_fields_alg: "header_fields names part = Some f \<Longrightarrow> f ''alg'' = jwtAlgorithmHS256"
  by (auto simp: header_fields_def split: option.splits if_splits)

text \<open>Verification splits into authenticity, which does not depend on the time, and validity.\<close>

lemma VerifyJWT_authentic:
  assumes "authentic token secret claims"
  shows "VerifyJWT token secret opts now = checked claims opts now"
proof -
  obtain h p s f payload where t: "token = h @ ''.'' @ p @ ''.'' @ s" "CHR ''.'' \<notin> set (h @ p @ s)" "secret \<noteq> ''''"
      "header_fields [''alg''] h = Some f" "base64_DecodeString s = Some (signHS256 (h @ ''.'' @ p) secret)"
      "base64_DecodeString p = Some payload" "unmarshalClaims payload = Inr claims"
    using assms unfolding authentic_def by blast
  have "strings_Split (CHR ''.'') token = [h, p, s]" using t(1,2) by (simp add: Split_three)
  moreover have "token \<noteq> ''''" using t(1) by simp
  ultimately show ?thesis using t by (simp add: VerifyJWT_def checked_def)
qed

lemma VerifyJWT_rejected:
  assumes "\<nexists>claims. authentic token secret claims" and "secret \<noteq> ''''" "token \<noteq> ''''"
  shows "VerifyJWT token secret opts now = Inl ErrInvalidCredentials"
proof (cases "\<exists>h p s. strings_Split (CHR ''.'') token = [h, p, s]")
  case True
  then obtain h p s where t: "strings_Split (CHR ''.'') token = [h, p, s]" by blast
  have e: "unmarshalClaims payload = Inl e \<Longrightarrow> e = ErrInvalidCredentials" for payload e
    by (simp add: unmarshalClaims_def split: option.splits)
  have "\<not> (header_fields [''alg''] h = Some f \<and> base64_DecodeString s = Some (signHS256 (h @ ''.'' @ p) secret)
      \<and> base64_DecodeString p = Some payload \<and> unmarshalClaims payload = Inr claims)" for f payload claims
    using assms t unfolding authentic_def Split_three by fastforce
  then show ?thesis using t assms(2,3)
    by (auto simp: VerifyJWT_def dest: e split: option.splits sum.splits)
next
  case False
  then show ?thesis using assms(2,3) by (auto simp: VerifyJWT_def split: list.splits)
qed

lemma checked_Inr: "checked claims opts now = Inr c \<longleftrightarrow> c = claims \<and> validateClaims claims opts now = None"
  by (auto simp: checked_def split: option.splits)

lemma validateClaims_None:
  "validateClaims c opts now = None \<longleftrightarrow>
     (c_ExpiresAt c > 0 \<longrightarrow> time_Unix now < c_ExpiresAt c) \<and> (c_NotBefore c > 0 \<longrightarrow> c_NotBefore c \<le> time_Unix now)
     \<and> (o_Issuer opts \<noteq> '''' \<longrightarrow> c_Issuer c = o_Issuer opts) \<and> (o_Audience opts \<noteq> '''' \<longrightarrow> c_Audience c = o_Audience opts)"
  by (auto simp: validateClaims_def)

lemma VerifyJWT_Inr:
  "VerifyJWT token secret opts now = Inr c \<longleftrightarrow> authentic token secret c \<and> validateClaims c opts now = None"
proof
  assume ok: "VerifyJWT token secret opts now = Inr c"
  then have "secret \<noteq> ''''" "token \<noteq> ''''" by (auto simp: VerifyJWT_def)
  then obtain claims where a: "authentic token secret claims" using ok VerifyJWT_rejected by fastforce
  then show "authentic token secret c \<and> validateClaims c opts now = None"
    using ok VerifyJWT_authentic [OF a, of opts now] by (simp add: checked_Inr)
next
  assume "authentic token secret c \<and> validateClaims c opts now = None"
  then show "VerifyJWT token secret opts now = Inr c"
    using VerifyJWT_authentic [of token secret c opts now] by (simp add: checked_Inr)
qed

section \<open>Rotation\<close>

text \<open>The operations on a keyring, and the runs of them.\<close>

datatype keyring_op = KAdd SigningKey | KRotate SigningKey | KRemove string

fun keyring_step :: "keyring_op \<Rightarrow> JWTKeyring \<Rightarrow> JWTKeyring" where
  "keyring_step (KAdd key) kr = fst (Keyring_Add key kr)"
| "keyring_step (KRotate key) kr = fst (Keyring_Rotate key kr)"
| "keyring_step (KRemove kid) kr = fst (Keyring_Remove kid kr)"

definition keyring_run :: "keyring_op list \<Rightarrow> JWTKeyring \<Rightarrow> JWTKeyring" where
  "keyring_run ops kr = fold keyring_step ops kr"

fun op_kid :: "keyring_op \<Rightarrow> string" where
  "op_kid (KAdd key) = k_KID key"
| "op_kid (KRotate key) = k_KID key"
| "op_kid (KRemove kid) = kid"

text \<open>Keys are stored under their own names, with secrets, and the active one is there.\<close>

definition keyring_inv :: "JWTKeyring \<Rightarrow> bool" where
  "keyring_inv kr \<longleftrightarrow> gomap_wf (kr_keys kr) \<and> m_get (kr_keys kr) (kr_active kr) \<noteq> None
     \<and> (\<forall>kid key. m_get (kr_keys kr) kid = Some key \<longrightarrow> k_KID key = kid \<and> kid \<noteq> '''' \<and> k_Secret key \<noteq> '''')"

lemma keyring_inv_New: "NewJWTKeyring key = Inr kr \<Longrightarrow> keyring_inv kr"
  by (auto simp: NewJWTKeyring_def keyring_inv_def gomap_wf_def split: if_splits)

lemma keyring_inv_step: "keyring_inv kr \<Longrightarrow> keyring_inv (keyring_step op kr)"
  by (cases op)
    (auto simp: keyring_inv_def Keyring_Add_def Keyring_Rotate_def Keyring_Remove_def gomap_wf_put gomap_wf_del split: if_splits)

lemma keyring_inv_run: "keyring_inv kr \<Longrightarrow> keyring_inv (keyring_run ops kr)"
  unfolding keyring_run_def by (induction ops arbitrary: kr) (simp_all add: keyring_inv_step)

lemma keyring_step_other: "op_kid op \<noteq> kid \<Longrightarrow> m_get (kr_keys (keyring_step op kr)) kid = m_get (kr_keys kr) kid"
  by (cases op) (auto simp: Keyring_Add_def Keyring_Rotate_def Keyring_Remove_def)

lemma keyring_run_other:
  "list_all (\<lambda>op. op_kid op \<noteq> kid) ops \<Longrightarrow> m_get (kr_keys (keyring_run ops kr)) kid = m_get (kr_keys kr) kid"
  unfolding keyring_run_def by (induction ops arbitrary: kr) (simp_all add: keyring_step_other)

lemma keyring_remove_active: "kid = kr_active kr \<Longrightarrow> keyring_step (KRemove kid) kr = kr"
  by (simp add: Keyring_Remove_def)

lemma Keyring_Sign_Inr:
  assumes "keyring_inv kr" "Keyring_Sign kr now c = Inr token"
  obtains key where "m_get (kr_keys kr) (kr_active kr) = Some key" "k_KID key = kr_active kr"
    "k_NotAfter key = 0 \<or> now < k_NotAfter key" "SignJWTWithKID c (k_KID key) (k_Secret key) = Inr token"
  using assms by (auto simp: Keyring_Sign_def signingKey_def keyring_inv_def split: option.splits if_splits)

lemma rotation_roundtrip:
  assumes "NewJWTKeyring first = Inr kr0"
    and "Keyring_Sign (keyring_run before kr0) t c = Inr token"
    and "signable c" and "valid_utf8 (kr_active (keyring_run before kr0))"
    and "list_all (\<lambda>op. op_kid op \<noteq> kr_active (keyring_run before kr0)) after"
  shows "Keyring_Verify (keyring_run (before @ after) kr0) token opts now = checked (read_back c) opts now"
proof -
  let ?kr = "keyring_run before kr0"
  have inv: "keyring_inv ?kr" by (rule keyring_inv_run [OF keyring_inv_New [OF assms(1)]])
  obtain key where key: "m_get (kr_keys ?kr) (kr_active ?kr) = Some key" "k_KID key = kr_active ?kr"
      "SignJWTWithKID c (k_KID key) (k_Secret key) = Inr token"
    using Keyring_Sign_Inr [OF inv assms(2)] by blast
  have "kr_active ?kr \<noteq> ''''" using inv key(1) by (auto simp: keyring_inv_def)
  moreover have "keyring_run (before @ after) kr0 = keyring_run after ?kr" by (simp add: keyring_run_def)
  moreover have "m_get (kr_keys (keyring_run after ?kr)) (kr_active ?kr) = Some key"
    using keyring_run_other [OF assms(5)] key(1) by simp
  ultimately show ?thesis
    using Verify_signed [OF key(3) assms(3)] assms(4) key(2) by (simp add: Keyring_Verify_def verifyKey_def)
qed

text \<open>
  C35. Key rotation without downtime. A token that a keyring signs for claims that JSON can carry, after any history of additions, rotations and
  removals, is verified by the keyring after any further history that does not replace or remove the key
  it was signed with, and verification gives back the claims it was signed with, as JSON reads them back, or the error that their
  own validity calls for. Rotating to new keys, adding and removing other keys never breaks it.
\<close>

theorem Keyring_rotation_roundtrip:
  assumes "NewJWTKeyring first = Inr kr0"
    and "Keyring_Sign (keyring_run before kr0) t c = Inr token"
    and "signable c" and "valid_utf8 (kr_active (keyring_run before kr0))"
    and "list_all (\<lambda>op. op_kid op \<noteq> kr_active (keyring_run before kr0)) after"
  shows "Keyring_Verify (keyring_run (before @ after) kr0) token opts now =
    (case validateClaims (read_back c) opts now of Some e \<Rightarrow> Inl e | None \<Rightarrow> Inr (read_back c))"
  using rotation_roundtrip [OF assms] by (simp add: checked_def)

text \<open>
  \<open>carries payload claims\<close>: the payload is a JSON object (or null), each standard claim is its member of that name
  if it is of the right type, and the extra claims are its other members.
\<close>

definition carries :: "string \<Rightarrow> JWTClaims \<Rightarrow> bool" where
  "carries payload claims \<longleftrightarrow>
     (\<exists>raw. unmarshal_map payload = Some raw
        \<and> c_Subject claims = or_default '''' as_string (m_get raw ''sub'')
        \<and> c_Issuer claims = or_default '''' as_string (m_get raw ''iss'')
        \<and> c_Audience claims = or_default '''' as_string (m_get raw ''aud'')
        \<and> c_ExpiresAt claims = or_default 0 jsonNumberInt64 (m_get raw ''exp'')
        \<and> c_IssuedAt claims = or_default 0 jsonNumberInt64 (m_get raw ''iat'')
        \<and> c_NotBefore claims = or_default 0 jsonNumberInt64 (m_get raw ''nbf'')
        \<and> (\<forall>k. m_get (c_Extra claims) k = (if k \<in> set reserved then None else m_get raw k)))"

lemma unmarshal_map_wf: "unmarshal_map s = Some m \<Longrightarrow> gomap_wf m"
  by (auto simp: unmarshal_map_def put_all_def fold_put_wf split: option.splits json.splits goany.splits)

lemma unmarshalClaims_carries:
  assumes "unmarshalClaims payload = Inr claims"
  shows "carries payload claims"
proof -
  obtain raw where raw: "unmarshal_map payload = Some raw" "claims = fold (\<lambda>(key, v). set_claim key v) raw no_claims"
    using assms by (auto simp: unmarshalClaims_def split: option.splits)
  have wf: "gomap_wf raw" by (rule unmarshal_map_wf [OF raw(1)])
  then have "distinct (map fst (c_Extra no_claims @ raw))" by (simp add: no_claims_def gomap_wf_def)
  note fields = set_claim_fold [OF this, folded raw(2)]
  have "m_get (filter (\<lambda>p. fst p \<notin> set reserved) raw) k = (if k \<in> set reserved then None else m_get raw k)" for k
    by (simp add: m_get_filter [OF wf] split: option.split)
  then show ?thesis unfolding carries_def using raw(1) by (intro exI [of _ raw] conjI) (simp_all add: fields no_claims_def)
qed

text \<open>
  C36. What a keyring accepts. An accepted token has three parts; its header names HS256 and a key that the
  keyring holds; its third part decodes to the HMAC of the first two under the secret of that key; the claims
  returned are those of its second part, and they are not expired, already valid, and from the issuer and for the
  audience that the options demand.
\<close>

theorem Keyring_Verify_sound:
  assumes "Keyring_Verify kr token opts now = Inr claims"
  shows "\<exists>h p s f key payload. token = h @ ''.'' @ p @ ''.'' @ s \<and> header_fields [''alg'', ''kid''] h = Some f \<and> f ''alg'' = ''HS256''
    \<and> f ''kid'' \<noteq> '''' \<and> m_get (kr_keys kr) (f ''kid'') = Some key
    \<and> base64_DecodeString s = Some (signHS256 (h @ ''.'' @ p) (k_Secret key))
    \<and> base64_DecodeString p = Some payload \<and> carries payload claims
    \<and> (c_ExpiresAt claims > 0 \<longrightarrow> time_Unix now < c_ExpiresAt claims)
    \<and> (c_NotBefore claims > 0 \<longrightarrow> c_NotBefore claims \<le> time_Unix now)
    \<and> (o_Issuer opts \<noteq> '''' \<longrightarrow> c_Issuer claims = o_Issuer opts)
    \<and> (o_Audience opts \<noteq> '''' \<longrightarrow> c_Audience claims = o_Audience opts)"
proof -
  obtain kid key where kid: "kidFromToken token = Inr kid" "kid \<noteq> ''''" "m_get (kr_keys kr) kid = Some key"
      and ok: "VerifyJWT token (k_Secret key) opts now = Inr claims"
    using assms by (auto simp: Keyring_Verify_def verifyKey_def split: sum.splits option.splits if_splits)
  obtain h p s payload where t: "token = h @ ''.'' @ p @ ''.'' @ s" "CHR ''.'' \<notin> set (h @ p @ s)"
      "base64_DecodeString s = Some (signHS256 (h @ ''.'' @ p) (k_Secret key))"
      "base64_DecodeString p = Some payload" "unmarshalClaims payload = Inr claims"
    using ok unfolding VerifyJWT_Inr authentic_def by blast
  have "strings_Split (CHR ''.'') token = [h, p, s]" using t(1,2) by (simp add: Split_three)
  then obtain f where f: "header_fields [''alg'', ''kid''] h = Some f" "f ''kid'' = kid"
    using kid(1) by (auto simp: kidFromToken_def split: if_splits option.splits)
  have "f ''alg'' = ''HS256''" using header_fields_alg [OF f(1)] by (simp add: jwtAlgorithmHS256_def)
  then show ?thesis
    using t(1,3,4) unmarshalClaims_carries [OF t(5)] f kid(2,3) ok [unfolded VerifyJWT_Inr validateClaims_None] by blast
qed

lemma authentic_unique: "authentic token secret c \<Longrightarrow> authentic token secret d \<Longrightarrow> c = d"
proof -
  assume a: "authentic token secret c" "authentic token secret d"
  obtain h p s payload where 1: "strings_Split (CHR ''.'') token = [h, p, s]" "base64_DecodeString p = Some payload" "unmarshalClaims payload = Inr c"
    using a(1) unfolding authentic_def by (fastforce simp: Split_three)
  obtain h' p' s' payload' where 2: "strings_Split (CHR ''.'') token = [h', p', s']" "base64_DecodeString p' = Some payload'" "unmarshalClaims payload' = Inr d"
    using a(2) unfolding authentic_def by (fastforce simp: Split_three)
  show ?thesis using 1 2 by simp
qed

lemma JWT_errors_distinct [simp]:
  "ErrExpiredToken \<noteq> ErrInvalidCredentials" "ErrInvalidCredentials \<noteq> ErrExpiredToken"
  "ErrExpiredToken \<noteq> ErrMissingCredentials" "ErrMissingCredentials \<noteq> ErrExpiredToken"
  by (simp_all add: ErrExpiredToken_def ErrInvalidCredentials_def ErrMissingCredentials_def)

lemma checked_Inl:
  "checked c opts now = Inl e \<Longrightarrow> e = ErrExpiredToken \<or> e = ErrInvalidCredentials"
  "checked c opts now = Inl ErrExpiredToken \<longleftrightarrow> c_ExpiresAt c > 0 \<and> c_ExpiresAt c \<le> time_Unix now"
  by (auto simp: checked_def validateClaims_def split: option.splits if_splits)

text \<open>Verification fails as missing, as not authentic, or by the check of authentic claims.\<close>

lemma VerifyJWT_cases:
  obtains (missing) "secret = '''' \<or> token = ''''" "VerifyJWT token secret opts now = Inl ErrMissingCredentials"
    | (forged) "secret \<noteq> ''''" "token \<noteq> ''''" "\<nexists>c. authentic token secret c" "VerifyJWT token secret opts now = Inl ErrInvalidCredentials"
    | (authentic) c where "secret \<noteq> ''''" "token \<noteq> ''''" "authentic token secret c" "VerifyJWT token secret opts now = checked c opts now"
proof (cases "secret = '''' \<or> token = ''''")
  case True
  then show thesis using missing by (simp add: VerifyJWT_def)
next
  case False
  then show thesis using forged authentic VerifyJWT_rejected VerifyJWT_authentic by blast
qed

lemma time_Unix_mono: "t \<le> u \<Longrightarrow> time_Unix t \<le> time_Unix u"
  by (simp add: time_Unix_def zdiv_mono1)

text \<open>
  C37. The errors of verification. A missing secret or token is \<^verbatim>\<open>ErrMissingCredentials\<close>, and nothing else is;
  every other failure is \<^verbatim>\<open>ErrInvalidCredentials\<close> or \<^verbatim>\<open>ErrExpiredToken\<close>; and expiry is reported for
  authentic tokens only, whatever their other claims, so that it tells a forger nothing.
\<close>

theorem VerifyJWT_errors:
  "(VerifyJWT token secret opts now = Inl ErrMissingCredentials \<longleftrightarrow> secret = '''' \<or> token = '''')
   \<and> (VerifyJWT token secret opts now = Inl ErrExpiredToken \<longleftrightarrow>
        (\<exists>c. authentic token secret c \<and> c_ExpiresAt c > 0 \<and> c_ExpiresAt c \<le> time_Unix now))
   \<and> (\<forall>e. VerifyJWT token secret opts now = Inl e \<longrightarrow> e \<in> {ErrMissingCredentials, ErrInvalidCredentials, ErrExpiredToken})"
proof (cases rule: VerifyJWT_cases [of secret token opts now])
  case missing
  then show ?thesis by (auto simp: authentic_def)
next
  case forged
  then show ?thesis by auto
next
  case (authentic c)
  have "(\<exists>d. authentic token secret d \<and> c_ExpiresAt d > 0 \<and> c_ExpiresAt d \<le> time_Unix now)
      \<longleftrightarrow> c_ExpiresAt c > 0 \<and> c_ExpiresAt c \<le> time_Unix now"
    using authentic(3) authentic_unique by blast
  then show ?thesis using authentic checked_Inl [of c opts now] by auto
qed

text \<open>
  Time only moves a token from not yet valid to valid to expired: a token accepted at two times is accepted
  with the same claims at every time between them, and a token that has expired stays expired.
\<close>

theorem VerifyJWT_window:
  assumes "t1 \<le> t" "t \<le> t2"
  shows "(VerifyJWT token secret opts t1 = Inr c \<longrightarrow> VerifyJWT token secret opts t2 = Inr d \<longrightarrow>
            d = c \<and> VerifyJWT token secret opts t = Inr c)
    \<and> (VerifyJWT token secret opts t = Inl ErrExpiredToken \<longrightarrow> VerifyJWT token secret opts t2 = Inl ErrExpiredToken)"
proof (intro conjI impI)
  assume 1: "VerifyJWT token secret opts t1 = Inr c" and 2: "VerifyJWT token secret opts t2 = Inr d"
  then show "d = c" unfolding VerifyJWT_Inr using authentic_unique by blast
  then show "VerifyJWT token secret opts t = Inr c"
    using 1 2 time_Unix_mono [OF assms(1)] time_Unix_mono [OF assms(2)] unfolding VerifyJWT_Inr validateClaims_None by auto
next
  assume e: "VerifyJWT token secret opts t = Inl ErrExpiredToken"
  show "VerifyJWT token secret opts t2 = Inl ErrExpiredToken"
  proof (cases rule: VerifyJWT_cases [of secret token opts t])
    case (authentic c)
    then show ?thesis using e VerifyJWT_authentic [OF authentic(3)] time_Unix_mono [OF assms(2)] by (simp add: checked_Inl(2))
  qed (use e in simp_all)
qed

text \<open>
  A token is not a canonical name of its claims: white space of line ends in the signature part, and the
  unused bits of its last character, do not change the verdict.
\<close>

lemma VerifyJWT_malleable:
  assumes "VerifyJWT token secret opts now = Inr c"
  shows "VerifyJWT (token @ [CHR 0x0A]) secret opts now = Inr c"
proof -
  obtain h p s f payload where t: "token = h @ ''.'' @ p @ ''.'' @ s" "CHR ''.'' \<notin> set (h @ p @ s)" "secret \<noteq> ''''"
      "header_fields [''alg''] h = Some f" "base64_DecodeString s = Some (signHS256 (h @ ''.'' @ p) secret)"
      "base64_DecodeString p = Some payload" "unmarshalClaims payload = Inr c" and v: "validateClaims c opts now = None"
    using assms unfolding VerifyJWT_Inr authentic_def by blast
  have "base64_DecodeString (s @ [CHR 0x0A]) = base64_DecodeString s" by (simp add: base64_DecodeString_def)
  moreover have "token @ [CHR 0x0A] = h @ ''.'' @ p @ ''.'' @ (s @ [CHR 0x0A])" "CHR ''.'' \<notin> set (h @ p @ (s @ [CHR 0x0A]))"
    using t(1,2) by simp_all
  ultimately have "authentic (token @ [CHR 0x0A]) secret c" using t(3-7) unfolding authentic_def by metis
  then show ?thesis using v unfolding VerifyJWT_Inr by blast
qed

section \<open>Witnesses\<close>

definition key_a :: SigningKey where "key_a = \<lparr>k_KID = ''a'', k_Secret = ''s1'', k_NotAfter = 0\<rparr>"
definition key_b :: SigningKey where "key_b = \<lparr>k_KID = ''b'', k_Secret = ''s2'', k_NotAfter = 0\<rparr>"

definition alice :: JWTClaims where
  "alice = no_claims\<lparr>c_Subject := ''alice'', c_ExpiresAt := 100, c_Extra := [(''roles'', AStrings [''admin''])]\<rparr>"

definition any_options :: JWTOptions where "any_options = \<lparr>o_Issuer = '''', o_Audience = ''''\<rparr>"

lemma alice_signable: "signable alice"
proof -
  have "valid_utf8 ''alice''" "valid_utf8 ''roles''" "valid_utf8 ''admin''" "valid_utf8 ''''" by code_simp+
  then show ?thesis by (simp add: signable_def alice_def no_claims_def reserved_def maxNestingDepth_def)
qed

lemma key_a_signs:
  "NewJWTKeyring key_a = Inr \<lparr>kr_active = ''a'', kr_keys = [(''a'', key_a)]\<rparr>"
  "\<exists>token. Keyring_Sign \<lparr>kr_active = ''a'', kr_keys = [(''a'', key_a)]\<rparr> t c = Inr token"
  by (simp_all add: NewJWTKeyring_def key_a_def Keyring_Sign_def signingKey_def SignJWTWithKID_def Let_def del: marshal.simps)

lemma alice_valid: "time_Unix t < 100 \<Longrightarrow> validateClaims (read_back alice) any_options t = None"
  by (simp add: validateClaims_def read_back_def alice_def no_claims_def any_options_def)

lemma unix_0: "time_Unix unixEpoch = 0" "time_Unix (unixEpoch + Second) = 1"
  by (simp_all add: time_Unix_def)

text \<open>A token signed with the first key, before a rotation to the second, is accepted after it.\<close>

theorem Keyring_rotation_roundtrip_witness:
  "\<exists>token. Keyring_Verify (keyring_run ([] @ [KRotate key_b]) \<lparr>kr_active = ''a'', kr_keys = [(''a'', key_a)]\<rparr>) token any_options unixEpoch
     = Inr (read_back alice)"
proof -
  let ?kr = "\<lparr>kr_active = ''a'', kr_keys = [(''a'', key_a)]\<rparr>"
  obtain token where "Keyring_Sign (keyring_run [] ?kr) 0 alice = Inr token" using key_a_signs(2) by (auto simp: keyring_run_def)
  moreover have "valid_utf8 ''a''" by code_simp
  ultimately have "Keyring_Verify (keyring_run ([] @ [KRotate key_b]) ?kr) token any_options unixEpoch =
      (case validateClaims (read_back alice) any_options unixEpoch of Some e \<Rightarrow> Inl e | None \<Rightarrow> Inr (read_back alice))"
    by (intro Keyring_rotation_roundtrip [OF key_a_signs(1)]) (simp_all add: alice_signable keyring_run_def key_b_def)
  then show ?thesis using alice_valid [of unixEpoch] by (auto simp: unix_0)
qed

lemma alice_token: "\<exists>token. \<forall>t. Keyring_Verify \<lparr>kr_active = ''a'', kr_keys = [(''a'', key_a)]\<rparr> token any_options t
    = checked (read_back alice) any_options t \<and> VerifyJWT token ''s1'' any_options t = checked (read_back alice) any_options t"
proof -
  obtain token where t: "SignJWTWithKID alice ''a'' ''s1'' = Inr token" by (simp add: SignJWTWithKID_def Let_def del: marshal.simps)
  have "valid_utf8 ''a''" by code_simp
  note v = Verify_signed [OF t alice_signable this]
  show ?thesis by (rule exI [of _ token]) (simp add: Keyring_Verify_def verifyKey_def key_a_def v)
qed

theorem Keyring_Verify_sound_witness:
  "\<exists>token h p s payload. Keyring_Verify \<lparr>kr_active = ''a'', kr_keys = [(''a'', key_a)]\<rparr> token any_options unixEpoch = Inr (read_back alice)
     \<and> token = h @ ''.'' @ p @ ''.'' @ s \<and> base64_DecodeString s = Some (signHS256 (h @ ''.'' @ p) ''s1'')
     \<and> base64_DecodeString p = Some payload \<and> carries payload (read_back alice)"
proof -
  obtain token where t: "Keyring_Verify \<lparr>kr_active = ''a'', kr_keys = [(''a'', key_a)]\<rparr> token any_options unixEpoch = Inr (read_back alice)"
    using alice_token alice_valid [of unixEpoch] unix_0 checked_Inr by (metis zero_less_numeral)
  from Keyring_Verify_sound [OF t] obtain h p s f key payload where
    "token = h @ ''.'' @ p @ ''.'' @ s" "m_get (kr_keys \<lparr>kr_active = ''a'', kr_keys = [(''a'', key_a)]\<rparr>) (f ''kid'') = Some key"
    "base64_DecodeString s = Some (signHS256 (h @ ''.'' @ p) (k_Secret key))"
    "base64_DecodeString p = Some payload" "carries payload (read_back alice)"
    by blast
  moreover from this have "k_Secret key = ''s1''" by (auto simp: key_a_def split: if_splits)
  ultimately show ?thesis using t by metis
qed

theorem VerifyJWT_errors_witness:
  "VerifyJWT '''' ''s1'' any_options 0 = Inl ErrMissingCredentials
   \<and> (\<exists>token. VerifyJWT token ''s1'' any_options (unixEpoch + 100 * Second) = Inl ErrExpiredToken
        \<and> (\<exists>c. authentic token ''s1'' c \<and> c_ExpiresAt c \<le> 100))"
proof -
  obtain token where t: "VerifyJWT token ''s1'' any_options (unixEpoch + 100 * Second) = checked (read_back alice) any_options (unixEpoch + 100 * Second)"
    using alice_token by blast
  have u: "time_Unix (unixEpoch + 100 * Second) = 100" by (simp add: time_Unix_def)
  have "checked (read_back alice) any_options (unixEpoch + 100 * Second) = Inl ErrExpiredToken"
    by (simp add: checked_Inl(2) time_Unix_def read_back_def alice_def no_claims_def)
  then show ?thesis
    using t u VerifyJWT_errors [of token "''s1''" any_options "unixEpoch + 100 * Second"] VerifyJWT_errors [of "''''" "''s1''" any_options 0]
    by auto
qed

theorem VerifyJWT_window_witness:
  "\<exists>token. VerifyJWT token ''s1'' any_options unixEpoch = Inr (read_back alice)
     \<and> VerifyJWT token ''s1'' any_options (unixEpoch + Second) = Inr (read_back alice)"
proof -
  obtain token where t: "VerifyJWT token ''s1'' any_options u = checked (read_back alice) any_options u" for u
    using alice_token by blast
  have "VerifyJWT token ''s1'' any_options unixEpoch = Inr (read_back alice)"
    "VerifyJWT token ''s1'' any_options (unixEpoch + 2 * Second) = Inr (read_back alice)"
    unfolding t checked_Inr by (simp_all add: alice_valid unix_0 time_Unix_def)
  then show ?thesis
    using VerifyJWT_window [of unixEpoch "unixEpoch + Second" "unixEpoch + 2 * Second" token "''s1''" any_options "read_back alice" "read_back alice"]
    by auto
qed

end
