(* ===== verification/OAuth2.thy ===== *)
theory OAuth2
  imports JWT
begin

text \<open>
  The OAuth2 token endpoint with the client-credentials grant (\<^verbatim>\<open>src/core/auth/oauth2.go\<close>). A request is
  what the handler reads of it: the method, the posted form (none if it does not parse) and the basic
  authentication; a response is its status, headers and body. The server and its keyring have a clock each.
\<close>

section \<open>Definitions\<close>

definition GrantClientCredentials :: string where "GrantClientCredentials = ''client_credentials''"

record OAuth2Client =
  cl_Secret :: string
  cl_Scopes :: "string list"
  cl_Audience :: string

fun allows :: "string list \<Rightarrow> string \<Rightarrow> bool" where
  "allows [] scope = False"
| "allows (s # ss) scope = (if s = ''*'' \<or> s = scope then True else allows ss scope)"

record OAuth2Token =
  t_AccessToken :: string
  t_TokenType :: string
  t_ExpiresIn :: int
  t_Scope :: string

record OAuth2Error =
  e_Code :: string
  e_Description :: string
  e_status :: int

definition OAuth2Error_Error :: "OAuth2Error \<Rightarrow> string" where
  "OAuth2Error_Error e = (if e_Description e \<noteq> '''' then e_Code e @ '': '' @ e_Description e else e_Code e)"

definition oauthError :: "int \<Rightarrow> string \<Rightarrow> string \<Rightarrow> OAuth2Error" where
  "oauthError status code description = \<lparr>e_Code = code, e_Description = description, e_status = status\<rparr>"

record OAuth2Config =
  cf_Keyring :: "JWTKeyring option"
  cf_Issuer :: string
  cf_TTL :: duration
  cf_Clients :: "(string, OAuth2Client) gomap"

definition NewOAuth2Server :: "OAuth2Config \<Rightarrow> goerror + OAuth2Config" where
  "NewOAuth2Server conf =
     (if cf_Keyring conf = None then Inl ErrNoActiveKey
      else Inr (if cf_TTL conf \<le> 0 then conf\<lparr>cf_TTL := 60 * Minute\<rparr> else conf))"

fun grant_loop :: "OAuth2Client \<Rightarrow> string list \<Rightarrow> string list \<Rightarrow> OAuth2Error + string list" where
  "grant_loop client [] granted = Inr granted"
| "grant_loop client (scope # scopes) granted =
     (let scope = strings_TrimSpace scope in
      if scope = '''' then grant_loop client scopes granted
      else if \<not> allows (cl_Scopes client) scope then
        Inl (oauthError 400 ''invalid_scope'' (''scope not permitted: '' @ scope))
      else grant_loop client scopes (granted @ [scope]))"

definition issued_claims :: "OAuth2Config \<Rightarrow> string \<Rightarrow> OAuth2Client \<Rightarrow> string list \<Rightarrow> time \<Rightarrow> JWTClaims" where
  "issued_claims conf clientID client granted now =
     \<lparr>c_Subject = clientID, c_Issuer = cf_Issuer conf, c_Audience = cl_Audience client,
      c_ExpiresAt = time_Unix (now + cf_TTL conf), c_IssuedAt = time_Unix now, c_NotBefore = 0,
      c_Extra = [(''scope'', AString (strings_Join granted '' '')), (''client_id'', AString clientID)]\<rparr>"

definition sign_with :: "JWTKeyring option \<Rightarrow> time \<Rightarrow> JWTClaims \<Rightarrow> goerror + string" where
  "sign_with kr now claims = (case kr of None \<Rightarrow> Inl ErrNoActiveKey | Some k \<Rightarrow> Keyring_Sign k now claims)"

definition OAuth2_Issue ::
  "OAuth2Config \<Rightarrow> time \<Rightarrow> time \<Rightarrow> string \<Rightarrow> string \<Rightarrow> string list \<Rightarrow> OAuth2Error + OAuth2Token" where
  "OAuth2_Issue conf now know clientID clientSecret scopes =
     (case m_get (cf_Clients conf) clientID of
        None \<Rightarrow> Inl (oauthError 401 ''invalid_client'' ''unknown client'')
      | Some client \<Rightarrow>
          if clientSecret \<noteq> cl_Secret client then Inl (oauthError 401 ''invalid_client'' ''invalid client secret'')
          else case grant_loop client scopes [] of
            Inl e \<Rightarrow> Inl e
          | Inr granted \<Rightarrow>
              (let granted = sort granted in
               case sign_with (cf_Keyring conf) know (issued_claims conf clientID client granted now) of
                 Inl err \<Rightarrow> Inl (oauthError 500 ''server_error'' (error_text err))
               | Inr token \<Rightarrow>
                   Inr \<lparr>t_AccessToken = token, t_TokenType = ''Bearer'', t_ExpiresIn = cf_TTL conf div Second,
                        t_Scope = strings_Join granted '' ''\<rparr>))"

subsection \<open>The handler\<close>

record OAuthRequest =
  r_Method :: string
  r_PostForm :: "(string, string) gomap option"
  r_BasicAuth :: "(string \<times> string) option"

record OAuthResponse =
  w_Status :: int
  w_Header :: "(string, string) gomap"
  w_Body :: string

text \<open>\<^verbatim>\<open>url.QueryUnescape\<close>.\<close>

fun QueryUnescape :: "string \<Rightarrow> string option" where
  "QueryUnescape [] = Some []"
| "QueryUnescape (c # cs) =
     (if c = CHR ''%'' then
        (case cs of
           a # b # r \<Rightarrow>
             (case (hex_value a, hex_value b) of
                (Some x, Some y) \<Rightarrow> map_option ((#) (char_of (x * 16 + y))) (QueryUnescape (drop 2 cs))
              | _ \<Rightarrow> None)
         | _ \<Rightarrow> None)
      else if c = CHR ''+'' then map_option ((#) (CHR '' '')) (QueryUnescape cs)
      else map_option ((#) c) (QueryUnescape cs))"

definition form_value :: "(string, string) gomap \<Rightarrow> string \<Rightarrow> string" where
  "form_value form key = (case m_get form key of None \<Rightarrow> '''' | Some v \<Rightarrow> v)"

definition unescape_or :: "string \<Rightarrow> string" where
  "unescape_or s = (case QueryUnescape s of Some d \<Rightarrow> d | None \<Rightarrow> s)"

definition clientCredentials :: "OAuthRequest \<Rightarrow> (string, string) gomap \<Rightarrow> string \<times> string" where
  "clientCredentials r form =
     (case r_BasicAuth r of
        Some (id', secret) \<Rightarrow> (unescape_or id', unescape_or secret)
      | None \<Rightarrow> (form_value form ''client_id'', form_value form ''client_secret''))"

text \<open>The JSON text of a struct, with the line end of \<^verbatim>\<open>Encoder.Encode\<close>.\<close>

definition encode_struct :: "(string \<times> string) list \<Rightarrow> string" where
  "encode_struct fs =
     CHR 0x7B # strings_Join (map (\<lambda>(k, v). quote_string k @ '':'' @ v) fs) '','' @ [CHR 0x7D, CHR 0x0A]"

definition encode_token :: "OAuth2Token \<Rightarrow> string" where
  "encode_token t =
     encode_struct ([(''access_token'', quote_string (t_AccessToken t)), (''token_type'', quote_string (t_TokenType t)),
       (''expires_in'', strconv_Itoa (t_ExpiresIn t))] @ (if t_Scope t \<noteq> '''' then [(''scope'', quote_string (t_Scope t))] else []))"

definition encode_error :: "OAuth2Error \<Rightarrow> string" where
  "encode_error e =
     encode_struct ([(''error'', quote_string (e_Code e))] @
       (if e_Description e \<noteq> '''' then [(''error_description'', quote_string (e_Description e))] else []))"

definition writeOAuthError :: "OAuth2Error \<Rightarrow> OAuthResponse" where
  "writeOAuthError e =
     (let status = (if e_status e = 0 then 400 else e_status e)
      in \<lparr>w_Status = status,
          w_Header = (if status = 401 then [(''WWW-Authenticate'', ''Basic'')] else []) @
            [(''Content-Type'', ''application/json''), (''Cache-Control'', ''no-store'')],
          w_Body = encode_error e\<rparr>)"

definition TokenHandler :: "OAuth2Config \<Rightarrow> time \<Rightarrow> time \<Rightarrow> OAuthRequest \<Rightarrow> OAuthResponse" where
  "TokenHandler conf now know r =
     (if r_Method r \<noteq> ''POST'' then writeOAuthError (oauthError 405 ''invalid_request'' ''POST required'')
      else case r_PostForm r of
        None \<Rightarrow> writeOAuthError (oauthError 400 ''invalid_request'' ''malformed form'')
      | Some form \<Rightarrow>
          (let grant = form_value form ''grant_type'' in
           if grant \<noteq> GrantClientCredentials then writeOAuthError (oauthError 400 ''unsupported_grant_type'' grant)
           else case clientCredentials r form of (clientID, clientSecret) \<Rightarrow>
             (case OAuth2_Issue conf now know clientID clientSecret (strings_Fields (form_value form ''scope'')) of
                Inl err \<Rightarrow> writeOAuthError err
              | Inr token \<Rightarrow>
                  \<lparr>w_Status = 200, w_Header = [(''Content-Type'', ''application/json''), (''Cache-Control'', ''no-store'')],
                   w_Body = encode_token token\<rparr>)))"

definition OAuth2Validator :: "JWTKeyring \<Rightarrow> JWTOptions \<Rightarrow> string list \<Rightarrow> time \<Rightarrow> Validator" where
  "OAuth2Validator keyring opts requiredScopes now ctx token =
     (case Keyring_Verify keyring token opts now of
        Inl e \<Rightarrow> (ctx, Some e)
      | Inr claims \<Rightarrow>
          (let pr = JWTClaims_Principal claims
           in if requiredScopes \<noteq> [] \<and> \<not> HasAllPermissions pr requiredScopes then (ctx, Some ErrPermissionDenied)
              else (NewContext ctx pr, None)))"

section \<open>Words separated by white space\<close>

fun no_space :: "string \<Rightarrow> bool" where
  "no_space [] \<longleftrightarrow> True"
| "no_space (c # cs) \<longleftrightarrow> list_all (\<lambda>w. \<not> prefix w (c # cs)) space_runes \<and> no_space cs"

lemma no_space_suffix: "no_space x \<longleftrightarrow> (\<forall>y. suffix y x \<longrightarrow> y \<noteq> [] \<longrightarrow> (\<forall>w \<in> set space_runes. \<not> prefix w y))"
proof (induction x)
  case (Cons c cs)
  then show ?case by (auto simp: suffix_Cons list_all_iff)
qed simp

lemma fields_loop_word:
  assumes "no_space x" "length x < n" "rest = [] \<or> hd rest = CHR '' ''"
  shows "fields_loop n cur (x @ rest) = fields_loop (n - length x) (rev x @ cur) rest"
  using assms(1,2)
proof (induction x arbitrary: n cur)
  case (Cons c cs)
  obtain m where n: "n = Suc m" "length cs < m" using Cons.prems(2) by (cases n) auto
  have "\<not> prefix w (c # cs @ rest)" if w: "w \<in> set space_runes" for w
  proof
    assume "prefix w (c # cs @ rest)"
    moreover have "\<not> prefix w (c # cs)" using Cons.prems(1) w by (simp add: list_all_iff)
    ultimately obtain z where z: "w = (c # cs) @ z" "prefix z rest" unfolding append_Cons [symmetric] prefix_append by blast
    with \<open>\<not> prefix w (c # cs)\<close> obtain d z' where "z = d # z'" by (cases z) simp_all
    moreover from this have "d = CHR '' ''" using z(2) assms(3) by (cases rest) simp_all
    ultimately have "CHR '' '' \<in> set w" "2 \<le> length w" using z(1) by simp_all
    then show False using long_space_runes w unfolding list_all_iff by blast
  qed
  then have "find (\<lambda>w. prefix w (c # cs @ rest)) space_runes = None" unfolding find_None_iff by blast
  then have "fields_loop n cur ((c # cs) @ rest) = fields_loop m (c # cur) (cs @ rest)" using n(1) by simp
  also have "\<dots> = fields_loop (m - length cs) (rev cs @ c # cur) rest" using Cons n(2) by simp
  finally show ?case using n(1) by simp
qed simp

lemma fields_loop_space:
  "fields_loop (Suc n) cur (CHR '' '' # s) = (if cur = '''' then fields_loop n [] s else rev cur # fields_loop n [] s)"
proof -
  have "find (\<lambda>w. prefix w (CHR '' '' # s)) space_runes = Some '' ''" by (simp add: space_runes_def)
  then show ?thesis by (simp add: Let_def)
qed

lemma Fields_Join:
  assumes "list_all (\<lambda>x. x \<noteq> '''' \<and> no_space x) xs"
  shows "strings_Fields (strings_Join xs '' '') = xs"
proof -
  have loop: "fields_loop n (rev x) (concat (map (\<lambda>y. '' '' @ y) ys)) = x # ys"
    if "length (concat (map (\<lambda>y. '' '' @ y) ys)) < n" "x \<noteq> ''''" "list_all (\<lambda>x. x \<noteq> '''' \<and> no_space x) ys" for n x ys
    using that
  proof (induction ys arbitrary: n x)
    case Nil
    then show ?case by (cases n) (simp_all add: Let_def)
  next
    case (Cons y ys)
    let ?rest = "concat (map (\<lambda>y. '' '' @ y) ys)"
    obtain m where n: "n = Suc m" using Cons.prems(1) by (cases n) auto
    have "fields_loop n (rev x) (CHR '' '' # y @ ?rest) = x # fields_loop m [] (y @ ?rest)"
      unfolding n fields_loop_space using Cons.prems(2) by simp
    also have "fields_loop m [] (y @ ?rest) = fields_loop (m - length y) (rev y @ []) ?rest"
      by (rule fields_loop_word) (use Cons.prems n in \<open>auto simp: Cons_eq_append_conv split: list.split, cases ys, auto\<close>)
    also have "\<dots> = y # ys" using Cons.IH [of "m - length y" y] Cons.prems n by simp
    finally show ?case by simp
  qed
  show ?thesis
  proof (cases xs)
    case Nil
    then show ?thesis by (simp add: strings_Fields_def Let_def)
  next
    case (Cons x ys)
    let ?rest = "concat (map (\<lambda>y. '' '' @ y) ys)"
    have "fields_loop (length (x @ ?rest) + 1) [] (x @ ?rest) = fields_loop (length (x @ ?rest) + 1 - length x) (rev x @ []) ?rest"
      by (rule fields_loop_word) (use assms Cons in \<open>auto, cases ys, auto\<close>)
    also have "\<dots> = x # ys" unfolding append_Nil2 by (rule loop) (use assms Cons in auto)
    finally show ?thesis using Cons by (simp add: strings_Fields_def)
  qed
qed

lemma Fields_words: "x \<in> set (strings_Fields s) \<Longrightarrow> x \<noteq> '''' \<and> no_space x"
proof -
  have "x \<noteq> '''' \<and> no_space x"
    if "x \<in> set (fields_loop n cur s)" "\<forall>y. suffix y (rev cur) \<longrightarrow> y \<noteq> [] \<longrightarrow> (\<forall>w \<in> set space_runes. \<not> prefix w (y @ s))" for n cur s
    using that
  proof (induction n arbitrary: cur s)
    case (Suc n)
    have clean: "no_space (rev cur)"
      unfolding no_space_suffix using Suc.prems(2) by (meson prefixI prefix_prefix)
    show ?case
    proof (cases s)
      case Nil
      then show ?thesis using Suc.prems(1) clean by (auto simp: Let_def split: if_splits)
    next
      case (Cons c cs)
      show ?thesis
      proof (cases "find (\<lambda>w. prefix w s) space_runes")
        case None
        then have free: "\<not> prefix w s" if "w \<in> set space_runes" for w using that by (auto simp: find_None_iff)
        have "\<forall>w \<in> set space_runes. \<not> prefix w (y @ cs)" if "suffix y (rev (c # cur))" "y \<noteq> []" for y
        proof -
          obtain z where z: "y = z @ [c]" "suffix z (rev cur)" using \<open>suffix y (rev (c # cur))\<close> \<open>y \<noteq> []\<close> by (auto simp: suffix_snoc)
          then show ?thesis using Suc.prems(2) free Cons by (cases "z = []") auto
        qed
        moreover have "x \<in> set (fields_loop n (c # cur) cs)" using Suc.prems(1) None Cons by (simp add: Let_def)
        ultimately show ?thesis using Suc.IH by blast
      next
        case (Some w)
        then have "x = rev cur \<and> cur \<noteq> [] \<or> x \<in> set (fields_loop n [] (drop (length w) s))"
          using Suc.prems(1) Cons by (auto simp: Let_def split: if_splits)
        then show ?thesis using Suc.IH [of "[]" "drop (length w) s"] clean by auto
      qed
    qed
  qed simp
  from this [of "length s + 1" "[]" s] show "x \<in> set (strings_Fields s) \<Longrightarrow> x \<noteq> '''' \<and> no_space x"
    by (simp add: strings_Fields_def)
qed

section \<open>Issued tokens\<close>

lemma allows_iff: "allows ss scope \<longleftrightarrow> ''*'' \<in> set ss \<or> scope \<in> set ss"
  by (induction ss) auto

text \<open>The scopes a request asks for: trimmed, without the empty ones.\<close>

definition requested :: "string list \<Rightarrow> string list" where
  "requested scopes = filter (\<lambda>s. s \<noteq> '''') (map strings_TrimSpace scopes)"

lemma grant_loop_spec:
  "grant_loop client scopes acc =
     (case find (\<lambda>s. \<not> allows (cl_Scopes client) s) (requested scopes) of
        None \<Rightarrow> Inr (acc @ requested scopes)
      | Some s \<Rightarrow> Inl (oauthError 400 ''invalid_scope'' (''scope not permitted: '' @ s)))"
  by (induction scopes arbitrary: acc) (auto simp: requested_def Let_def split: option.splits)

lemma grant_loop_Inr:
  "grant_loop client scopes [] = Inr granted \<longleftrightarrow>
     granted = requested scopes \<and> (\<forall>s \<in> set (requested scopes). allows (cl_Scopes client) s)"
  by (auto simp: grant_loop_spec find_None_iff find_Some_iff split: option.splits)

lemma OAuth2_Issue_Inr:
  assumes "OAuth2_Issue conf now know clientID clientSecret scopes = Inr tok"
  obtains client kr where "m_get (cf_Clients conf) clientID = Some client" "clientSecret = cl_Secret client"
    "\<forall>s \<in> set (requested scopes). allows (cl_Scopes client) s" "cf_Keyring conf = Some kr"
    "Keyring_Sign kr know (issued_claims conf clientID client (sort (requested scopes)) now) = Inr (t_AccessToken tok)"
    "t_Scope tok = strings_Join (sort (requested scopes)) '' ''" "t_ExpiresIn tok = cf_TTL conf div Second"
  using assms
  by (auto simp: OAuth2_Issue_def sign_with_def grant_loop_Inr Let_def split: option.splits if_splits sum.splits)

lemma no_space_TrimSpace: "no_space x \<Longrightarrow> strings_TrimSpace x = x"
proof (rule TrimSpace_id)
  assume x: "no_space x"
  have ne: "w \<noteq> []" if "w \<in> set space_runes" for w using that space_runes_nonempty by blast
  show "left_trimmed x" unfolding left_trimmed_def
  proof
    fix w assume w: "w \<in> set space_runes"
    show "\<not> prefix w x" using x w ne [OF w] by (cases x) (auto simp: list_all_iff)
  qed
  show "right_trimmed x" unfolding right_trimmed_def
    using x [unfolded no_space_suffix] ne by blast
qed

lemma requested_Fields [simp]: "requested (strings_Fields s) = strings_Fields s"
proof -
  have "map strings_TrimSpace (strings_Fields s) = map (\<lambda>x. x) (strings_Fields s)"
    by (rule map_cong) (simp_all add: Fields_words no_space_TrimSpace)
  then show ?thesis using Fields_words by (auto simp: requested_def filter_id_conv)
qed

lemma scope_keys: "valid_utf8 ''scope''" "valid_utf8 ''client_id''" "(''client_id'' :: string) \<le> ''scope''" "\<not> (''scope'' :: string) \<le> ''client_id''"
  by code_simp+

lemma issued_claims_read_back:
  "read_back (issued_claims conf clientID client granted now) = (issued_claims conf clientID client granted now)
     \<lparr>c_ExpiresAt := max 0 (time_Unix (now + cf_TTL conf)), c_IssuedAt := max 0 (time_Unix now),
      c_Extra := [(''client_id'', AString clientID), (''scope'', AString (strings_Join granted '' ''))]\<rparr>"
  by (simp add: read_back_def issued_claims_def scope_keys)

lemma issued_claims_signable:
  assumes "valid_utf8 clientID" "valid_utf8 (cf_Issuer conf)" "valid_utf8 (cl_Audience client)" "valid_utf8 (strings_Join granted '' '')"
    and "time_Unix (now + cf_TTL conf) \<le> 2 ^ 53" "0 \<le> cf_TTL conf"
  shows "signable (issued_claims conf clientID client granted now)"
proof -
  have "time_Unix now \<le> 2 ^ 53" using assms(5,6) time_Unix_mono [of now "now + cf_TTL conf"] by simp
  then show ?thesis
    using assms scope_keys by (simp add: signable_def issued_claims_def reserved_def maxNestingDepth_def)
qed

lemma issued_principal:
  fixes conf clientID client granted now
  defines "pr \<equiv> JWTClaims_Principal (read_back (issued_claims conf clientID client granted now))"
  assumes "list_all (\<lambda>x. x \<noteq> '''' \<and> no_space x) granted"
  shows "p_Subject pr = clientID" "p_Permissions pr = granted" "p_Roles pr = []"
  using Fields_Join [OF assms(2)] unfolding pr_def issued_claims_read_back
  by (simp_all add: JWTClaims_Principal_def issued_claims_def claim_value_def claimToStrings_def Let_def)

text \<open>
  C38. From the token endpoint to the protected service. A token issued for the scopes of a request belongs to a
  registered client that gave its secret and may have each of these scopes. Whoever validates it with the
  keyring, also after rotations, until it expires, gets a principal with the client as its subject and exactly
  the requested scopes as its permissions, provided that they cover the required scopes, and a denial
  otherwise; after its expiry the token is rejected as expired.
\<close>

theorem OAuth2_end_to_end:
  assumes "NewJWTKeyring first = Inr kr0" "cf_Keyring conf = Some (keyring_run before kr0)"
    and "valid_utf8 (kr_active (keyring_run before kr0))"
    and "list_all (\<lambda>op. op_kid op \<noteq> kr_active (keyring_run before kr0)) after"
    and "OAuth2_Issue conf now know clientID clientSecret (strings_Fields scope) = Inr tok"
    and "list_all valid_utf8 [clientID, cf_Issuer conf, t_Scope tok]" "list_all (\<lambda>c. valid_utf8 (cl_Audience (snd c))) (cf_Clients conf)"
    and "0 < time_Unix (now + cf_TTL conf)" "time_Unix (now + cf_TTL conf) \<le> 2 ^ 53" "0 \<le> cf_TTL conf"
  shows "\<exists>client pr. m_get (cf_Clients conf) clientID = Some client \<and> cl_Secret client = clientSecret
      \<and> (\<forall>s \<in> set (strings_Fields scope). allows (cl_Scopes client) s)
      \<and> p_Subject pr = clientID \<and> set (p_Permissions pr) = set (strings_Fields scope)
      \<and> OAuth2Validator (keyring_run (before @ after) kr0) \<lparr>o_Issuer = cf_Issuer conf, o_Audience = ''''\<rparr> req t ctx (t_AccessToken tok) =
         (if time_Unix (now + cf_TTL conf) \<le> time_Unix t then (ctx, Some ErrExpiredToken)
          else if \<exists>r \<in> set req. \<forall>s \<in> set (strings_Fields scope). \<not> permissionMatches s r then (ctx, Some ErrPermissionDenied)
          else (Some pr, None))"
proof -
  let ?granted = "sort (strings_Fields scope)" and ?opts = "\<lparr>o_Issuer = cf_Issuer conf, o_Audience = ''''\<rparr>"
  obtain client where cl: "m_get (cf_Clients conf) clientID = Some client" "clientSecret = cl_Secret client"
      "\<forall>s \<in> set (strings_Fields scope). allows (cl_Scopes client) s"
      and sign: "Keyring_Sign (keyring_run before kr0) know (issued_claims conf clientID client ?granted now) = Inr (t_AccessToken tok)"
      and scope: "t_Scope tok = strings_Join ?granted '' ''"
    using OAuth2_Issue_Inr [OF assms(5)] assms(2) by (metis option.inject requested_Fields)
  let ?claims = "issued_claims conf clientID client ?granted now"
  have "valid_utf8 (cl_Audience client)" using assms(7) map_of_SomeD [OF cl(1)] by (auto simp: list_all_iff)
  then have "signable ?claims" using assms(6,9,10) scope by (intro issued_claims_signable) auto
  note verify = rotation_roundtrip [OF assms(1) sign this assms(3,4), of ?opts t]
  have words: "list_all (\<lambda>x. x \<noteq> '''' \<and> no_space x) ?granted" using Fields_words by (auto simp: list_all_iff)
  let ?pr = "JWTClaims_Principal (read_back ?claims)"
  note pr = issued_principal [OF words, of conf clientID client now]
  have "validateClaims (read_back ?claims) ?opts t = (if time_Unix (now + cf_TTL conf) \<le> time_Unix t then Some ErrExpiredToken else None)"
    using assms(8) unfolding issued_claims_read_back by (simp add: validateClaims_def issued_claims_def)
  then have "OAuth2Validator (keyring_run (before @ after) kr0) ?opts req t ctx (t_AccessToken tok) =
      (if time_Unix (now + cf_TTL conf) \<le> time_Unix t then (ctx, Some ErrExpiredToken)
       else if \<exists>r \<in> set req. \<forall>s \<in> set (strings_Fields scope). \<not> permissionMatches s r then (ctx, Some ErrPermissionDenied)
       else (Some ?pr, None))"
    unfolding OAuth2Validator_def verify checked_def using pr by (auto simp: Let_def NewContext_def auth_simps)
  then show ?thesis using cl pr by (intro exI [of _ client] exI [of _ ?pr]) simp
qed

text \<open>
  The responses of the endpoint: a token needs a POST of the client-credentials grant that \<^verbatim>\<open>Issue\<close> accepts,
  and only the failures to authenticate the client are 401, with the challenge that HTTP demands of them.
\<close>

lemma Issue_status:
  "OAuth2_Issue conf now know clientID secret scopes = Inl e \<Longrightarrow>
     e_status e = 401 \<and> e_Code e = ''invalid_client'' \<and> (\<forall>client. m_get (cf_Clients conf) clientID = Some client \<longrightarrow> secret \<noteq> cl_Secret client)
     \<or> e_status e = 400 \<and> e_Code e = ''invalid_scope'' \<or> e_status e = 500 \<and> e_Code e = ''server_error''"
  by (auto simp: OAuth2_Issue_def oauthError_def grant_loop_spec Let_def split: option.splits if_splits sum.splits)

lemma TokenHandler_responses:
  fixes conf now know r
  defines "w \<equiv> TokenHandler conf now know r"
  shows "w_Status w \<in> {200, 400, 401, 405, 500}"
    "w_Status w = 401 \<longleftrightarrow> m_get (w_Header w) ''WWW-Authenticate'' = Some ''Basic''"
    "w_Status w = 200 \<Longrightarrow> \<exists>form tok. r_Method r = ''POST'' \<and> r_PostForm r = Some form
       \<and> OAuth2_Issue conf now know (fst (clientCredentials r form)) (snd (clientCredentials r form)) (strings_Fields (form_value form ''scope'')) = Inr tok
       \<and> w_Body w = encode_token tok"
proof -
  have err: "w_Status (writeOAuthError e) = (if e_status e = 0 then 400 else e_status e)"
    "m_get (w_Header (writeOAuthError e)) ''WWW-Authenticate'' = (if e_status e = 401 then Some ''Basic'' else None)" for e
    by (simp_all add: writeOAuthError_def Let_def)
  show "w_Status w \<in> {200, 400, 401, 405, 500}" "w_Status w = 401 \<longleftrightarrow> m_get (w_Header w) ''WWW-Authenticate'' = Some ''Basic''"
    unfolding w_def TokenHandler_def
    by (auto simp: err Let_def oauthError_def split: option.splits prod.splits sum.splits dest!: Issue_status)
  show "\<exists>form tok. r_Method r = ''POST'' \<and> r_PostForm r = Some form
       \<and> OAuth2_Issue conf now know (fst (clientCredentials r form)) (snd (clientCredentials r form)) (strings_Fields (form_value form ''scope'')) = Inr tok
       \<and> w_Body w = encode_token tok" if "w_Status w = 200"
    using that unfolding w_def TokenHandler_def
    by (auto simp: err Let_def oauthError_def split: option.splits prod.splits sum.splits if_splits dest: Issue_status)
qed

text \<open>A client with a wildcard scope, validated after a rotation of the keys.\<close>

definition shop :: OAuth2Config where
  "shop = \<lparr>cf_Keyring = Some \<lparr>kr_active = ''a'', kr_keys = [(''a'', key_a)]\<rparr>, cf_Issuer = ''shop'', cf_TTL = 60 * Minute,
     cf_Clients = [(''web'', \<lparr>cl_Secret = ''pw'', cl_Scopes = [''orders:*''], cl_Audience = ''''\<rparr>)]\<rparr>"

lemma shop_issues: "\<exists>tok. OAuth2_Issue shop unixEpoch 0 ''web'' ''pw'' (strings_Fields ''orders:*'') = Inr tok \<and> t_Scope tok = ''orders:*''"
proof -
  have f: "strings_Fields ''orders:*'' = [''orders:*'']" by code_simp
  then have "requested [''orders:*''] = [''orders:*'']" using requested_Fields [of "''orders:*''"] by simp
  then have "grant_loop c [''orders:*''] [] = Inr [''orders:*'']" if "cl_Scopes c = [''orders:*'']" for c
    unfolding grant_loop_Inr using that by simp
  then show ?thesis using key_a_signs(2)
    by (simp add: f OAuth2_Issue_def shop_def sign_with_def Let_def split: sum.split) (metis sum.distinct(1))
qed

theorem OAuth2_end_to_end_witness:
  "\<exists>tok pr. OAuth2_Issue shop unixEpoch 0 ''web'' ''pw'' (strings_Fields ''orders:*'') = Inr tok
     \<and> OAuth2Validator (keyring_run ([] @ [KRotate key_b]) \<lparr>kr_active = ''a'', kr_keys = [(''a'', key_a)]\<rparr>)
         \<lparr>o_Issuer = ''shop'', o_Audience = ''''\<rparr> [''orders:read''] (unixEpoch + Second) None (t_AccessToken tok) = (Some pr, None)"
proof -
  let ?kr = "\<lparr>kr_active = ''a'', kr_keys = [(''a'', key_a)]\<rparr>"
  obtain tok where tok: "OAuth2_Issue shop unixEpoch 0 ''web'' ''pw'' (strings_Fields ''orders:*'') = Inr tok" "t_Scope tok = ''orders:*''"
    using shop_issues by blast
  have u: "valid_utf8 ''a''" "valid_utf8 ''web''" "valid_utf8 ''shop''" "valid_utf8 ''orders:*''" "valid_utf8 ''''" by code_simp+
  have kr: "cf_Keyring shop = Some (keyring_run [] ?kr)" by (simp add: shop_def keyring_run_def)
  have side: "valid_utf8 (kr_active (keyring_run [] ?kr))" "list_all (\<lambda>op. op_kid op \<noteq> kr_active (keyring_run [] ?kr)) [KRotate key_b]"
    "list_all valid_utf8 [''web'', cf_Issuer shop, t_Scope tok]" "list_all (\<lambda>c. valid_utf8 (cl_Audience (snd c))) (cf_Clients shop)"
    "0 < time_Unix (unixEpoch + cf_TTL shop)" "time_Unix (unixEpoch + cf_TTL shop) \<le> 2 ^ 53" "0 \<le> cf_TTL shop"
    using u tok(2) by (simp_all add: keyring_run_def key_b_def shop_def time_Unix_def)
  have f: "strings_Fields ''orders:*'' = [''orders:*'']" by code_simp
  have "permissionMatches ''orders:*'' ''orders:read''" by code_simp
  moreover have "\<not> time_Unix (unixEpoch + cf_TTL shop) \<le> time_Unix (unixEpoch + Second)" "cf_Issuer shop = ''shop''"
    by (simp_all add: shop_def time_Unix_def)
  ultimately show ?thesis
    using OAuth2_end_to_end [OF key_a_signs(1) kr side(1,2) tok(1) side(3-7), of "[''orders:read'']" "unixEpoch + Second" None] tok(1)
    by (auto simp: f)
qed

text \<open>The refresh grant, which the package names, is not one the endpoint accepts.\<close>

lemma refresh_token_unsupported:
  assumes "r_Method r = ''POST''" "r_PostForm r = Some form" "form_value form ''grant_type'' = ''refresh_token''"
  shows "TokenHandler conf now know r = writeOAuthError (oauthError 400 ''unsupported_grant_type'' ''refresh_token'')"
  using assms by (simp add: TokenHandler_def GrantClientCredentials_def Let_def)

end
