(* ===== verification/Signature.thy ===== *)
theory Signature
  imports JWT
begin

text \<open>
  HMAC signatures of requests (\<^verbatim>\<open>src/core/auth/signature.go\<close>). A request is what the code reads of it: method,
  request URI and the two headers (empty when absent); the body is a string of bytes. \<^verbatim>\<open>strings.ToUpper\<close> is
  that of ASCII, which the method of an HTTP request is.
\<close>

section \<open>Definitions\<close>

record SignatureOptions =
  so_Secret :: string
  so_MaxAge :: duration

record SignedRequest =
  rq_Method :: string
  rq_RequestURI :: string
  rq_Signature :: string
  rq_Timestamp :: string

definition canonicalRequest :: "string \<Rightarrow> string \<Rightarrow> string \<Rightarrow> int \<Rightarrow> string" where
  "canonicalRequest method path body timestamp =
     strings_ToUpper method @ CHR 0x0A # path @ CHR 0x0A # strconv_Itoa timestamp @ CHR 0x0A #
       hex_EncodeToString (sha256_Sum256 (bytes_of body))"

definition SignRequest :: "string \<Rightarrow> string \<Rightarrow> string \<Rightarrow> int \<Rightarrow> string \<Rightarrow> string" where
  "SignRequest method path body timestamp secret =
     ''sha256='' @ hex_EncodeToString (hmac_sha256 (bytes_of secret) (bytes_of (canonicalRequest method path body timestamp)))"

definition equalSignature :: "string \<Rightarrow> string \<Rightarrow> bool" where
  "equalSignature a b \<longleftrightarrow> strings_TrimSpace a = strings_TrimSpace b"

text \<open>\<^verbatim>\<open>time.Unix(s, 0)\<close>: the seconds since the zero time are an \<^verbatim>\<open>int64\<close>.\<close>

definition time_of_Unix :: "int \<Rightarrow> time" where
  "time_of_Unix s = wrap64 (s + 62135596800) * Second"

definition VerifyRequestSignature :: "SignedRequest \<Rightarrow> string \<Rightarrow> SignatureOptions \<Rightarrow> time \<Rightarrow> goerror option" where
  "VerifyRequestSignature r body opts now =
     (if so_Secret opts = '''' then Some ErrMissingCredentials
      else if rq_Signature r = '''' \<or> rq_Timestamp r = '''' then Some ErrMissingCredentials
      else case strconv_ParseInt (rq_Timestamp r) of
        None \<Rightarrow> Some ErrInvalidCredentials
      | Some timestamp \<Rightarrow>
          (let delta = time_Sub now (time_of_Unix timestamp) in
           if so_MaxAge opts > 0 \<and> (delta < - so_MaxAge opts \<or> delta > so_MaxAge opts) then Some ErrExpiredToken
           else if \<not> equalSignature (rq_Signature r) (SignRequest (rq_Method r) (rq_RequestURI r) body timestamp (so_Secret opts))
           then Some ErrInvalidCredentials
           else None))"

section \<open>Encodings\<close>

lemma hex_digit_inj: "m < 16 \<Longrightarrow> n < 16 \<Longrightarrow> hex_digit m = hex_digit n \<Longrightarrow> m = n"
  by (metis hex_value_digit option.inject)

lemma nibbles: "unat (w :: 8 word) div 16 < 16" "unat w mod 16 < 16"
  using unsigned_less [of w, where 'a = nat] by auto

lemma hex_EncodeToString_inj: "hex_EncodeToString xs = hex_EncodeToString ys \<Longrightarrow> xs = ys"
proof (induction xs arbitrary: ys)
  case Nil
  then show ?case by (cases ys) (simp_all add: hex_EncodeToString_def)
next
  case (Cons x xs)
  obtain y ys' where ys: "ys = y # ys'" using Cons.prems by (cases ys) (simp_all add: hex_EncodeToString_def)
  have "unat x div 16 = unat y div 16" "unat x mod 16 = unat y mod 16"
    using Cons.prems ys nibbles by (auto simp: hex_EncodeToString_def intro!: hex_digit_inj)
  then have "unat x = unat y" by (metis div_mult_mod_eq)
  then have "x = y" by (rule unsigned_word_eqI)
  moreover have "xs = ys'" using Cons ys by (simp add: hex_EncodeToString_def)
  ultimately show ?case using ys by simp
qed

lemma hex_digit_plain: "n < 16 \<Longrightarrow> 48 \<le> byte (hex_digit n)"
  by (simp add: hex_digit_def)

lemma hex_chars: "c \<in> set (hex_EncodeToString bs) \<Longrightarrow> 48 \<le> byte c"
proof -
  assume "c \<in> set (hex_EncodeToString bs)"
  then obtain w where "c = hex_digit (unat (w :: 8 word) div 16) \<or> c = hex_digit (unat w mod 16)" by (auto simp: hex_EncodeToString_def)
  then obtain n where "n < 16" "c = hex_digit n" using nibbles [of w] by blast
  then show ?thesis using hex_digit_plain by simp
qed

lemma Itoa_inj: "int64_range s \<Longrightarrow> int64_range t \<Longrightarrow> strconv_Itoa s = strconv_Itoa t \<Longrightarrow> s = t"
  by (metis ParseInt_Itoa option.inject)

lemma Itoa_plain: "CHR 0x0A \<notin> set (strconv_Itoa i)"
  using nat_digits_digits [of "CHR 0x0A"] by (auto simp: strconv_Itoa_def is_digit_def)

lemma ascii_upper_plain: "ascii_upper c = CHR 0x0A \<longleftrightarrow> c = CHR 0x0A"
proof -
  have "byte (ascii_upper c) = byte (CHR 0x0A) \<longleftrightarrow> byte c = byte (CHR 0x0A)" by (auto simp: ascii_upper_def)
  then show ?thesis by (simp only: of_char_eq_iff)
qed

text \<open>The canonical text determines its parts.\<close>

lemma canonicalRequest_inj:
  assumes "canonicalRequest m p b t = canonicalRequest m' p' b' t'"
    and "CHR 0x0A \<notin> set (m @ p @ m' @ p')" "int64_range t" "int64_range t'"
  shows "map ascii_upper m = map ascii_upper m'" "p = p'" "t = t'"
    "sha256_Sum256 (bytes_of b) = sha256_Sum256 (bytes_of b')"
proof -
  have split: "strings_Split (CHR 0x0A) (canonicalRequest m p b t) =
      [map ascii_upper m, p, strconv_Itoa t, hex_EncodeToString (sha256_Sum256 (bytes_of b))]"
    if "CHR 0x0A \<notin> set (m @ p)" for m p b t
  proof -
    have "CHR 0x0A \<notin> set (map ascii_upper m)"
    proof
      assume "CHR 0x0A \<in> set (map ascii_upper m)"
      then obtain c where "c \<in> set m" "ascii_upper c = CHR 0x0A" by auto
      then show False using ascii_upper_plain [of c] that by simp
    qed
    moreover have "CHR 0x0A \<notin> set (hex_EncodeToString x)" for x using hex_chars [of "CHR 0x0A" x] by auto
    moreover have "CHR 0x0A \<notin> set p" using that by simp
    ultimately show ?thesis
      unfolding canonicalRequest_def strings_ToUpper_def by (simp only: Split_join Split_single Itoa_plain not_False_eq_True)
  qed
  have "CHR 0x0A \<notin> set (m @ p)" "CHR 0x0A \<notin> set (m' @ p')" using assms(2) by auto
  from split [OF this(1), of b t] split [OF this(2), of b' t']
  have eq: "map ascii_upper m = map ascii_upper m'" "p = p'" "strconv_Itoa t = strconv_Itoa t'"
    "hex_EncodeToString (sha256_Sum256 (bytes_of b)) = hex_EncodeToString (sha256_Sum256 (bytes_of b'))"
    unfolding assms(1) by simp_all
  show "map ascii_upper m = map ascii_upper m'" "p = p'" by (rule eq)+
  show "t = t'" by (rule Itoa_inj [OF assms(3,4) eq(3)])
  show "sha256_Sum256 (bytes_of b) = sha256_Sum256 (bytes_of b')" by (rule hex_EncodeToString_inj [OF eq(4)])
qed

section \<open>Signatures\<close>

lemma visible_TrimSpace:
  assumes "\<forall>c \<in> set s. 33 \<le> byte c \<and> byte c \<le> 127"
  shows "strings_TrimSpace s = s"
proof (rule TrimSpace_id)
  have "list_all (\<lambda>w. list_ex (\<lambda>c. byte c < 33 \<or> 127 < byte c) w) space_runes" by (simp add: space_runes_def)
  then have *: "\<not> set w \<subseteq> set s" if "w \<in> set space_runes" for w
    using that assms by (fastforce simp: list_all_iff list_ex_iff)
  show "left_trimmed s" unfolding left_trimmed_def using * set_mono_prefix by blast
  show "right_trimmed s" unfolding right_trimmed_def using * set_mono_suffix by blast
qed

lemma SignRequest_visible: "strings_TrimSpace (SignRequest m p b t k) = SignRequest m p b t k"
proof (rule visible_TrimSpace)
  have "byte (hex_digit n) \<le> 127" if "n < 16" for n using that by (simp add: hex_digit_def)
  then have "byte c \<le> 127" if "c \<in> set (hex_EncodeToString bs)" for c bs
    using that nibbles by (auto simp: hex_EncodeToString_def)
  moreover have "33 \<le> byte c" if "c \<in> set (hex_EncodeToString bs)" for c bs using hex_chars [OF that] by simp
  ultimately show "\<forall>c \<in> set (SignRequest m p b t k). 33 \<le> byte c \<and> byte c \<le> 127" unfolding SignRequest_def by auto
qed

lemma Verify_None:
  assumes "VerifyRequestSignature r body opts now = None"
  obtains t where "strconv_ParseInt (rq_Timestamp r) = Some t" "so_Secret opts \<noteq> ''''" "rq_Signature r \<noteq> ''''" "rq_Timestamp r \<noteq> ''''"
    "so_MaxAge opts > 0 \<Longrightarrow> - so_MaxAge opts \<le> time_Sub now (time_of_Unix t) \<and> time_Sub now (time_of_Unix t) \<le> so_MaxAge opts"
    "strings_TrimSpace (rq_Signature r) = SignRequest (rq_Method r) (rq_RequestURI r) body t (so_Secret opts)"
  using assms
  by (auto simp: VerifyRequestSignature_def equalSignature_def SignRequest_visible Let_def not_less split: if_splits option.splits)

lemma ParseInt_range: "strconv_ParseInt s = Some t \<Longrightarrow> int64_range t"
  by (auto simp: strconv_ParseInt_def Let_def split: if_splits)

text \<open>
  A request signed by \<^verbatim>\<open>SignRequest\<close> is accepted while its timestamp is within \<^verbatim>\<open>MaxAge\<close> of the verifier's clock
  (or always, if there is no \<^verbatim>\<open>MaxAge\<close>), also if the signature header gained white space; outside it is expired.
\<close>

theorem RequestSignature_roundtrip:
  assumes "so_Secret opts \<noteq> ''''" "int64_range t" "rq_Timestamp r = strconv_Itoa t"
    and "strings_TrimSpace (rq_Signature r) = SignRequest (rq_Method r) (rq_RequestURI r) body t (so_Secret opts)"
  shows "VerifyRequestSignature r body opts now =
    (if so_MaxAge opts > 0 \<and> \<bar>time_Sub now (time_of_Unix t)\<bar> > so_MaxAge opts then Some ErrExpiredToken else None)"
proof -
  have "strings_TrimSpace [] = []" by code_simp
  then have "rq_Signature r \<noteq> ''''" using assms(4) by (auto simp: SignRequest_def)
  moreover have "rq_Timestamp r \<noteq> ''''" using assms(3) by (simp add: strconv_Itoa_def)
  moreover have "strconv_ParseInt (rq_Timestamp r) = Some t" using assms(2,3) by (simp add: ParseInt_Itoa)
  ultimately show ?thesis
    using assms(1,4) by (auto simp: VerifyRequestSignature_def equalSignature_def SignRequest_visible Let_def)
qed

text \<open>Two different messages with the same HMAC under a key.\<close>

definition collides :: "string \<Rightarrow> string \<Rightarrow> string \<Rightarrow> bool" where
  "collides key x y \<longleftrightarrow> x \<noteq> y \<and> hmac_sha256 (bytes_of key) (bytes_of x) = hmac_sha256 (bytes_of key) (bytes_of y)"

text \<open>
  C39. What a signature binds. If two requests are accepted with the same signature under the same secret, then
  they have the same method (up to the case of letters), the same URI, the same timestamp and bodies with the
  same SHA-256 digest, unless the canonical texts of these two requests are themselves a collision of the HMAC
  under the secret.
\<close>

theorem RequestSignature_binds:
  assumes "VerifyRequestSignature r1 body1 opts now1 = None" "VerifyRequestSignature r2 body2 opts now2 = None"
    and "strings_TrimSpace (rq_Signature r1) = strings_TrimSpace (rq_Signature r2)"
    and "CHR 0x0A \<notin> set (rq_Method r1 @ rq_RequestURI r1 @ rq_Method r2 @ rq_RequestURI r2)"
  shows "\<exists>t1 t2. strconv_ParseInt (rq_Timestamp r1) = Some t1 \<and> strconv_ParseInt (rq_Timestamp r2) = Some t2 \<and>
    (map ascii_upper (rq_Method r1) = map ascii_upper (rq_Method r2) \<and> rq_RequestURI r1 = rq_RequestURI r2 \<and> t1 = t2
      \<and> sha256_Sum256 (bytes_of body1) = sha256_Sum256 (bytes_of body2)
    \<or> collides (so_Secret opts) (canonicalRequest (rq_Method r1) (rq_RequestURI r1) body1 t1)
        (canonicalRequest (rq_Method r2) (rq_RequestURI r2) body2 t2))"
proof -
  obtain t1 where 1: "strconv_ParseInt (rq_Timestamp r1) = Some t1"
      "strings_TrimSpace (rq_Signature r1) = SignRequest (rq_Method r1) (rq_RequestURI r1) body1 t1 (so_Secret opts)"
    by (rule Verify_None [OF assms(1)])
  obtain t2 where 2: "strconv_ParseInt (rq_Timestamp r2) = Some t2"
      "strings_TrimSpace (rq_Signature r2) = SignRequest (rq_Method r2) (rq_RequestURI r2) body2 t2 (so_Secret opts)"
    by (rule Verify_None [OF assms(2)])
  let ?c1 = "canonicalRequest (rq_Method r1) (rq_RequestURI r1) body1 t1" and ?c2 = "canonicalRequest (rq_Method r2) (rq_RequestURI r2) body2 t2"
  have mac: "hmac_sha256 (bytes_of (so_Secret opts)) (bytes_of ?c1) = hmac_sha256 (bytes_of (so_Secret opts)) (bytes_of ?c2)"
  proof (rule hex_EncodeToString_inj)
    have "SignRequest (rq_Method r1) (rq_RequestURI r1) body1 t1 (so_Secret opts) = SignRequest (rq_Method r2) (rq_RequestURI r2) body2 t2 (so_Secret opts)"
      using assms(3) unfolding 1(2) 2(2) .
    then show "hex_EncodeToString (hmac_sha256 (bytes_of (so_Secret opts)) (bytes_of ?c1)) = hex_EncodeToString (hmac_sha256 (bytes_of (so_Secret opts)) (bytes_of ?c2))"
      unfolding SignRequest_def by (rule same_append_eq [THEN iffD1])
  qed
  show ?thesis
  proof (cases "?c1 = ?c2")
    case True
    note eq = canonicalRequest_inj [OF this assms(4) ParseInt_range [OF 1(1)] ParseInt_range [OF 2(1)]]
    show ?thesis by (intro exI conjI disjI1) (rule 1(1) 2(1) eq)+
  next
    case False
    then have "collides (so_Secret opts) ?c1 ?c2" unfolding collides_def using mac by (rule conjI)
    then show ?thesis using 1(1) 2(1) by blast
  qed
qed

text \<open>
  C40. Replays. With a positive \<^verbatim>\<open>MaxAge\<close>, a request that was accepted is rejected as expired at every time more than twice \<^verbatim>\<open>MaxAge\<close> later,
  and never accepted again from then on.
\<close>

theorem RequestSignature_replay_window:
  assumes "0 < so_MaxAge opts" "so_MaxAge opts < maxDuration"
    and "VerifyRequestSignature r body opts now = None" "now + 2 * so_MaxAge opts < now'"
  shows "VerifyRequestSignature r body' opts now' = Some ErrExpiredToken"
proof -
  obtain t where t: "strconv_ParseInt (rq_Timestamp r) = Some t" "so_Secret opts \<noteq> ''''" "rq_Signature r \<noteq> ''''" "rq_Timestamp r \<noteq> ''''"
      "- so_MaxAge opts \<le> time_Sub now (time_of_Unix t) \<and> time_Sub now (time_of_Unix t) \<le> so_MaxAge opts"
    using Verify_None [OF assms(3)] assms(1) by metis
  have "- so_MaxAge opts \<le> now - time_of_Unix t"
    using t(5) assms(1,2) by (auto simp: time_Sub_def minDuration_def maxDuration_def max_def min_def split: if_splits)
  then have "so_MaxAge opts < now' - time_of_Unix t" using assms(4) by linarith
  then have "so_MaxAge opts < time_Sub now' (time_of_Unix t)" using assms(1,2) by (auto simp: time_Sub_def)
  then show ?thesis using t assms(1) by (simp add: VerifyRequestSignature_def Let_def)
qed

section \<open>Witnesses\<close>

definition one_minute :: SignatureOptions where "one_minute = \<lparr>so_Secret = ''k'', so_MaxAge = Minute\<rparr>"

definition signed_get :: SignedRequest where
  "signed_get = \<lparr>rq_Method = ''GET'', rq_RequestURI = ''/'', rq_Signature = SignRequest ''GET'' ''/'' '''' 0 ''k'', rq_Timestamp = ''0''\<rparr>"

lemma Itoa_0: "strconv_Itoa 0 = ''0''"
  by code_simp

theorem RequestSignature_roundtrip_witness:
  "VerifyRequestSignature signed_get '''' one_minute unixEpoch = None"
proof -
  have "VerifyRequestSignature signed_get '''' one_minute unixEpoch =
      (if so_MaxAge one_minute > 0 \<and> \<bar>time_Sub unixEpoch (time_of_Unix 0)\<bar> > so_MaxAge one_minute then Some ErrExpiredToken else None)"
    by (rule RequestSignature_roundtrip) (simp_all add: one_minute_def signed_get_def SignRequest_visible Itoa_0 int64_range_def)
  then show ?thesis by (simp add: one_minute_def time_of_Unix_def unixEpoch_def wrap64_def)
qed

lemma signed_get_accepted: "VerifyRequestSignature signed_get '''' one_minute unixEpoch = None"
proof -
  have "strconv_ParseInt ''0'' = Some 0" using ParseInt_Itoa [of 0] by (simp add: Itoa_0 int64_range_def)
  then show ?thesis
    by (simp add: VerifyRequestSignature_def signed_get_def one_minute_def equalSignature_def SignRequest_def Let_def
      time_of_Unix_def unixEpoch_def wrap64_def)
qed

lemma signed_lower_accepted: "VerifyRequestSignature (signed_get\<lparr>rq_Method := ''get''\<rparr>) '''' one_minute unixEpoch = None"
proof -
  have "map ascii_upper ''get'' = map ascii_upper ''GET''" by code_simp
  then have "SignRequest ''get'' ''/'' '''' 0 ''k'' = SignRequest ''GET'' ''/'' '''' 0 ''k''"
    unfolding SignRequest_def canonicalRequest_def strings_ToUpper_def by simp
  moreover have "strconv_ParseInt ''0'' = Some 0" using ParseInt_Itoa [of 0] by (simp add: Itoa_0 int64_range_def)
  moreover have "SignRequest ''GET'' ''/'' '''' 0 ''k'' \<noteq> ''''" by (simp add: SignRequest_def)
  ultimately show ?thesis
    by (simp add: VerifyRequestSignature_def signed_get_def one_minute_def equalSignature_def Let_def
      time_of_Unix_def unixEpoch_def wrap64_def)
qed

theorem RequestSignature_binds_witness:
  "let r = signed_get; r' = signed_get\<lparr>rq_Method := ''get''\<rparr>
   in VerifyRequestSignature r '''' one_minute unixEpoch = None \<and> VerifyRequestSignature r' '''' one_minute unixEpoch = None \<and>
      (\<exists>t t'. strconv_ParseInt (rq_Timestamp r) = Some t \<and> strconv_ParseInt (rq_Timestamp r') = Some t' \<and>
        (map ascii_upper (rq_Method r) = map ascii_upper (rq_Method r') \<and> rq_RequestURI r = rq_RequestURI r' \<and> t = t'
          \<and> sha256_Sum256 (bytes_of '''') = sha256_Sum256 (bytes_of '''')
        \<or> collides (so_Secret one_minute) (canonicalRequest (rq_Method r) (rq_RequestURI r) '''' t)
            (canonicalRequest (rq_Method r') (rq_RequestURI r') '''' t')))"
proof -
  have "strings_TrimSpace (rq_Signature signed_get) = strings_TrimSpace (rq_Signature (signed_get\<lparr>rq_Method := ''get''\<rparr>))"
    "CHR 0x0A \<notin> set (rq_Method signed_get @ rq_RequestURI signed_get @ rq_Method (signed_get\<lparr>rq_Method := ''get''\<rparr>)
       @ rq_RequestURI (signed_get\<lparr>rq_Method := ''get''\<rparr>))"
    by (simp_all add: signed_get_def)
  from RequestSignature_binds [OF signed_get_accepted signed_lower_accepted this] show ?thesis
    unfolding Let_def using signed_get_accepted signed_lower_accepted by blast
qed

theorem RequestSignature_replay_window_witness:
  "VerifyRequestSignature signed_get ''x'' one_minute (unixEpoch + 3 * Minute) = Some ErrExpiredToken"
  by (rule RequestSignature_replay_window [OF _ _ signed_get_accepted]) (simp_all add: one_minute_def maxDuration_def)

end
