(* ===== verification/Spec2Isabelle.thy ===== *)
theory Spec2Isabelle
  imports Float64 Breaker AdaptiveBreaker GoogleBreaker TokenBucket SlidingWindow LoadLimiter Retry Lock Saga Outbox
    Bloom SingleFlight Cache Sha256 DI P2CEWMA OAuth2 Signature
begin

text \<open>
  A verification library for the runtime core of gofly, a Go framework for microservices.

  \<^bold>\<open>The program.\<close> The packages under \<^verbatim>\<open>src/core\<close> keep a service alive and honest: circuit breakers, rate and
  concurrency limiters, retries, locks, sagas, a transactional outbox, a Bloom filter, a single-flight group, a
  dependency-injection container, structured errors and authentication. \<^verbatim>\<open>src/cache\<close> is an in-memory cache built
  over the single-flight group and guarded by a Bloom filter; \<^verbatim>\<open>src/rpc\<close> chooses an endpoint for each call. REST,
  RPC and gateway code wires these parts around handlers.

  \<^bold>\<open>Conventions.\<close> A Go struct is a record, an enumeration a datatype, a method one definition with the state
  passed in and returned; a method that takes the mutex of its struct is one atomic step. \<^verbatim>\<open>time.Time\<close> and
  \<^verbatim>\<open>time.Duration\<close> are integers of nanoseconds; \<^verbatim>\<open>Sub\<close> saturates, and other 64-bit sums go through
  \<^const>\<open>wrap64\<close> where the code can overflow. A Go map is an association list with distinct keys, so the order in
  which \<^verbatim>\<open>range\<close> visits it is explicit. Strings are lists of bytes. A \<^verbatim>\<open>float64\<close> is the rational it
  denotes, and every operation rounds to nearest even (\<^const>\<open>fl\<close>). A fallible call returns \<open>goerror + 'a\<close>, with the
  error chains of \<^verbatim>\<open>errors.Is\<close>; a panic is a value of its own. The clock, random draws, user functions and
  contexts are arguments. Concurrency is a sequence of atomic steps by any number of callers: an inductive step
  relation, or a run over a list of events.

  \<^bold>\<open>Foundations.\<close> \<^verbatim>\<open>Prelude\<close>: errors, integers, time, maps, lists. \<^verbatim>\<open>Float64\<close>: rounding, its monotonicity and
  its relative error. \<^verbatim>\<open>GoStrings\<close>, \<^verbatim>\<open>GoEncoding\<close>, \<^verbatim>\<open>GoJson\<close>, \<^verbatim>\<open>Sha256\<close>: what the code uses of
  \<^verbatim>\<open>strings\<close>, \<^verbatim>\<open>encoding/base64\<close>, \<^verbatim>\<open>strconv\<close>, \<^verbatim>\<open>encoding/json\<close>, \<^verbatim>\<open>crypto/sha256\<close> and \<^verbatim>\<open>crypto/hmac\<close>, with
  decoding after encoding as the identity (\<^verbatim>\<open>JsonRoundTrip\<close> for JSON documents). \<^verbatim>\<open>Rolling\<close>: the ring of time
  buckets that three components keep, and the locale \<open>counter_ring\<close>, whose interpretations say that the ring counts
  exactly the events of the window.

  \<^bold>\<open>Protection of a service.\<close>
  \<^item> \<^verbatim>\<open>Breaker\<close>, \<^verbatim>\<open>AdaptiveBreaker\<close> (\<^verbatim>\<open>core/breaker/breaker.go\<close>), \<^verbatim>\<open>GoogleBreaker\<close> (\<^verbatim>\<open>google.go\<close>):
    reachable states, when a breaker opens, that one probe at a time tests an open circuit (locale \<open>probe_gate\<close>), that a
    call whose function panics gives its probe back (one whose \<^verbatim>\<open>acceptable\<close> panics does not), and refinement of the ring to the list of all outcomes.
  \<^item> \<^verbatim>\<open>TokenBucket\<close>, \<^verbatim>\<open>SlidingWindow\<close>, \<^verbatim>\<open>LoadLimiter\<close> (\<^verbatim>\<open>core/limit\<close>): how many calls a limiter admits between two
    instants, with the rounding errors of \<^verbatim>\<open>float64\<close> accounted for, and how many are in flight. The quota of the
    sliding window is kept for requests that do not overflow its 64-bit sum; one that does is admitted.
  \<^item> \<^verbatim>\<open>Retry\<close> (\<^verbatim>\<open>core/retry\<close>): number and order of calls and delays, the returned error, bounds on jitter.

  \<^bold>\<open>State shared between processes.\<close>
  \<^item> \<^verbatim>\<open>KV\<close> (\<^verbatim>\<open>core/kv\<close>): the store is a map with expiry, for every sequence of operations and every answer; \<open>kv_store\<close> is the contract of a store.
  \<^item> \<^verbatim>\<open>Lock\<close> (\<^verbatim>\<open>core/lock\<close>): mutual exclusion of the in-process locker and of the locker over a store, and the
    guard that keeps a lease alive. Over a store, what excludes others is the stored entry, which expires no later than
    the lease names when the clock does not go back.
  \<^item> \<^verbatim>\<open>Saga\<close> (\<^verbatim>\<open>core/saga\<close>): compensation in reverse order; the persisted record tells the truth.
  \<^item> \<^verbatim>\<open>Outbox\<close> (\<^verbatim>\<open>core/outbox\<close>): no message is lost under any interleaving of relays, leases are exclusive, and a
    relay settles each record of its batch (over \<open>outbox_store\<close>, the contract of the record store).

  \<^bold>\<open>Caching.\<close> \<^verbatim>\<open>Bloom\<close> (\<^verbatim>\<open>core/bloom\<close>), \<^verbatim>\<open>SingleFlight\<close> (\<^verbatim>\<open>core/syncx\<close>) and \<^verbatim>\<open>Cache\<close> (\<^verbatim>\<open>cache/cache.go\<close>): membership
  without false negatives, one execution per key, and the refinement of the cache to a list in order of use. This
  theory joins the filter and the cache.

  \<^bold>\<open>Assembly and calls.\<close> \<^verbatim>\<open>DI\<close> (\<^verbatim>\<open>core/di\<close>): termination of resolution with cycles, type safety, shutdown in
  reverse order. \<^verbatim>\<open>CoreErrors\<close> (\<^verbatim>\<open>core/errors\<close>): codes survive the gRPC status. \<^verbatim>\<open>Balancer\<close> and \<^verbatim>\<open>P2CEWMA\<close>
  (\<^verbatim>\<open>rpc/balancer.go\<close>, \<^verbatim>\<open>rpc/p2c_ewma.go\<close>): fairness, ejection of failing endpoints, minimal movement of keys.

  \<^bold>\<open>Authentication.\<close> \<^verbatim>\<open>Auth\<close>, \<^verbatim>\<open>JWT\<close>, \<^verbatim>\<open>OAuth2\<close>, \<^verbatim>\<open>Signature\<close> (\<^verbatim>\<open>core/auth\<close>): what an accepted token or
  signature proves, which error each rejection reports, and that tokens survive key rotation. Nothing is assumed of
  HMAC-SHA256: where security rests on it, the statement names the two texts that would have to collide.

  \<^bold>\<open>Bounds and fuel.\<close> Loops are structural recursions or functions with a termination proof. Two definitions carry
  fuel: the search for the shortest decimal of a \<^verbatim>\<open>float64\<close> in \<^verbatim>\<open>GoJson\<close> (seventeen digits suffice for every
  \<^verbatim>\<open>float64\<close>), and resolution in \<^verbatim>\<open>DI\<close>, for which the number of types not yet being built is proved to be enough.
  An operation that can block forever returns \<^const>\<open>None\<close> in that case.

  \<^bold>\<open>Not modelled.\<close>
  \<^item> External systems and the code that only calls them: Lua scripts run by Redis, etcd and Consul clients, SQL
    stores, Kafka, RabbitMQ and Redis-stream brokers, \<^verbatim>\<open>core/observability\<close> (OpenTelemetry, Prometheus),
    \<^verbatim>\<open>core/storage\<close>, \<^verbatim>\<open>core/llm\<close>, \<^verbatim>\<open>rpc/grpc\<close>. What they do is decided outside the repository.
  \<^item> Reflection and text templates: \<^verbatim>\<open>core/config\<close>, binding in \<^verbatim>\<open>rest\<close>, the code generator under \<^verbatim>\<open>cmd/gofly\<close>.
  \<^item> Transports and assembly: servers and clients of \<^verbatim>\<open>rest\<close>, \<^verbatim>\<open>rpc\<close> and \<^verbatim>\<open>gateway\<close>, \<^verbatim>\<open>app\<close>, \<^verbatim>\<open>ops/admin\<close>,
    command-line tools, migrations and examples: network, file and process I/O.
  \<^item> Components with state of their own that the library does not reach yet: \<^verbatim>\<open>core/governance\<close>, \<^verbatim>\<open>core/mq\<close> (in-memory
    broker), \<^verbatim>\<open>core/discovery\<close> (in-memory registry), \<^verbatim>\<open>core/eventbus\<close>, \<^verbatim>\<open>core/schedule\<close>, the tiered cache.
  \<^item> Go's memory model: code under a mutex is atomic, and data races are outside the model.
\<close>

section \<open>A cache guarded by a Bloom filter\<close>

text \<open>\<^verbatim>\<open>*bloom.Filter\<close> as the filter interface of the cache (\<^verbatim>\<open>cache.BloomFilter\<close>).\<close>

definition bloom_ops :: "Filter BloomFilter" where
  "bloom_ops =
     \<lparr>bf_ContainsString = (\<lambda>k f. Filter_ContainsString k f = Some True),
      bf_AddString = (\<lambda>k f. case Filter_AddString k f of Some f' \<Rightarrow> f' | None \<Rightarrow> f)\<rparr>"

lemma bloom_ops_add:
  assumes "filter_wf f"
  shows "filter_wf (bf_AddString bloom_ops k f)" "bf_ContainsString bloom_ops k (bf_AddString bloom_ops k f)"
    "bf_ContainsString bloom_ops k' f \<Longrightarrow> bf_ContainsString bloom_ops k' (bf_AddString bloom_ops k f)"
  using bloom.insert_law [OF assms, of k] bloom.insert_keeps [OF assms, of k _ k'] by (auto simp: bloom_ops_def)

lemma cache_run_keeps_key:
  assumes "c_bloom c = Some f" "filter_wf f" "bf_ContainsString bloom_ops k f"
  shows "\<exists>f'. c_bloom (snd (cache_run bloom_ops draw zero call c)) = Some f' \<and> filter_wf f' \<and> bf_ContainsString bloom_ops k f'"
  using assms bloom_ops_add [OF assms(2)]
  by (auto simp: cache_run_bloom split: cache_call.split sum.split)

lemma cache_runs_keep_key:
  assumes "c_bloom c = Some f" "filter_wf f" "bf_ContainsString bloom_ops k f"
  shows "\<exists>f'. c_bloom (fold (\<lambda>call d. snd (cache_run bloom_ops draw zero call d)) reqs c) = Some f' \<and> filter_wf f' \<and>
     bf_ContainsString bloom_ops k f'"
  using assms
proof (induction reqs arbitrary: c f)
  case (Cons call reqs)
  then show ?case using cache_run_keeps_key [OF Cons.prems, of draw zero call] by fastforce
qed simp

text \<open>
  C28. In a cache guarded by a Bloom filter, a key that was loaded once is never rejected by the filter
  again, whatever calls follow: when its entry is gone, \<^verbatim>\<open>GetOrLoad\<close> calls the loader.
\<close>

theorem Cache_bloom_never_rejects_loaded:
  assumes "c_bloom c = Some f" "filter_wf f" "key \<noteq> ''''"
    and "d = fold (\<lambda>call d. snd (cache_run bloom_ops draw zero call d)) reqs (load_store bloom_ops draw zero key (Inr v) t c)"
    and "\<not> c_disabled d" "fst (Cache_lookup key now d) = Missing" "firstLoader (c_loader (snd (Cache_lookup key now d))) loaders = Some loader"
    and "Cache_GetOrLoad bloom_ops draw zero key loaders now later Leader env d = (res, called, refresh, d')"
  shows "called \<and> res = wrap_load (loader key)"
proof -
  let ?c = "load_store bloom_ops draw zero key (Inr v) t c"
  have "c_bloom ?c = Some (bf_AddString bloom_ops key f)"
    using cache_run_bloom [of bloom_ops draw zero "CLoaded key (Inr v) t" c] assms(1) by simp
  from cache_runs_keep_key [OF this bloom_ops_add(1,2) [OF assms(2)]]
  obtain f' where f': "c_bloom d = Some f'" "bf_ContainsString bloom_ops key f'" unfolding assms(4) by blast
  obtain d1 where d1: "Cache_lookup key now d = (Missing, d1)" using assms(6) by (cases "Cache_lookup key now d") auto
  have "c_bloom d1 = Some f'"
    using cache_run_bloom [of bloom_ops draw zero "CLookup key now" d] d1 f'(1) by simp
  then show ?thesis
    using assms(3,5,7,8) f'(2) d1 by (auto simp: Cache_GetOrLoad_def)
qed

theorem Cache_bloom_never_rejects_loaded_witness:
  "let f = \<lparr>f_words = [0, 0], f_bits = 100, f_hashes = 3, f_added = 0\<rparr>;
       c = (Cache_New False [WithBloomFilter (Some f)] :: (int, Filter) Cache);
       d = fold (\<lambda>call d. snd (cache_run bloom_ops (\<lambda>n. 0) 0 call d)) [CDelete ''k'', CClear] (load_store bloom_ops (\<lambda>n. 0) 0 ''k'' (Inr 7) 5 c);
       (res, called, refresh, d') = Cache_GetOrLoad bloom_ops (\<lambda>n. 0) 0 ''k'' [Some (\<lambda>key. Inr 8)] 6 7 Leader (\<lambda>x. x) d
   in called \<and> res = Inr 8"
proof -
  define f where "f = \<lparr>f_words = [0, 0], f_bits = 100, f_hashes = 3, f_added = 0\<rparr>"
  define c where "c = (Cache_New False [WithBloomFilter (Some f)] :: (int, Filter) Cache)"
  define d where "d = fold (\<lambda>call d. snd (cache_run bloom_ops (\<lambda>n. 0) 0 call d)) [CDelete ''k'', CClear] (load_store bloom_ops (\<lambda>n. 0) 0 ''k'' (Inr 7) 5 c)"
  define loader :: "int Loader" where "loader = (\<lambda>key. Inr 8)"
  obtain res called refresh d' where run:
    "Cache_GetOrLoad bloom_ops (\<lambda>n. 0) 0 ''k'' [Some loader] 6 7 Leader (\<lambda>x. x) d = (res, called, refresh, d')"
    by (metis prod.exhaust)
  have inv: "cache_inv c" "length (items c) < 2 ^ 63" "c_disabled c = False" "c_bloom c = Some f"
    by (simp_all add: c_def Cache_New_def Let_def cache_inv_def)
  have wf: "filter_wf f" by (simp add: f_def filter_wf_def)
  let ?c1 = "load_store bloom_ops (\<lambda>n. 0) 0 ''k'' (Inr 7) 5 c"
  note L = load_store_abs [OF inv(1,2), of bloom_ops "\<lambda>n. 0" 0 "''k''" "Inr 7" 5]
  have d_eq: "d = Cache_Clear (snd (Cache_Delete ''k'' ?c1))" by (simp add: d_def split_beta)
  have its: "items d = []"
  proof -
    have "gomap_wf (items (snd (Cache_Delete ''k'' ?c1)))"
      using L by (auto simp: cache_inv_def Cache_Delete_def split: option.split)
    then show ?thesis by (simp add: d_eq Cache_Clear_def m_sweep_eq)
  qed
  have "settings d = settings c" using L by (auto simp: d_eq Cache_Clear_def Cache_Delete_def split: option.split)
  then have "\<not> c_disabled d" using settings_eqD(3) inv(3) by blast
  moreover have "fst (Cache_lookup ''k'' 6 d) = Missing" using its by (simp add: Cache_lookup_def)
  ultimately have "called \<and> res = wrap_load (loader ''k'')"
    using Cache_bloom_never_rejects_loaded [OF inv(4) wf _ d_def _ _ _ run] by simp
  then have "called \<and> res = Inr 8" by (simp add: loader_def wrap_load_def)
  then show ?thesis
    unfolding Let_def f_def [symmetric] c_def [symmetric] d_def [symmetric] loader_def [symmetric] run prod.case .
qed

end
